(* ===== verification/Prelude.thy ===== *)
theory Prelude
  imports Complex_Main "HOL-Library.Word" "HOL-Library.Signed_Division" "HOL-Library.Multiset"
begin

text \<open>
  Shared ground of the library: the parts of the C++ language and its standard library
  that the engine's sources use, as executable definitions.

  \<^item> \<open>std::clamp\<close>, the truncating \<open>static_cast<int64_t>\<close> and IEEE binary64 rounding
    (\<open>double\<close> values are rational numbers, every arithmetic operation is followed by
    \<open>fl64\<close>);
  \<^item> \<open>std::map\<close> as an association list in key order (\<open>upper_bound\<close>, \<open>emplace\<close>,
    \<open>operator[]\<close>, \<open>erase\<close>), since the sources iterate their maps in that order.

  The collections \<open>map_simps\<close> and \<open>map_intros\<close> carry the facts about ordered maps.
\<close>

named_theorems map_simps
named_theorems map_intros

section \<open>Arithmetic of the source language\<close>

text \<open>\<open>std::clamp(v, lo, hi)\<close>; its precondition \<open>lo \<le> hi\<close> is a proof obligation of
  every caller.\<close>

definition clamp :: "'a::linorder \<Rightarrow> 'a \<Rightarrow> 'a \<Rightarrow> 'a" where
  "clamp v lo hi = (if v < lo then lo else if hi < v then hi else v)"

lemma clamp_bounds:
  assumes "lo \<le> hi"
  shows "lo \<le> clamp v lo hi" and "clamp v lo hi \<le> hi"
  using assms by (auto simp: clamp_def)

lemma clamp_in: "lo \<le> v \<Longrightarrow> v \<le> hi \<Longrightarrow> clamp v lo hi = v"
  by (auto simp: clamp_def)

subsection \<open>Doubles\<close>

text \<open>A finite \<open>double\<close> is a rational number.\<close>

type_synonym double = rat

text \<open>The number of binary digits of a natural number.\<close>

fun bit_length :: "nat \<Rightarrow> nat" where
  "bit_length n = (if n = 0 then 0 else Suc (bit_length (n div 2)))"

declare bit_length.simps [simp del]

text \<open>Rounding to an integer, ties to even, as the default rounding mode does.\<close>

definition round_even :: "rat \<Rightarrow> int" where
  "round_even x =
     (let f = \<lfloor>x\<rfloor>; r = x - of_int f in
      if r < 1/2 then f
      else if 1/2 < r then f + 1
      else if even f then f else f + 1)"

definition pow2 :: "int \<Rightarrow> rat" where
  "pow2 e = (if 0 \<le> e then 2 ^ nat e else 1 / 2 ^ nat (- e))"

text \<open>The exponent \<open>k\<close> with \<open>2^k \<le> x < 2^(k+1)\<close> of a positive rational.\<close>

definition binade :: "rat \<Rightarrow> int" where
  "binade x =
     (let (n, d) = quotient_of x;
          k = int (bit_length (nat n)) - int (bit_length (nat d))
      in if pow2 k \<le> x then k else k - 1)"

text \<open>
  Rounding to the nearest binary64 number: 53 significant bits, subnormals below
  \<open>2^(-1022)\<close>. Overflow to infinity is not represented: byte counts, seconds and rates
  stay far below \<open>2^1024\<close>.
\<close>

definition fl64 :: "rat \<Rightarrow> double" where
  "fl64 x =
     (if x = 0 then 0
      else let e = max (binade \<bar>x\<bar> - 52) (- 1074)
           in of_int (round_even (x / pow2 e)) * pow2 e)"

text \<open>Arithmetic on doubles: the exact result, rounded once.\<close>

definition dadd :: "double \<Rightarrow> double \<Rightarrow> double" where
  "dadd x y = fl64 (x + y)"

definition dmul :: "double \<Rightarrow> double \<Rightarrow> double" where
  "dmul x y = fl64 (x * y)"

definition ddiv :: "double \<Rightarrow> double \<Rightarrow> double" where
  "ddiv x y = fl64 (x / y)"

text \<open>Conversion of an \<open>int64_t\<close> to \<open>double\<close> and, truncating toward zero, back.\<close>

definition to_double :: "int \<Rightarrow> double" where
  "to_double i = fl64 (of_int i)"

definition to_int64 :: "double \<Rightarrow> int" where
  "to_int64 x = (if 0 \<le> x then \<lfloor>x\<rfloor> else \<lceil>x\<rceil>)"

lemma fl64_0 [simp]: "fl64 0 = 0"
  by (simp add: fl64_def)

lemma to_double_0 [simp]: "to_double 0 = 0"
  by (simp add: to_double_def)

lemma pow2_pos [simp]: "0 < pow2 e"
  by (simp add: pow2_def)

lemma round_even_nonneg: "0 \<le> x \<Longrightarrow> 0 \<le> round_even x"
  by (auto simp: round_even_def Let_def)

lemma fl64_nonneg: "0 \<le> x \<Longrightarrow> 0 \<le> fl64 x"
  by (auto simp: fl64_def Let_def intro!: mult_nonneg_nonneg round_even_nonneg divide_nonneg_pos
      less_imp_le [OF pow2_pos])

subsection \<open>Exact results\<close>

text \<open>
  A dyadic number with a mantissa below \<open>2^53\<close> is a double: rounding leaves it alone. In
  particular byte counts below \<open>2^53\<close> convert exactly.
\<close>

lemma bit_length_bounds: "0 < n \<Longrightarrow> n < 2 ^ bit_length n \<and> 2 ^ bit_length n \<le> 2 * n"
proof (induction n rule: bit_length.induct)
  case (1 n)
  show ?case
  proof (cases "n = 1")
    case True
    then show ?thesis by (simp add: bit_length.simps [of "Suc 0"] bit_length.simps [of 0])
  next
    case False
    then have pos: "0 < n div 2" using 1(2) by auto
    then have "n div 2 < 2 ^ bit_length (n div 2)" "2 ^ bit_length (n div 2) \<le> 2 * (n div 2)"
      using 1(1) 1(2) by auto
    then show ?thesis using 1(2) by (auto simp: bit_length.simps [of n])
  qed
qed

lemma pow2_power_int: "pow2 e = 2 powi e"
  by (simp add: pow2_def power_int_def field_simps)

lemma pow2_add: "pow2 (a + b) = pow2 a * pow2 b"
  by (simp add: pow2_power_int power_int_add)

lemma pow2_nat: "pow2 (int n) = 2 ^ n"
  by (simp add: pow2_def)

lemma pow2_less_iff [simp]: "pow2 a < pow2 b \<longleftrightarrow> a < b"
proof -
  have less: "pow2 a < pow2 b" if "a < b" for a b
  proof -
    have "pow2 b = pow2 a * 2 ^ nat (b - a)" using pow2_add [of a "b - a"] that by (simp add: pow2_def [of "b - a"])
    moreover have "(1::rat) < 2 ^ nat (b - a)" using that by simp
    ultimately show ?thesis using pow2_pos [of a] by (simp add: mult_less_cancel_left1 not_le del: pow2_pos)
  qed
  then show ?thesis by (metis less_asym less_irrefl linorder_neqE)
qed

lemma pow2_le_iff [simp]: "pow2 a \<le> pow2 b \<longleftrightarrow> a \<le> b"
  using pow2_less_iff [of b a] by (simp only: not_less [symmetric])

lemma binade_le:
  assumes "0 < x"
  shows "pow2 (binade x) \<le> x"
proof -
  obtain n d where q: "quotient_of x = (n, d)" by force
  have d: "0 < d" using quotient_of_denom_pos [OF q] .
  have x: "x = of_int n / of_int d" using quotient_of_div [OF q] .
  have n: "0 < n" using assms d by (simp add: x zero_less_divide_iff)
  let ?k = "int (bit_length (nat n)) - int (bit_length (nat d))"
  have "(2::rat) ^ bit_length (nat n) \<le> 2 * of_int n" "(of_int d :: rat) < 2 ^ bit_length (nat d)"
  proof -
    have "2 ^ bit_length (nat n) \<le> 2 * nat n" "nat d < 2 ^ bit_length (nat d)"
      using bit_length_bounds [of "nat n"] bit_length_bounds [of "nat d"] n d by auto
    then have "int (2 ^ bit_length (nat n)) \<le> 2 * n" "d < int (2 ^ bit_length (nat d))"
      using n d by linarith+
    then have "rat_of_int (int (2 ^ bit_length (nat n))) \<le> of_int (2 * n)"
      "rat_of_int d < of_int (int (2 ^ bit_length (nat d)))" by (simp_all only: of_int_le_iff of_int_less_iff)
    then show "(2::rat) ^ bit_length (nat n) \<le> 2 * of_int n" "(of_int d :: rat) < 2 ^ bit_length (nat d)"
      by simp_all
  qed
  then have "pow2 (?k - 1) * of_int d \<le> of_int n"
  proof -
    assume a: "(2::rat) ^ bit_length (nat n) \<le> 2 * of_int n" "(of_int d :: rat) < 2 ^ bit_length (nat d)"
    have "pow2 (?k - 1) * of_int d \<le> pow2 (?k - 1) * pow2 (int (bit_length (nat d)))"
      using a(2) by (intro mult_left_mono) (simp_all add: pow2_nat less_imp_le)
    also have "\<dots> = pow2 (int (bit_length (nat n)) + (- 1))" by (simp flip: pow2_add)
    also have "\<dots> = 2 ^ bit_length (nat n) / 2" by (simp only: pow2_add pow2_nat) (simp add: pow2_def)
    finally show ?thesis using a(1) by simp
  qed
  then have "pow2 (?k - 1) \<le> x" using d by (simp add: x field_simps)
  then show ?thesis by (simp add: binade_def q Let_def)
qed

lemma round_even_of_int [simp]: "round_even (of_int i) = i"
  by (simp add: round_even_def)

lemma fl64_exact:
  assumes "x = of_int m * pow2 e" and "\<bar>m\<bar> < 2 ^ 53" and "- 1074 \<le> e"
  shows "fl64 x = x"
proof (cases "x = 0")
  case False
  define E where "E = max (binade \<bar>x\<bar> - 52) (- 1074)"
  have "E \<le> e"
  proof (cases "E = - 1074")
    case False
    then have E: "binade \<bar>x\<bar> = E + 52" by (auto simp: E_def max_def split: if_splits)
    have "pow2 (E + 52) \<le> \<bar>x\<bar>" using binade_le [of "\<bar>x\<bar>"] \<open>x \<noteq> 0\<close> E by simp
    also have "\<bar>x\<bar> = of_int \<bar>m\<bar> * pow2 e" by (simp add: assms(1) abs_mult abs_of_pos)
    also have "\<dots> < pow2 53 * pow2 e"
    proof -
      have "rat_of_int \<bar>m\<bar> < of_int (2 ^ 53)" using assms(2) by (simp only: of_int_less_iff)
      moreover have "rat_of_int (2 ^ 53) = pow2 53" by (simp add: pow2_def)
      ultimately show ?thesis by (intro mult_strict_right_mono) simp_all
    qed
    also have "\<dots> = pow2 (53 + e)" by (simp add: pow2_add)
    finally show ?thesis by (simp only: pow2_less_iff)
  qed (use assms(3) in simp)
  then have "pow2 e = of_int (2 ^ nat (e - E)) * pow2 E"
    using pow2_add [of "e - E" E] by (simp add: pow2_def [of "e - E"])
  then have x: "x = of_int (m * 2 ^ nat (e - E)) * pow2 E" using assms(1) by simp
  have nz: "pow2 E \<noteq> 0" using pow2_pos [of E] by (metis less_irrefl)
  have "x / pow2 E = of_int (m * 2 ^ nat (e - E))" using nz by (subst x) simp
  then have "fl64 x = of_int (m * 2 ^ nat (e - E)) * pow2 E"
    using False by (simp only: fl64_def E_def [symmetric] Let_def if_False round_even_of_int)
  then show ?thesis using x by simp
qed simp

lemma to_double_exact: "\<bar>i\<bar> < 2 ^ 53 \<Longrightarrow> to_double i = of_int i"
  unfolding to_double_def by (rule fl64_exact [of _ i 0]) (simp_all add: pow2_def)

lemma fl64_1 [simp]: "fl64 1 = 1"
  using fl64_exact [of 1 1 0] by (simp add: pow2_def)

lemma fl64_numeral: "numeral n < (2::int) ^ 53 \<Longrightarrow> fl64 (numeral n) = numeral n"
  using fl64_exact [of "numeral n" "numeral n" 0] by (simp add: pow2_def)

subsection \<open>Rounding is monotone\<close>

lemma binade_gt:
  assumes "0 < x"
  shows "x < pow2 (binade x + 1)"
proof -
  obtain n d where q: "quotient_of x = (n, d)" by force
  have d: "0 < d" using quotient_of_denom_pos [OF q] .
  have x: "x = of_int n / of_int d" using quotient_of_div [OF q] .
  have n: "0 < n" using assms d by (simp add: x zero_less_divide_iff)
  let ?a = "bit_length (nat n)" and ?b = "bit_length (nat d)"
  have "nat n < 2 ^ ?a" "2 ^ ?b \<le> 2 * nat d"
    using bit_length_bounds [of "nat n"] bit_length_bounds [of "nat d"] n d by auto
  then have "n < int (2 ^ ?a)" "int (2 ^ ?b) \<le> 2 * d" using n d by linarith+
  then have "rat_of_int n < of_int (int (2 ^ ?a))" "rat_of_int (int (2 ^ ?b)) \<le> of_int (2 * d)"
    by (simp_all only: of_int_le_iff of_int_less_iff)
  then have num: "of_int n < pow2 (int ?a)" and den: "pow2 (int ?b) \<le> 2 * rat_of_int d"
    by (simp_all add: pow2_nat)
  have "pow2 (int ?a) = pow2 (int ?a - int ?b) * pow2 (int ?b)" by (simp flip: pow2_add)
  also have "\<dots> \<le> pow2 (int ?a - int ?b) * (2 * of_int d)"
    using den by (intro mult_left_mono) (simp_all add: less_imp_le)
  also have "\<dots> = pow2 (int ?a - int ?b + 1) * of_int d" by (simp add: pow2_add pow2_def [of 1])
  finally have "x < pow2 (int ?a - int ?b + 1)" using num d by (simp add: x field_simps)
  then show ?thesis by (simp add: binade_def q Let_def)
qed

lemma round_even_mono:
  assumes "x \<le> y"
  shows "round_even x \<le> round_even y"
proof (cases "\<lfloor>x\<rfloor> = \<lfloor>y\<rfloor>")
  case True
  then show ?thesis using assms by (auto simp: round_even_def Let_def)
next
  case False
  then have "\<lfloor>x\<rfloor> + 1 \<le> \<lfloor>y\<rfloor>" using floor_mono [OF assms] by simp
  moreover have "round_even x \<le> \<lfloor>x\<rfloor> + 1" "\<lfloor>y\<rfloor> \<le> round_even y" by (auto simp: round_even_def Let_def)
  ultimately show ?thesis by simp
qed

lemma round_even_pow2_le: "0 \<le> k \<Longrightarrow> x \<le> pow2 k \<Longrightarrow> of_int (round_even x) \<le> pow2 k"
  and round_even_pow2_ge: "0 \<le> k \<Longrightarrow> pow2 k \<le> x \<Longrightarrow> pow2 k \<le> of_int (round_even x)"
proof -
  assume k: "0 \<le> k"
  then have eq: "pow2 k = of_int (2 ^ nat k)" by (simp add: pow2_def)
  show "x \<le> pow2 k \<Longrightarrow> of_int (round_even x) \<le> pow2 k"
    using round_even_mono [of x "pow2 k"] unfolding eq round_even_of_int of_int_le_iff .
  show "pow2 k \<le> x \<Longrightarrow> pow2 k \<le> of_int (round_even x)"
    using round_even_mono [of "pow2 k" x] unfolding eq round_even_of_int of_int_le_iff .
qed

lemma fl64_mono_pos:
  assumes "0 < x" and "x \<le> y"
  shows "fl64 x \<le> fl64 y"
proof -
  define e where "e z = max (binade z - 52) (- 1074)" for z
  have fl: "fl64 z = of_int (round_even (z / pow2 (e z))) * pow2 (e z)" if "0 < z" for z
    using that by (simp add: fl64_def e_def Let_def)
  have y: "0 < y" using assms by simp
  have "pow2 (binade x) < pow2 (binade y + 1)"
    by (rule le_less_trans [OF order_trans [OF binade_le [OF assms(1)] assms(2)] binade_gt [OF y]])
  then have le: "binade x \<le> binade y" by simp
  show ?thesis
  proof (cases "e x = e y")
    case True
    have "round_even (x / pow2 (e y)) \<le> round_even (y / pow2 (e y))"
      using assms(2) by (intro round_even_mono divide_right_mono) (simp_all add: less_imp_le)
    then show ?thesis unfolding fl [OF assms(1)] fl [OF y] True
      by (intro mult_right_mono) (simp_all add: less_imp_le)
  next
    case False
    then have less: "binade x < binade y" and ey: "e y = binade y - 52" and ex: "e x < e y"
      using le by (auto simp: e_def max_def split: if_splits)
    have "x \<le> pow2 (binade x + 1)" using binade_gt [OF assms(1)] by simp
    also have "\<dots> \<le> pow2 (binade y)" using less by simp
    finally have "x / pow2 (e x) \<le> pow2 (binade y - e x)"
      using pow2_add [of "binade y - e x" "e x"] by (simp add: pos_divide_le_eq)
    then have "of_int (round_even (x / pow2 (e x))) \<le> pow2 (binade y - e x)"
      using ex ey by (intro round_even_pow2_le) simp_all
    then have "fl64 x \<le> pow2 (binade y - e x) * pow2 (e x)"
      unfolding fl [OF assms(1)] by (intro mult_right_mono) (simp_all add: less_imp_le)
    also have "\<dots> = pow2 52 * pow2 (e y)" by (simp add: ey flip: pow2_add)
    also have "\<dots> \<le> fl64 y"
    proof -
      have "pow2 52 * pow2 (e y) \<le> y" using binade_le [OF y] by (simp add: ey flip: pow2_add)
      then have "pow2 52 \<le> y / pow2 (e y)" by (simp add: pos_le_divide_eq)
      then have "pow2 52 \<le> of_int (round_even (y / pow2 (e y)))" by (intro round_even_pow2_ge) simp
      then show ?thesis unfolding fl [OF y] by (intro mult_right_mono) (simp_all add: less_imp_le)
    qed
    finally show ?thesis .
  qed
qed

lemma fl64_mono: "0 \<le> x \<Longrightarrow> x \<le> y \<Longrightarrow> fl64 x \<le> fl64 y"
  using fl64_mono_pos [of x y] fl64_nonneg [of y] by (cases "x = 0") auto

section \<open>Lists\<close>

lemma sum_list_update_int: "i < length xs \<Longrightarrow> sum_list (xs[i := v]) = sum_list xs + v - (xs ! i :: int)"
  by (induction xs arbitrary: i) (auto simp: nth_Cons split: nat.splits)

section \<open>Ordered maps\<close>

text \<open>
  \<open>std::map<K, V>\<close> as the list of its entries in key order: \<open>keys_ascend\<close> is the
  class invariant of the container, kept by every operation.
\<close>

definition keys_ascend :: "('k::linorder \<times> 'v) list \<Rightarrow> bool" where
  "keys_ascend m = sorted_wrt (<) (map fst m)"

text \<open>\<open>upper_bound k\<close>: the entries before the returned iterator, and those from it.\<close>

definition upper_bound :: "'k::linorder \<Rightarrow> ('k \<times> 'v) list \<Rightarrow> ('k \<times> 'v) list \<times> ('k \<times> 'v) list" where
  "upper_bound k m = (takeWhile (\<lambda>x. fst x \<le> k) m, dropWhile (\<lambda>x. fst x \<le> k) m)"

text \<open>\<open>emplace\<close> leaves an existing entry alone; \<open>map_put\<close> is \<open>m[k] = v\<close>.\<close>

fun emplace :: "'k::linorder \<Rightarrow> 'v \<Rightarrow> ('k \<times> 'v) list \<Rightarrow> ('k \<times> 'v) list" where
  "emplace k v [] = [(k, v)]"
| "emplace k v (x # xs) =
     (if k < fst x then (k, v) # x # xs
      else if k = fst x then x # xs
      else x # emplace k v xs)"

fun map_put :: "'k::linorder \<Rightarrow> 'v \<Rightarrow> ('k \<times> 'v) list \<Rightarrow> ('k \<times> 'v) list" where
  "map_put k v [] = [(k, v)]"
| "map_put k v (x # xs) =
     (if k < fst x then (k, v) # x # xs
      else if k = fst x then (k, v) # xs
      else x # map_put k v xs)"

definition map_erase :: "'k \<Rightarrow> ('k \<times> 'v) list \<Rightarrow> ('k \<times> 'v) list" where
  "map_erase k m = filter (\<lambda>x. fst x \<noteq> k) m"

lemma upper_bound_append: "upper_bound k m = (lo, hi) \<Longrightarrow> m = lo @ hi"
  by (auto simp: upper_bound_def)

lemma upper_bound_lo: "upper_bound k m = (lo, hi) \<Longrightarrow> x \<in> set lo \<Longrightarrow> fst x \<le> k"
  by (auto simp: upper_bound_def dest: set_takeWhileD)

lemma upper_bound_hd:
  "upper_bound k m = (lo, x # hi) \<Longrightarrow> k < fst x"
  unfolding upper_bound_def
  by (metis (no_types, lifting) dropWhile_eq_Cons_conv linorder_not_le snd_conv)

lemma emplace_between:
  assumes "\<forall>x \<in> set lo. fst x < k" and "\<forall>x \<in> set hi. k < fst x"
  shows "emplace k v (lo @ hi) = lo @ (k, v) # hi"
  using assms
proof (induction lo)
  case Nil
  then show ?case by (cases hi) auto
next
  case (Cons a lo)
  then show ?case by auto
qed

lemma set_map_put: "set (map_put k v m) \<subseteq> insert (k, v) (set m)"
  by (induction m) auto

lemma fst_map_put [map_simps]: "fst ` set (map_put k v m) = insert k (fst ` set m)"
  by (induction m) auto

lemma keys_ascend_map_put [map_intros]: "keys_ascend m \<Longrightarrow> keys_ascend (map_put k v m)"
proof (induction m)
  case Nil
  then show ?case by (simp add: keys_ascend_def)
next
  case (Cons x xs)
  have "fst ` set (map_put k v xs) = insert k (fst ` set xs)" by (rule fst_map_put)
  then show ?case using Cons by (fastforce simp: keys_ascend_def)
qed

lemma map_of_map_put [map_simps]: "map_of (map_put k v m) = (map_of m)(k \<mapsto> v)"
proof (induction m)
  case Nil
  then show ?case by simp
next
  case (Cons x xs)
  then show ?case by (cases x) (auto simp: fun_eq_iff)
qed

lemma keys_ascend_map_erase [map_intros]: "keys_ascend m \<Longrightarrow> keys_ascend (map_erase k m)"
  by (simp add: keys_ascend_def map_erase_def sorted_wrt_map sorted_wrt_filter)

lemma map_of_map_erase [map_simps]: "map_of (map_erase k m) = (map_of m)(k := None)"
  by (induction m) (auto simp: map_erase_def fun_eq_iff)

lemma keys_ascend_distinct: "keys_ascend m \<Longrightarrow> distinct (map fst m)"
  by (simp add: keys_ascend_def strict_sorted_iff)

lemma map_of_in_set: "keys_ascend m \<Longrightarrow> map_of m k = Some v \<longleftrightarrow> (k, v) \<in> set m"
  by (simp add: keys_ascend_distinct)

lemma set_map_put_eq:
  assumes "keys_ascend m"
  shows "set (map_put k v m) = insert (k, v) {x \<in> set m. fst x \<noteq> k}"
proof -
  have "(a, w) \<in> set (map_put k v m) \<longleftrightarrow> (a, w) \<in> insert (k, v) {x \<in> set m. fst x \<noteq> k}" for a w
    using map_of_in_set [OF keys_ascend_map_put [OF assms, of k v], of a w]
      map_of_in_set [OF assms, of a w]
    by (auto simp: map_of_map_put split: if_splits)
  then show ?thesis by auto
qed

lemma set_map_erase [map_simps]: "set (map_erase k m) = {x \<in> set m. fst x \<noteq> k}"
  by (simp add: map_erase_def)

text \<open>A loop over a map that updates or erases each entry.\<close>

definition map_each :: "('k \<Rightarrow> 'v \<Rightarrow> 'v option) \<Rightarrow> ('k \<times> 'v) list \<Rightarrow> ('k \<times> 'v) list" where
  "map_each f m =
     concat (map (\<lambda>(k, v). case f k v of None \<Rightarrow> [] | Some v' \<Rightarrow> [(k, v')]) m)"

lemma set_map_each: "set (map_each f m) = {(k, v'). \<exists>v. (k, v) \<in> set m \<and> f k v = Some v'}"
  by (induction m) (auto simp: map_each_def split: option.splits)

lemma keys_ascend_map_each [map_intros]:
  assumes "keys_ascend m"
  shows "keys_ascend (map_each f m)"
  using assms
proof (induction m)
  case (Cons x m)
  have eq: "map_each f (x # m) =
      (case f (fst x) (snd x) of None \<Rightarrow> [] | Some v \<Rightarrow> [(fst x, v)]) @ map_each f m"
    by (cases x) (auto simp: map_each_def split: option.splits)
  have "\<forall>y \<in> set (map_each f m). fst x < fst y"
    using Cons.prems by (force simp: set_map_each keys_ascend_def)
  then show ?case using Cons unfolding eq by (auto simp: keys_ascend_def split: option.splits)
qed (simp add: map_each_def)

lemma map_of_map_each [map_simps]:
  assumes "keys_ascend m"
  shows "map_of (map_each f m) k = (case map_of m k of None \<Rightarrow> None | Some v \<Rightarrow> f k v)"
proof -
  have "map_of (map_each f m) k = Some w \<longleftrightarrow>
      (case map_of m k of None \<Rightarrow> None | Some v \<Rightarrow> f k v) = Some w" for w
    unfolding map_of_in_set [OF keys_ascend_map_each [OF assms]] set_map_each
    by (auto simp flip: map_of_in_set [OF assms] split: option.splits)
  then show ?thesis by (metis not_Some_eq)
qed

section \<open>Transition systems\<close>

text \<open>What a component's state machine provides: its initial states satisfy \<open>ok\<close> and its steps keep it.\<close>

locale transition_system =
  fixes init :: "'s \<Rightarrow> bool" and step :: "'s \<Rightarrow> 's \<Rightarrow> bool" and ok :: "'s \<Rightarrow> bool"
  assumes init_ok: "init s \<Longrightarrow> ok s"
    and step_ok: "ok s \<Longrightarrow> step s s' \<Longrightarrow> ok s'"
begin

lemma path_ok: "step\<^sup>*\<^sup>* s s' \<Longrightarrow> ok s \<Longrightarrow> ok s'"
  by (induction rule: rtranclp_induct) (auto intro: step_ok)

lemma always_ok: "init s \<Longrightarrow> step\<^sup>*\<^sup>* s s' \<Longrightarrow> ok s'"
  using path_ok init_ok by blast

end

end
