(* ===== verification/Ranges.thy ===== *)
theory Ranges
  imports Prelude
begin

text \<open>
  The byte-range set of \<open>http/Ranges.h\<close> and \<open>http/Ranges.cc\<close>, which records the received,
  persisted and owned bytes of every HTTP and ED2K download.
\<close>

section \<open>Model\<close>

text \<open>\<open>std::map<int64_t, int64_t> ranges_\<close>: begin to end, half open.\<close>

type_synonym range = "int \<times> int"
type_synonym range_set = "(int \<times> int) list"

text \<open>The loop of \<open>add\<close>: entries that start at or before \<open>e\<close> are merged.\<close>

fun absorb :: "int \<Rightarrow> range_set \<Rightarrow> int \<times> range_set" where
  "absorb e [] = (e, [])"
| "absorb e ((f, l) # xs) = (if f \<le> e then absorb (max e l) xs else (e, (f, l) # xs))"

definition rs_add :: "int \<Rightarrow> int \<Rightarrow> range_set \<Rightarrow> range_set" where
  "rs_add b e R =
     (if b \<ge> e then R
      else let (lo, it) = upper_bound b R;
               (lo', it', b') =
                 (if lo \<noteq> [] \<and> snd (last lo) \<ge> b
                  then (butlast lo, last lo # it, fst (last lo))
                  else (lo, it, b));
               (e', rest) = absorb e it'
           in emplace b' e' (lo' @ rest))"

text \<open>The loop of \<open>remove\<close>.\<close>

fun carve :: "int \<Rightarrow> int \<Rightarrow> range_set \<Rightarrow> range_set" where
  "carve b e [] = []"
| "carve b e ((f, l) # xs) =
     (if f < e
      then if l \<le> b then (f, l) # carve b e xs
           else (if f < b then [(f, b)] else []) @
                (if l > e then emplace e l xs else carve b e xs)
      else (f, l) # xs)"

definition rs_remove :: "int \<Rightarrow> int \<Rightarrow> range_set \<Rightarrow> range_set" where
  "rs_remove b e R =
     (if b \<ge> e then R
      else let (lo, it) = upper_bound b R
           in if lo \<noteq> [] then butlast lo @ carve b e (last lo # it)
              else carve b e it)"

definition rs_contains :: "int \<Rightarrow> int \<Rightarrow> range_set \<Rightarrow> bool" where
  "rs_contains b e R =
     (if b \<ge> e then True
      else let (lo, it) = upper_bound b R
           in lo \<noteq> [] \<and> snd (last lo) \<ge> e)"

definition rs_total :: "range_set \<Rightarrow> int" where
  "rs_total R = (\<Sum>(b, e) \<leftarrow> R. e - b)"

fun cover :: "int \<Rightarrow> int \<Rightarrow> range_set \<Rightarrow> int" where
  "cover b e [] = 0"
| "cover b e ((f, l) # xs) =
     (if f < e then max 0 (min e l - max b f) + cover b e xs else 0)"

definition rs_covered :: "int \<Rightarrow> int \<Rightarrow> range_set \<Rightarrow> int" where
  "rs_covered b e R =
     (let (lo, it) = upper_bound b R
      in cover b e (if lo \<noteq> [] then last lo # it else it))"

definition rs_firstGap :: "int \<Rightarrow> int \<Rightarrow> range_set \<Rightarrow> range option" where
  "rs_firstGap from limit R =
     (let (lo, it) = upper_bound from R;
          cursor = (if lo \<noteq> [] \<and> snd (last lo) > from then snd (last lo) else from)
      in if cursor \<ge> limit then None
         else Some (cursor, case it of [] \<Rightarrow> limit | x # _ \<Rightarrow> min limit (fst x)))"

section \<open>Meaning and invariant\<close>

text \<open>The bytes a range set stands for, and the class comment: disjoint and coalesced.\<close>

definition bytes :: "range_set \<Rightarrow> int set" where
  "bytes R = (\<Union>(b, e) \<in> set R. {b..<e})"

definition rs_ok :: "range_set \<Rightarrow> bool" where
  "rs_ok R = ((\<forall>x \<in> set R. fst x < snd x) \<and> sorted_wrt (\<lambda>x y. snd x < fst y) R)"

lemma bytes_simps [simp]:
  "bytes [] = {}"
  "bytes (x # R) = {fst x..<snd x} \<union> bytes R"
  "bytes (R @ S) = bytes R \<union> bytes S"
  by (auto simp: bytes_def)

lemma rs_ok_simps [simp]:
  "rs_ok []"
  "rs_ok (x # R) \<longleftrightarrow> fst x < snd x \<and> (\<forall>y \<in> set R. snd x < fst y) \<and> rs_ok R"
  by (auto simp: rs_ok_def)

lemma rs_ok_append:
  "rs_ok (R @ S) \<longleftrightarrow> rs_ok R \<and> rs_ok S \<and> (\<forall>x \<in> set R. \<forall>y \<in> set S. snd x < fst y)"
  by (auto simp: rs_ok_def sorted_wrt_append)

lemma rs_ok_nonempty: "rs_ok R \<Longrightarrow> x \<in> set R \<Longrightarrow> fst x < snd x"
  by (simp add: rs_ok_def)

lemma bytes_iff: "k \<in> bytes R \<longleftrightarrow> (\<exists>x \<in> set R. fst x \<le> k \<and> k < snd x)"
  by (force simp: bytes_def)

lemma finite_bytes [simp]: "finite (bytes R)"
  by (auto simp: bytes_def)

text \<open>The key order of the container follows from the invariant.\<close>

lemma rs_ok_keys_ascend: "rs_ok R \<Longrightarrow> keys_ascend R"
  by (induction R) (force simp: keys_ascend_def)+

text \<open>Where \<open>upper_bound\<close> splits a well-formed set.\<close>

lemma upper_bound_split:
  assumes "upper_bound k R = (lo, it)" and "rs_ok R"
  shows "R = lo @ it" and "rs_ok lo" and "rs_ok it"
    and "\<forall>x \<in> set lo. fst x \<le> k" and "\<forall>y \<in> set it. k < fst y"
    and "\<forall>x \<in> set lo. \<forall>y \<in> set it. snd x < fst y"
proof -
  show R: "R = lo @ it" by (rule upper_bound_append [OF assms(1)])
  with assms(2) show "rs_ok lo" and it: "rs_ok it"
    and "\<forall>x \<in> set lo. \<forall>y \<in> set it. snd x < fst y" by (auto simp: rs_ok_append)
  show "\<forall>x \<in> set lo. fst x \<le> k" using upper_bound_lo [OF assms(1)] by blast
  show "\<forall>y \<in> set it. k < fst y"
  proof (cases it)
    case (Cons y ys)
    with upper_bound_hd assms(1) have "k < fst y" by fastforce
    with it Cons show ?thesis by force
  qed simp
qed


section \<open>Correctness of the operations\<close>

lemma absorb_props:
  assumes "absorb e R = (e', S)" and "rs_ok R" and "\<forall>x \<in> set R. b \<le> fst x" and "b < e"
  shows "e \<le> e'" and "rs_ok S" and "set S \<subseteq> set R" and "\<forall>x \<in> set S. e' < fst x"
    and "{b..<e'} \<union> bytes S = {b..<e} \<union> bytes R"
proof -
  have "e \<le> e' \<and> rs_ok S \<and> set S \<subseteq> set R \<and> (\<forall>x \<in> set S. e' < fst x) \<and>
      {b..<e'} \<union> bytes S = {b..<e} \<union> bytes R"
    using assms
  proof (induction e R arbitrary: e' S rule: absorb.induct)
    case (1 e)
    then show ?case by auto
  next
    case (2 e f l xs)
    note prems = 2(2-5)
    show ?case
    proof (cases "f \<le> e")
      case True
      then have ab: "absorb (max e l) xs = (e', S)" using prems(1) by simp
      have ih: "max e l \<le> e' \<and> rs_ok S \<and> set S \<subseteq> set xs \<and> (\<forall>x \<in> set S. e' < fst x) \<and>
          {b..<e'} \<union> bytes S = {b..<max e l} \<union> bytes xs"
        using 2(1) [OF True ab] prems by simp
      have "{b..<max e l} = {b..<e} \<union> {f..<l}" using True prems(3,4) by auto
      with ih show ?thesis by auto
    next
      case False
      then have "e' = e" "S = (f, l) # xs" using prems(1) by auto
      with False prems(2) show ?thesis by force
    qed
  qed
  then show "e \<le> e'" and "rs_ok S" and "set S \<subseteq> set R" and "\<forall>x \<in> set S. e' < fst x"
    and "{b..<e'} \<union> bytes S = {b..<e} \<union> bytes R" by blast+
qed

lemma add_at:
  assumes "rs_ok (lo @ it)" and "\<forall>x \<in> set lo. snd x < b" and "\<forall>x \<in> set it. b \<le> fst x"
    and "b < e" and "absorb e it = (e', rest)"
  shows "rs_ok (emplace b e' (lo @ rest))"
    and "bytes (emplace b e' (lo @ rest)) = bytes lo \<union> {b..<e} \<union> bytes it"
proof -
  have ok: "rs_ok lo" "rs_ok it" "\<forall>x \<in> set lo. \<forall>y \<in> set it. snd x < fst y"
    using assms(1) by (auto simp: rs_ok_append)
  note ab = absorb_props [OF assms(5) ok(2) assms(3,4)]
  have lt: "\<forall>x \<in> set lo. fst x < b" using assms(2) rs_ok_nonempty [OF ok(1)] by force
  have gt: "\<forall>x \<in> set rest. b < fst x" using ab(1,4) assms(4) by force
  have eq: "emplace b e' (lo @ rest) = lo @ (b, e') # rest"
    by (rule emplace_between [OF lt gt])
  show "rs_ok (emplace b e' (lo @ rest))"
    using ok ab assms(2,4) by (auto simp: eq rs_ok_append subset_eq)
  show "bytes (emplace b e' (lo @ rest)) = bytes lo \<union> {b..<e} \<union> bytes it"
    using ab(5) by (auto simp: eq)
qed

lemma rs_add_correct:
  assumes "rs_ok R"
  shows "rs_ok (rs_add b e R) \<and> bytes (rs_add b e R) = bytes R \<union> {b..<e}"
proof (cases "b < e")
  case False
  then show ?thesis using assms by (simp add: rs_add_def)
next
  case True
  obtain lo it where ub: "upper_bound b R = (lo, it)" by (cases "upper_bound b R")
  note sp = upper_bound_split [OF ub assms]
  show ?thesis
  proof (cases "lo \<noteq> [] \<and> snd (last lo) \<ge> b")
    case merge: True
    then obtain ys y where lo: "lo = ys @ [y]" by (cases lo rule: rev_cases) auto
    obtain e' rest where ab: "absorb e (y # it) = (e', rest)" by (cases "absorb e (y # it)")
    have eq: "rs_add b e R = emplace (fst y) e' (ys @ rest)"
      using True merge ub ab lo by (simp add: rs_add_def)
    have R: "R = ys @ y # it" using sp(1) lo by simp
    have ok: "rs_ok (ys @ y # it)" using assms R by simp
    have le: "fst y \<le> b" and y: "b \<le> snd y" using sp(4) merge lo by auto
    have 1: "\<forall>x \<in> set ys. snd x < fst y" using ok by (simp add: rs_ok_append)
    have 2: "\<forall>x \<in> set (y # it). fst y \<le> fst x" using sp(5) le by fastforce
    have 3: "fst y < e" using le True by simp
    have "bytes R = bytes ys \<union> ({fst y..<snd y} \<union> bytes it)" by (simp add: R)
    moreover have "{fst y..<e} \<union> {fst y..<snd y} = {b..<e} \<union> {fst y..<snd y}"
      using le y by auto
    ultimately show ?thesis using add_at [OF ok 1 2 3 ab] unfolding eq by simp blast
  next
    case False
    obtain e' rest where ab: "absorb e it = (e', rest)" by (cases "absorb e it")
    have eq: "rs_add b e R = emplace b e' (lo @ rest)"
      using True False ub ab by (auto simp: rs_add_def)
    have 1: "\<forall>x \<in> set lo. snd x < b"
    proof (cases lo rule: rev_cases)
      case (snoc ys y)
      then have "\<forall>x \<in> set ys. snd x < fst y" "fst y < snd y" "snd y < b"
        using sp(2) False by (auto simp: rs_ok_append)
      then show ?thesis using snoc by force
    qed simp
    have 2: "\<forall>x \<in> set it. b \<le> fst x" using sp(5) by force
    have ok: "rs_ok (lo @ it)" using sp(1) assms by simp
    have "bytes R = bytes lo \<union> bytes it" using sp(1) by simp
    with add_at [OF ok 1 2 True ab] show ?thesis unfolding eq by blast
  qed
qed

lemma carve_correct:
  assumes "rs_ok R" and "b < e"
  shows "rs_ok (carve b e R) \<and> bytes (carve b e R) = bytes R - {b..<e} \<and>
    (\<forall>x \<in> set (carve b e R). \<exists>y \<in> set R. fst y \<le> fst x)"
  using assms
proof (induction b e R rule: carve.induct)
  case (1 b e)
  then show ?case by simp
next
  case (2 b e f l xs)
  have ok: "f < l" "\<forall>y \<in> set xs. l < fst y" "rs_ok xs" using 2(3) by auto
  have later: "k \<in> bytes xs \<Longrightarrow> l < k" for k using ok(2) by (force simp: bytes_iff)
  consider (past) "e \<le> f" | (before) "f < e" "l \<le> b" | (inside) "f < e" "b < l" "e < l"
    | (cut) "f < e" "b < l" "l \<le> e" by linarith
  then show ?case
  proof cases
    case past
    then have "{b..<e} \<inter> bytes ((f, l) # xs) = {}" using later ok(1) by fastforce
    then show ?thesis using past 2(3) by auto
  next
    case before
    with 2(1) ok(3) 2(4) have ih: "rs_ok (carve b e xs)" "bytes (carve b e xs) = bytes xs - {b..<e}"
      "\<forall>x \<in> set (carve b e xs). \<exists>y \<in> set xs. fst y \<le> fst x" by auto
    have "carve b e ((f, l) # xs) = (f, l) # carve b e xs" using before by simp
    moreover have "\<forall>x \<in> set (carve b e xs). l < fst x" using ih(3) ok(2) by force
    moreover have "{f..<l} - {b..<e} = {f..<l}" using before by auto
    ultimately show ?thesis using ih ok(1) by auto
  next
    case inside
    have em: "emplace e l xs = (e, l) # xs"
      using emplace_between [of "[]" e xs l] ok(2) inside by force
    have eq: "carve b e ((f, l) # xs) = (if f < b then [(f, b)] else []) @ (e, l) # xs"
      using inside em by simp
    have "rs_ok (carve b e ((f, l) # xs))" unfolding eq using ok inside 2(4) by (auto simp: rs_ok_append)
    moreover have "{b..<e} \<inter> bytes xs = {}" using later inside by fastforce
    then have "bytes (carve b e ((f, l) # xs)) = bytes ((f, l) # xs) - {b..<e}"
      unfolding eq using inside 2(4) by auto
    moreover have "\<forall>x \<in> set (carve b e ((f, l) # xs)). f \<le> fst x"
      unfolding eq using ok(1,2) inside by force
    ultimately show ?thesis by simp
  next
    case cut
    with 2(2) ok(3) 2(4) have ih: "rs_ok (carve b e xs)" "bytes (carve b e xs) = bytes xs - {b..<e}"
      "\<forall>x \<in> set (carve b e xs). \<exists>y \<in> set xs. fst y \<le> fst x" by auto
    have eq: "carve b e ((f, l) # xs) = (if f < b then [(f, b)] else []) @ carve b e xs"
      using cut by simp
    have gt: "\<forall>x \<in> set (carve b e xs). l < fst x" using ih(3) ok(2) by force
    then have "rs_ok (carve b e ((f, l) # xs))" unfolding eq using ih cut by (auto simp: rs_ok_append)
    moreover have "{f..<l} - {b..<e} = {f..<min l b}" using cut 2(4) by auto
    then have "bytes (carve b e ((f, l) # xs)) = bytes ((f, l) # xs) - {b..<e}"
      using ih(2) cut by (auto simp: eq)
    moreover have "\<forall>x \<in> set (carve b e ((f, l) # xs)). f \<le> fst x"
      unfolding eq using gt ok(1) by force
    ultimately show ?thesis by simp
  qed
qed

lemma rs_remove_correct:
  assumes "rs_ok R"
  shows "rs_ok (rs_remove b e R) \<and> bytes (rs_remove b e R) = bytes R - {b..<e}"
proof (cases "b < e")
  case False
  then show ?thesis using assms by (simp add: rs_remove_def)
next
  case True
  obtain lo it where ub: "upper_bound b R = (lo, it)" by (cases "upper_bound b R")
  note sp = upper_bound_split [OF ub assms]
  show ?thesis
  proof (cases lo rule: rev_cases)
    case Nil
    then have "rs_remove b e R = carve b e R" using True ub sp(1) by (simp add: rs_remove_def)
    then show ?thesis using carve_correct [OF assms True] by simp
  next
    case (snoc ys y)
    then have eq: "rs_remove b e R = ys @ carve b e (y # it)" and R: "R = ys @ y # it"
      using True ub sp(1) by (auto simp: rs_remove_def)
    have ok: "rs_ok ys" "rs_ok (y # it)" "\<forall>x \<in> set ys. snd x < fst y"
      using assms R by (auto simp: rs_ok_append)
    note c = carve_correct [OF ok(2) True]
    have le: "\<forall>z \<in> set (y # it). fst y \<le> fst z" using ok(2) by (auto simp: less_imp_le)
    have "\<forall>x \<in> set ys. \<forall>z \<in> set (carve b e (y # it)). snd x < fst z"
      using c ok(3) le by (meson le_less_trans less_le_trans)
    then have "rs_ok (rs_remove b e R)" unfolding eq using ok(1) c by (simp add: rs_ok_append)
    have "fst y \<le> b" using sp(4) snoc by simp
    then have "bytes ys \<inter> {b..<e} = {}" using ok(3) by (force simp: bytes_iff)
    moreover have "bytes R = bytes ys \<union> bytes (y # it)" using R by simp
    ultimately have "bytes (rs_remove b e R) = bytes R - {b..<e}" unfolding eq using c by auto
    with \<open>rs_ok (rs_remove b e R)\<close> show ?thesis by simp
  qed
qed

text \<open>The entry that can hold byte \<open>k\<close> is the last one that starts at or before it.\<close>

lemma byte_below:
  assumes "upper_bound k R = (lo, it)" and "rs_ok R"
  shows "k \<in> bytes R \<longleftrightarrow> lo \<noteq> [] \<and> k < snd (last lo)"
proof (cases lo rule: rev_cases)
  case Nil
  with upper_bound_split [OF assms] show ?thesis by (force simp: bytes_iff)
next
  case (snoc ys y)
  note sp = upper_bound_split [OF assms]
  have ys: "\<forall>x \<in> set ys. snd x < fst y" and y: "fst y \<le> k" using sp(2,4) snoc by (auto simp: rs_ok_append)
  have "k \<notin> bytes ys" using ys y by (force simp: bytes_iff)
  moreover have "k \<notin> bytes it" using sp(5) by (force simp: bytes_iff)
  ultimately show ?thesis using sp(1) snoc y by auto
qed

lemma rs_contains_correct:
  assumes "rs_ok R"
  shows "rs_contains b e R \<longleftrightarrow> {b..<e} \<subseteq> bytes R"
proof (cases "b < e")
  case False
  then show ?thesis by (simp add: rs_contains_def)
next
  case True
  obtain lo it where ub: "upper_bound b R = (lo, it)" by (cases "upper_bound b R")
  note sp = upper_bound_split [OF ub assms]
  have eq: "rs_contains b e R \<longleftrightarrow> lo \<noteq> [] \<and> e \<le> snd (last lo)"
    using True ub by (simp add: rs_contains_def)
  show ?thesis
  proof
    assume "rs_contains b e R"
    then have ne: "lo \<noteq> []" "e \<le> snd (last lo)" by (auto simp: eq)
    then have "last lo \<in> set R" "fst (last lo) \<le> b" using sp(1,4) by auto
    with ne(2) show "{b..<e} \<subseteq> bytes R" by (force simp: bytes_iff)
  next
    assume sub: "{b..<e} \<subseteq> bytes R"
    then have "b \<in> bytes R" using True by auto
    then have ne: "lo \<noteq> []" "b < snd (last lo)" using byte_below [OF ub assms] by auto
    have "e \<le> snd (last lo)"
    proof (rule ccontr)
      assume "\<not> e \<le> snd (last lo)"
      then have "snd (last lo) \<in> bytes R" using sub ne(2) by force
      then obtain x where x: "x \<in> set R" "fst x \<le> snd (last lo)" "snd (last lo) < snd x"
        by (auto simp: bytes_iff)
      have "x \<notin> set it" using x(2) sp(6) last_in_set [OF ne(1)] by (meson linorder_not_le)
      then have "x \<in> set lo" using x(1) sp(1) by auto
      moreover obtain ys y where lo: "lo = ys @ [y]" using ne(1) by (cases lo rule: rev_cases) auto
      ultimately show False using x(3) sp(2) by (force simp: rs_ok_append)
    qed
    with ne show "rs_contains b e R" by (simp add: eq)
  qed
qed

lemma rs_total_correct: "rs_ok R \<Longrightarrow> rs_total R = int (card (bytes R))"
proof (induction R)
  case Nil
  then show ?case by (simp add: rs_total_def)
next
  case (Cons x R)
  have "{fst x..<snd x} \<inter> bytes R = {}" using Cons.prems by (force simp: bytes_iff)
  then have "card (bytes (x # R)) = card {fst x..<snd x} + card (bytes R)"
    by (simp add: card_Un_disjoint)
  with Cons show ?case by (simp add: rs_total_def case_prod_unfold)
qed

lemma cover_correct: "rs_ok R \<Longrightarrow> cover b e R = int (card (bytes R \<inter> {b..<e}))"
proof (induction R)
  case Nil
  then show ?case by simp
next
  case (Cons x R)
  obtain f l where x: "x = (f, l)" by (cases x)
  have disj: "{f..<l} \<inter> bytes R = {}" using Cons.prems x by (force simp: bytes_iff)
  show ?case
  proof (cases "f < e")
    case True
    have "card (bytes (x # R) \<inter> {b..<e}) = card ({f..<l} \<inter> {b..<e}) + card (bytes R \<inter> {b..<e})"
      using disj by (subst card_Un_disjoint [symmetric]) (auto simp: x Int_Un_distrib2)
    moreover have "{f..<l} \<inter> {b..<e} = {max b f..<min e l}" by auto
    then have "int (card ({f..<l} \<inter> {b..<e})) = max 0 (min e l - max b f)"
      by (simp only: card_atLeastLessThan_int)
    ultimately show ?thesis using Cons True x by (simp del: Int_atLeastLessThan)
  next
    case False
    then have "bytes (x # R) \<inter> {b..<e} = {}" using Cons.prems x by (force simp: bytes_iff)
    then show ?thesis using False x by simp
  qed
qed

lemma rs_covered_correct:
  assumes "rs_ok R"
  shows "rs_covered b e R = int (card (bytes R \<inter> {b..<e}))"
proof -
  obtain lo it where ub: "upper_bound b R = (lo, it)" by (cases "upper_bound b R")
  note sp = upper_bound_split [OF ub assms]
  show ?thesis
  proof (cases lo rule: rev_cases)
    case Nil
    then show ?thesis using ub sp(1) cover_correct [OF assms] by (simp add: rs_covered_def)
  next
    case (snoc ys y)
    have R: "R = ys @ y # it" using sp(1) snoc by simp
    then have ok: "rs_ok (y # it)" "\<forall>x \<in> set ys. snd x < fst y" using assms by (auto simp: rs_ok_append)
    have "fst y \<le> b" using sp(4) snoc by simp
    then have "bytes ys \<inter> {b..<e} = {}" using ok(2) by (force simp: bytes_iff)
    moreover have "bytes R = bytes ys \<union> bytes (y # it)" using R by simp
    ultimately have "bytes R \<inter> {b..<e} = bytes (y # it) \<inter> {b..<e}" by blast
    then show ?thesis using ub snoc cover_correct [OF ok(1)] by (simp add: rs_covered_def)
  qed
qed

lemma rs_firstGap_eq:
  assumes "rs_firstGap from limit R = Some (a, b)" and "upper_bound from R = (lo, it)"
  shows "a = (if lo \<noteq> [] \<and> snd (last lo) > from then snd (last lo) else from)" and "a < limit"
    and "b = (case it of [] \<Rightarrow> limit | x # _ \<Rightarrow> min limit (fst x))"
  using assms by (simp_all add: rs_firstGap_def Let_def split: if_splits)

lemma rs_firstGap_progress:
  assumes "rs_firstGap from limit R = Some (a, b)"
  shows "from \<le> a" and "a < limit" and "from < b" and "b \<le> limit"
proof -
  obtain lo it where ub: "upper_bound from R = (lo, it)" by (cases "upper_bound from R")
  note eq = rs_firstGap_eq [OF assms ub]
  show a: "from \<le> a" "a < limit" using eq(1,2) by (auto split: if_splits)
  show "b \<le> limit" using eq(3) by (cases it) auto
  show "from < b" using eq(3) a upper_bound_hd ub by (cases it) fastforce+
qed

lemma rs_firstGap_Some:
  assumes "rs_ok R" and "rs_firstGap from limit R = Some (a, b)"
  shows "from \<le> a \<and> a < b \<and> b \<le> limit \<and> {from..<a} \<subseteq> bytes R \<and>
    {a..<b} \<inter> bytes R = {} \<and> (b = limit \<or> b \<in> bytes R)"
proof -
  obtain lo it where ub: "upper_bound from R = (lo, it)" by (cases "upper_bound from R")
  note sp = upper_bound_split [OF ub assms(1)]
  note eq = rs_firstGap_eq [OF assms(2) ub]
  have gt: "\<forall>x \<in> set it. a < fst x" using sp(5,6) eq(1) last_in_set [of lo] by auto
  have it: "\<forall>x \<in> set it. b \<le> fst x" using sp(3) eq(3) by (cases it) (auto simp: min_def)
  have lo: "\<forall>x \<in> set lo. snd x \<le> a"
  proof (cases lo rule: rev_cases)
    case (snoc ys y)
    then have "\<forall>x \<in> set ys. snd x < snd y" using sp(2) by (force simp: rs_ok_append)
    then show ?thesis using snoc eq(1) by (auto split: if_splits)
  qed simp
  have ab: "a < b" using eq(2,3) gt by (cases it) auto
  have "{from..<a} \<subseteq> bytes R"
  proof
    fix k assume k: "k \<in> {from..<a}"
    then have ne: "lo \<noteq> []" "a = snd (last lo)" using eq(1) by (auto split: if_splits)
    then have "last lo \<in> set R" "fst (last lo) \<le> from" using sp(1,4) by auto
    with k ne(2) show "k \<in> bytes R" by (force simp: bytes_iff)
  qed
  moreover have "{a..<b} \<inter> bytes R = {}"
  proof -
    have "k \<notin> bytes R" if "a \<le> k" "k < b" for k
      using it lo sp(1) that by (auto simp: bytes_iff)
    then show ?thesis by auto
  qed
  moreover have "b = limit \<or> b \<in> bytes R"
  proof (cases it)
    case (Cons y ys)
    then have "y \<in> set R" "fst y < snd y" using sp(1,3) by auto
    then have "fst y \<in> bytes R" by (auto simp: bytes_iff)
    then show ?thesis using eq(3) Cons by (auto simp: min_def)
  qed (use eq(3) in simp)
  ultimately show ?thesis using rs_firstGap_progress [OF assms(2)] ab by simp
qed

lemma rs_firstGap_None:
  assumes "rs_ok R" and "rs_firstGap from limit R = None"
  shows "{from..<limit} \<subseteq> bytes R"
proof
  fix k assume k: "k \<in> {from..<limit}"
  obtain lo it where ub: "upper_bound from R = (lo, it)" by (cases "upper_bound from R")
  note sp = upper_bound_split [OF ub assms(1)]
  have ne: "lo \<noteq> []" "limit \<le> snd (last lo)"
    using assms(2) ub k by (auto simp: rs_firstGap_def Let_def split: if_splits)
  then have "last lo \<in> set R" "fst (last lo) \<le> from" using sp(1,4) by auto
  with k ne(2) show "k \<in> bytes R" by (force simp: bytes_iff)
qed

section \<open>The interface its clients rely on\<close>

text \<open>
  What the segment planner, the ED2K parts and the checkpoints rely on: every operation is
  a set operation on the bytes, and counts are cardinalities.
\<close>

locale byte_ranges =
  fixes none :: 'r
    and add :: "int \<Rightarrow> int \<Rightarrow> 'r \<Rightarrow> 'r"
    and remove :: "int \<Rightarrow> int \<Rightarrow> 'r \<Rightarrow> 'r"
    and contains :: "int \<Rightarrow> int \<Rightarrow> 'r \<Rightarrow> bool"
    and total :: "'r \<Rightarrow> int"
    and covered :: "int \<Rightarrow> int \<Rightarrow> 'r \<Rightarrow> int"
    and firstGap :: "int \<Rightarrow> int \<Rightarrow> 'r \<Rightarrow> range option"
    and bytes_of :: "'r \<Rightarrow> int set"
    and invar :: "'r \<Rightarrow> bool"
  assumes invar_none: "invar none"
    and bytes_none: "bytes_of none = {}"
    and finite_bytes_of: "finite (bytes_of R)"
    and invar_add: "invar R \<Longrightarrow> invar (add b e R)"
    and bytes_add: "invar R \<Longrightarrow> bytes_of (add b e R) = bytes_of R \<union> {b..<e}"
    and invar_remove: "invar R \<Longrightarrow> invar (remove b e R)"
    and bytes_remove: "invar R \<Longrightarrow> bytes_of (remove b e R) = bytes_of R - {b..<e}"
    and contains_iff: "invar R \<Longrightarrow> contains b e R \<longleftrightarrow> {b..<e} \<subseteq> bytes_of R"
    and total_card: "invar R \<Longrightarrow> total R = int (card (bytes_of R))"
    and covered_card: "invar R \<Longrightarrow> covered b e R = int (card (bytes_of R \<inter> {b..<e}))"
    and gap_Some: "invar R \<Longrightarrow> firstGap f l R = Some (a, b) \<Longrightarrow>
      f \<le> a \<and> a < b \<and> b \<le> l \<and> {f..<a} \<subseteq> bytes_of R \<and>
      {a..<b} \<inter> bytes_of R = {} \<and> (b = l \<or> b \<in> bytes_of R)"
    and gap_None: "invar R \<Longrightarrow> firstGap f l R = None \<Longrightarrow> {f..<l} \<subseteq> bytes_of R"
begin

lemmas specs = invar_add bytes_add invar_remove bytes_remove contains_iff

text \<open>Adding a list of ranges, as \<open>restore\<close> and the ownership scans do.\<close>

lemma add_all:
  "invar R \<Longrightarrow> invar (fold (\<lambda>(b, e). add b e) xs R) \<and>
     bytes_of (fold (\<lambda>(b, e). add b e) xs R) = bytes_of R \<union> (\<Union>(b, e) \<in> set xs. {b..<e})"
proof (induction xs arbitrary: R)
  case Nil
  then show ?case by simp
next
  case (Cons x xs)
  obtain b e where x: "x = (b, e)" by (cases x)
  have "invar (add b e R)" using Cons.prems by (rule invar_add)
  from Cons.IH [OF this] show ?case
    using Cons.prems by (auto simp: x bytes_add)
qed

text \<open>The total grows by exactly the bytes that were missing.\<close>

lemma total_add:
  assumes "invar R" and "b \<le> e"
  shows "total (add b e R) = total R + (e - b) - covered b e R"
proof -
  have fin: "finite (bytes_of R)" by (rule finite_bytes_of)
  have "card (bytes_of R \<union> {b..<e}) + card (bytes_of R \<inter> {b..<e}) =
      card (bytes_of R) + card {b..<e}"
    using card_Un_Int [OF fin, of "{b..<e}"] by simp
  then show ?thesis
    using assms by (simp add: total_card covered_card invar_add bytes_add)
qed

lemma total_mono:
  assumes "invar R" and "invar S" and "bytes_of R \<subseteq> bytes_of S"
  shows "total R \<le> total S"
  using assms card_mono [OF finite_bytes_of assms(3)] by (simp add: total_card)

text \<open>A set that covers a file exactly counts its length.\<close>

lemma total_full:
  assumes "invar R" and "bytes_of R \<subseteq> {0..<n}" and "0 \<le> n"
  shows "total R = n \<longleftrightarrow> contains 0 n R"
proof -
  have "card (bytes_of R) \<le> card {0..<n}" using assms(2) by (intro card_mono) auto
  then have "int (card (bytes_of R)) = n \<longleftrightarrow> card (bytes_of R) = card {0..<n}"
    using assms(3) by auto
  also have "\<dots> \<longleftrightarrow> bytes_of R = {0..<n}"
    using card_subset_eq [OF _ assms(2)] by auto
  finally show ?thesis using assms(1,2) by (auto simp: total_card contains_iff)
qed

lemma gap_None_iff:
  assumes "invar R"
  shows "firstGap f l R = None \<longleftrightarrow> {f..<l} \<subseteq> bytes_of R"
proof (cases "firstGap f l R")
  case None
  then show ?thesis using gap_None [OF assms] by blast
next
  case (Some ab)
  obtain a b where ab: "ab = (a, b)" by (cases ab)
  have g: "f \<le> a \<and> a < b \<and> b \<le> l" "{a..<b} \<inter> bytes_of R = {}"
    using gap_Some [OF assms] Some ab by blast+
  then have "a \<in> {f..<l}" "a \<notin> bytes_of R" by auto
  then have "\<not> {f..<l} \<subseteq> bytes_of R" by blast
  then show ?thesis using Some by simp
qed

end

interpretation rs: byte_ranges "[]" rs_add rs_remove rs_contains rs_total rs_covered rs_firstGap bytes rs_ok
  using rs_add_correct rs_remove_correct rs_contains_correct rs_total_correct rs_covered_correct
    rs_firstGap_Some rs_firstGap_None
  by unfold_locales auto

section \<open>The representation is canonical\<close>

lemma rs_ok_Cons_bytes:
  assumes "rs_ok ((b, e) # R)"
  shows "b < e" and "k \<in> bytes R \<Longrightarrow> e < k" and "rs_ok R"
  using assms by (fastforce simp: bytes_iff)+

lemma rs_ok_first:
  assumes "rs_ok ((b, e) # R)" and "rs_ok ((c, d) # S)" and "bytes ((b, e) # R) = bytes ((c, d) # S)"
  shows "b \<le> c" and "e \<le> d"
proof -
  note R = rs_ok_Cons_bytes [OF assms(1)] and S = rs_ok_Cons_bytes [OF assms(2)]
  have mem: "k \<in> {b..<e} \<union> bytes R \<longleftrightarrow> k \<in> {c..<d} \<union> bytes S" for k using assms(3) by simp
  show bc: "b \<le> c" using mem [of c] R(1) R(2) [of c] S(1) by fastforce
  have "c \<le> b" using mem [of b] S(1) S(2) [of b] R(1) by fastforce
  show "e \<le> d"
  proof (rule ccontr)
    assume "\<not> e \<le> d"
    then have "d \<in> {c..<d} \<union> bytes S" using mem [of d] \<open>c \<le> b\<close> bc S(1) by auto
    then show False using S(2) [of d] by auto
  qed
qed

lemma rs_ok_unique: "rs_ok R \<Longrightarrow> rs_ok S \<Longrightarrow> bytes R = bytes S \<Longrightarrow> R = S"
proof (induction R arbitrary: S)
  case Nil
  show ?case
  proof (cases S)
    case (Cons x S')
    then show ?thesis using Nil rs_ok_nonempty [OF Nil(2), of x] by auto
  qed simp
next
  case (Cons x R)
  obtain b e where x: "x = (b, e)" by force
  have ne: "b \<in> bytes (x # R)" using rs_ok_Cons_bytes(1) Cons.prems(1) x by simp
  then obtain y S' where S: "S = y # S'" using Cons.prems(3) by (cases S) auto
  obtain c d where y: "y = (c, d)" by force
  have ok: "rs_ok ((b, e) # R)" "rs_ok ((c, d) # S')" and eq: "bytes ((b, e) # R) = bytes ((c, d) # S')"
    using Cons.prems by (simp_all add: x S y)
  have same: "b = c" "e = d" using rs_ok_first [OF ok eq] rs_ok_first [OF ok(2,1) eq [symmetric]] by auto
  have tail: "{b..<e} \<inter> bytes R = {}" "{c..<d} \<inter> bytes S' = {}"
    using rs_ok_Cons_bytes(2) [OF ok(1)] rs_ok_Cons_bytes(2) [OF ok(2)] by fastforce+
  have "bytes R = bytes S'" using eq tail same by (simp add: set_eq_iff) blast
  then have "R = S'" using Cons.IH rs_ok_Cons_bytes(3) [OF ok(1)] rs_ok_Cons_bytes(3) [OF ok(2)] by blast
  then show ?case by (simp add: x S y same)
qed

section \<open>Properties\<close>

text \<open>
  C3. Every operation of \<open>RangeSet\<close> is the corresponding operation on sets of bytes: adding and
  removing keep the ranges disjoint and coalesced and add and remove exactly the bytes
  of the interval, containment is inclusion, and the two counts are cardinalities.
\<close>

theorem range_set_refines_byte_set:
  assumes "rs_ok R"
  shows "rs_ok (rs_add b e R) \<and> bytes (rs_add b e R) = bytes R \<union> {b..<e} \<and>
    rs_ok (rs_remove b e R) \<and> bytes (rs_remove b e R) = bytes R - {b..<e} \<and>
    (rs_contains b e R \<longleftrightarrow> {b..<e} \<subseteq> bytes R) \<and>
    rs_total R = int (card (bytes R)) \<and> rs_covered b e R = int (card (bytes R \<inter> {b..<e}))"
  using assms by (simp add: rs.specs rs.total_card rs.covered_card)

theorem range_set_refines_byte_set_witness:
  "rs_add 10 20 [(0, 10), (30, 40)] = [(0, 20), (30, 40)] \<and>
   bytes (rs_add 10 20 [(0, 10), (30, 40)]) = {0..<10} \<union> {30..<40} \<union> {10..<20}"
proof -
  have "rs_ok [(0, 10), (30, 40)]" by simp
  from range_set_refines_byte_set [OF this, of 10 20] show ?thesis by (simp add: rs_add_def) code_simp
qed

text \<open>
  The set does not remember how it was built: ranges that arrive in any order (with
  repetitions and overlaps) leave the very same map, so a resumed record is equal to the
  one the interrupted run would have written.
\<close>

theorem range_set_order_irrelevant:
  assumes "rs_ok R" and "set xs = set ys"
  shows "fold (\<lambda>(b, e). rs_add b e) xs R = fold (\<lambda>(b, e). rs_add b e) ys R"
proof (rule rs_ok_unique)
  show "bytes (fold (\<lambda>(b, e). rs_add b e) xs R) = bytes (fold (\<lambda>(b, e). rs_add b e) ys R)"
    using rs.add_all [OF assms(1), of xs] rs.add_all [OF assms(1), of ys] assms(2) by simp
qed (use rs.add_all [OF assms(1)] in blast)+

text \<open>
  C14. \<open>firstGap\<close> returns the leftmost missing interval of the window, as long as the window
  allows, and returns nothing only when the window is complete.
\<close>

theorem firstGap_leftmost:
  assumes "rs_ok R"
  shows "case rs_firstGap start limit R of
      None \<Rightarrow> {start..<limit} \<subseteq> bytes R
    | Some (a, b) \<Rightarrow> start \<le> a \<and> a < b \<and> b \<le> limit \<and> {start..<a} \<subseteq> bytes R \<and>
        {a..<b} \<inter> bytes R = {} \<and> (b = limit \<or> b \<in> bytes R)"
  using rs.gap_None [OF assms] rs.gap_Some [OF assms] by (simp split: option.splits)

theorem firstGap_leftmost_witness:
  "rs_firstGap 5 100 [(0, 10), (30, 40)] = Some (10, 30) \<and> {10..<30} \<inter> bytes [(0, 10), (30, 40)] = {}"
proof -
  have "rs_ok [(0, 10), (30, 40)]" by simp
  moreover have g: "rs_firstGap 5 100 [(0, 10), (30, 40)] = Some (10, 30)" by code_simp
  ultimately show ?thesis using firstGap_leftmost [of "[(0, 10), (30, 40)]" 5 100] by simp
qed

end
