(* ===== verification/Segment_Planner.thy ===== *)
theory Segment_Planner
  imports Ranges
begin

text \<open>
  The segment planner of \<open>http/SegmentPlanner.h\<close> and \<open>http/SegmentPlanner.cc\<close>: which byte
  range each connection of an HTTP download fetches. Worker identifiers are \<open>int\<close>, the
  worker table is a \<open>std::map\<close> in identifier order, byte positions are \<open>int64_t\<close>
  values as integers, speeds and times are doubles.
\<close>

section \<open>Model\<close>

subsection \<open>State and constants\<close>

record worker =
  position :: int
  wend :: int
  requestEnd :: int
  receiving :: bool
  speed :: double
  age :: double

record planner =
  minSplit :: int
  file_length :: int
  received :: range_set
  workers :: "(int \<times> worker) list"
  peakSpeed :: double
  startup :: double

definition unbounded :: int where
  "unbounded = 2 ^ 63 - 1"

definition alignment :: int where
  "alignment = 4096"

definition raceSeconds :: double where
  "raceSeconds = 2"

definition measureSeconds :: double where
  "measureSeconds = 1"

definition minRaceSeconds :: double where
  "minRaceSeconds = 1/2"

definition minSplitFloor :: int where
  "minSplitFloor = 65536"

definition maxCopies :: int where
  "maxCopies = 3"

definition new_planner :: "int \<Rightarrow> planner" where
  "new_planner n =
     \<lparr>minSplit = n, file_length = - 1, received = [], workers = [], peakSpeed = 0, startup = 0\<rparr>"

text \<open>\<open>Worker{begin, end, requestEnd, false, 0}\<close>.\<close>

definition new_worker :: "int \<Rightarrow> int \<Rightarrow> int \<Rightarrow> worker" where
  "new_worker b e r =
     \<lparr>position = b, wend = e, requestEnd = r, receiving = False, speed = 0, age = 0\<rparr>"

subsection \<open>Simple operations\<close>

definition expectedSpeed :: "worker \<Rightarrow> double \<Rightarrow> double" where
  "expectedSpeed w typical =
     (let measured = (receiving w \<and> age w \<ge> measureSeconds)
      in if measured \<and> speed w > 0 then speed w else typical)"

definition setLength :: "int \<Rightarrow> planner \<Rightarrow> planner" where
  "setLength n p =
     p\<lparr>file_length := n,
       workers := map (\<lambda>(wid, w). (wid, w\<lparr>wend := min (wend w) n, requestEnd := min (requestEnd w) n\<rparr>))
         (workers p)\<rparr>"

definition restore :: "range list \<Rightarrow> planner \<Rightarrow> planner" where
  "restore rs p = p\<lparr>received := fold (\<lambda>(b, e). rs_add b e) rs (received p)\<rparr>"

definition reset :: "planner \<Rightarrow> planner" where
  "reset p = p\<lparr>received := [], workers := [], file_length := - 1, peakSpeed := 0\<rparr>"

definition place :: "int \<Rightarrow> int \<Rightarrow> int \<Rightarrow> planner \<Rightarrow> planner" where
  "place wid b r p =
     (let e = (if file_length p \<ge> 0 then min r (file_length p) else r)
      in p\<lparr>workers := map_put wid (new_worker b e r) (workers p)\<rparr>)"

definition worker_of :: "int \<Rightarrow> planner \<Rightarrow> worker option" where
  "worker_of wid p = map_of (workers p) wid"

definition planner_complete :: "planner \<Rightarrow> bool" where
  "planner_complete p = (file_length p \<ge> 0 \<and> rs_contains 0 (file_length p) (received p))"

definition release :: "int \<Rightarrow> planner \<Rightarrow> planner" where
  "release wid p = p\<lparr>workers := map_erase wid (workers p)\<rparr>"

definition forget :: "int \<Rightarrow> int \<Rightarrow> planner \<Rightarrow> planner" where
  "forget b e p = p\<lparr>received := rs_remove b e (received p)\<rparr>"

definition noteSpeed :: "double \<Rightarrow> planner \<Rightarrow> planner" where
  "noteSpeed v p = p\<lparr>peakSpeed := max (peakSpeed p) v\<rparr>"

definition noteStartup :: "double \<Rightarrow> planner \<Rightarrow> planner" where
  "noteStartup s p =
     p\<lparr>startup := (if startup p > 0
                    then dadd (dmul (startup p) (fl64 (7/10))) (dmul s (fl64 (3/10))) else s)\<rparr>"

definition updateSpeed :: "int \<Rightarrow> double \<Rightarrow> double \<Rightarrow> planner \<Rightarrow> planner" where
  "updateSpeed wid rate seconds p =
     (case map_of (workers p) wid of
        None \<Rightarrow> p
      | Some w \<Rightarrow>
          (let v = (if speed w > 0
                    then dadd (dmul (speed w) (fl64 (6/10))) (dmul rate (fl64 (4/10))) else rate)
           in p\<lparr>workers := map_put wid (w\<lparr>age := dadd (age w) seconds, speed := v\<rparr>) (workers p),
                peakSpeed := max (peakSpeed p) v\<rparr>))"

definition typicalSpeed :: "int \<Rightarrow> planner \<Rightarrow> double" where
  "typicalSpeed except p =
     (let rates = map (\<lambda>(wid, w). speed w)
            (filter (\<lambda>(wid, w). wid \<noteq> except \<and> receiving w \<and> speed w > 0) (workers p))
      in if rates \<noteq> [] then ddiv (fold (\<lambda>v s. dadd s v) rates 0) (to_double (int (length rates)))
         else 0)"

definition minSplitFor :: "double \<Rightarrow> planner \<Rightarrow> int" where
  "minSplitFor v p =
     (if v \<le> 0 \<or> startup p \<le> 0 then minSplit p
      else let worth = to_int64 (dmul (dmul 2 v) (startup p))
           in clamp worth (min minSplitFloor (minSplit p)) (minSplit p))"

subsection \<open>Choosing a range\<close>

text \<open>The received bytes together with what the workers still own, inside the file.\<close>

definition owned_in :: "planner \<Rightarrow> range_set" where
  "owned_in p =
     fold (\<lambda>(b, e). rs_add b e)
       (map (\<lambda>(wid, w). (position w, min (wend w) (file_length p))) (workers p)) (received p)"

text \<open>The loop over the gaps; each gap ends after the point the scan came from.\<close>

function scan_gaps :: "range_set \<Rightarrow> int \<Rightarrow> int \<Rightarrow> range option \<Rightarrow> range option" where
  "scan_gaps own limit start best =
     (case rs_firstGap start limit own of
        None \<Rightarrow> best
      | Some g \<Rightarrow>
          scan_gaps own limit (snd g)
            (case best of
               None \<Rightarrow> Some g
             | Some x \<Rightarrow> if snd g - fst g > snd x - fst x then Some g else Some x))"
  by pat_completeness auto
termination
proof (relation "measure (\<lambda>(own, limit, start, best). nat (limit - start))", goal_cases)
  case (2 own limit start best g)
  then have "rs_firstGap start limit own = Some (fst g, snd g)" by simp
  from rs_firstGap_progress [OF this] show ?case by simp
qed simp

declare scan_gaps.simps [simp del]

definition largestGap :: "planner \<Rightarrow> range option" where
  "largestGap p =
     (if file_length p < 0 then None else scan_gaps (owned_in p) (file_length p) 0 None)"

text \<open>The worker with the longest expected remaining time among those worth splitting.\<close>

definition split_victim :: "planner \<Rightarrow> (int \<times> worker \<times> double) option" where
  "split_victim p =
     (let typical = typicalSpeed (- 1) p
      in fold (\<lambda>(other, w) best.
           let remaining = wend w - position w;
               v = expectedSpeed w typical
           in if wend w = unbounded \<or> remaining < 2 * minSplitFor v p then best
              else let time = (if v > 0 then ddiv (to_double remaining) v
                               else dmul (to_double remaining) (fl64 (1/1000)))
                   in case best of
                        None \<Rightarrow> Some (other, w, time)
                      | Some (_, _, longest) \<Rightarrow>
                          if time > longest then Some (other, w, time) else best)
         (workers p) None)"

text \<open>Where the victim's range is cut.\<close>

definition split_cut :: "worker \<Rightarrow> planner \<Rightarrow> int" where
  "split_cut w p =
     (let typical = typicalSpeed (- 1) p;
          remaining = wend w - position w;
          own = expectedSpeed w typical;
          fresh = (if typical > 0 then typical else own);
          share = (if own > 0 \<and> fresh > 0 then ddiv own (dadd own fresh) else 1/2);
          least = minSplitFor own p;
          cut = position w + to_int64 (dmul (to_double remaining) share);
          cut = clamp cut (position w + least) (wend w - least)
      in if cut - cut smod alignment > position w + least then cut - cut smod alignment else cut)"

definition split :: "int \<Rightarrow> planner \<Rightarrow> (range \<times> planner) option" where
  "split wid p =
     (case split_victim p of
        None \<Rightarrow> None
      | Some (victim, w, _) \<Rightarrow>
          (let cut = split_cut w p;
               r = (cut, wend w)
           in Some (r, p\<lparr>workers := map_put wid (new_worker (fst r) (snd r) (snd r))
                                        (map_put victim (w\<lparr>wend := cut\<rparr>) (workers p))\<rparr>)))"

subsection \<open>The endgame\<close>

record group =
  leader :: int
  gtime :: double
  copies :: int
  silent :: int
  young :: bool

definition new_group :: group where
  "new_group = \<lparr>leader = - 1, gtime = 0, copies = 0, silent = 0, young = False\<rparr>"

definition silentAfter :: "planner \<Rightarrow> double" where
  "silentAfter p =
     (if startup p > 0 then clamp (dmul 3 (startup p)) minRaceSeconds raceSeconds
      else raceSeconds)"

definition group_worker :: "double \<Rightarrow> int \<times> worker \<Rightarrow> (int \<times> group) list \<Rightarrow> (int \<times> group) list" where
  "group_worker quiet x groups =
     (let other = fst x; w = snd x; remaining = wend w - position w
      in if remaining \<le> 0 \<or> wend w = unbounded then groups
         else let g = (case map_of groups (wend w) of None \<Rightarrow> new_group | Some g \<Rightarrow> g);
                  g = (if \<not> receiving w \<and> age w \<ge> quiet
                       then g\<lparr>silent := silent g + 1\<rparr> else g\<lparr>copies := copies g + 1\<rparr>);
                  g = g\<lparr>young := (young g \<or> age w < (if receiving w then raceSeconds else quiet))\<rparr>;
                  v = (if receiving w then speed w else 0);
                  time = (if v > 0 then ddiv (to_double remaining) v else 1000000000);
                  g = (if leader g < 0 \<or> time < gtime g then g\<lparr>leader := other, gtime := time\<rparr> else g)
              in map_put (wend w) g groups)"

definition race_groups :: "planner \<Rightarrow> (int \<times> group) list" where
  "race_groups p = fold (group_worker (silentAfter p)) (workers p) []"

text \<open>\<open>workers_.at(group.leader)\<close>; a group's leader is a worker of the planner.\<close>

definition race_pick :: "planner \<Rightarrow> (worker \<times> double) option" where
  "race_pick p =
     fold (\<lambda>(e, g) best.
       let longest = (case best of None \<Rightarrow> 0 | Some (_, t) \<Rightarrow> t)
       in if young g \<or> copies g \<ge> maxCopies \<or> silent g \<ge> 2 * maxCopies \<or> gtime g \<le> longest then best
          else case map_of (workers p) (leader g) of
                 None \<Rightarrow> best
               | Some w \<Rightarrow>
                   (let v = (if receiving w then speed w else 0);
                        reference = max (typicalSpeed (leader g) p) (peakSpeed p);
                        remaining = to_double (wend w - position w);
                        again = dadd (if startup p > 0 then startup p else raceSeconds)
                                  (if reference > 0 then ddiv remaining reference else 0)
                    in if gtime g \<le> max minRaceSeconds (dmul (3/2) again) then best
                       else if reference \<le> 0 \<or> v < ddiv reference 2 then Some (w, gtime g)
                       else best))
       (race_groups p) None"

definition race :: "int \<Rightarrow> planner \<Rightarrow> (range \<times> planner) option" where
  "race wid p =
     (case race_pick p of
        None \<Rightarrow> None
      | Some (w, _) \<Rightarrow>
          (let r = (position w, wend w)
           in Some (r, p\<lparr>workers := map_put wid (new_worker (fst r) (snd r) (snd r)) (workers p)\<rparr>)))"

subsection \<open>Assignment, reception, extension\<close>

definition assign :: "int \<Rightarrow> planner \<Rightarrow> range option \<times> planner" where
  "assign wid p =
     (if file_length p < 0 then (None, p)
      else case largestGap p of
             Some g \<Rightarrow> (Some g, p\<lparr>workers := map_put wid (new_worker (fst g) (snd g) (snd g)) (workers p)\<rparr>)
           | None \<Rightarrow>
               (case split wid p of
                  Some (r, p') \<Rightarrow> (Some r, p')
                | None \<Rightarrow>
                    (case race wid p of
                       Some (r, p') \<Rightarrow> (Some r, p')
                     | None \<Rightarrow> (None, p))))"

text \<open>\<open>workers_.at(wid)\<close> throws for an unknown worker: \<open>None\<close>.\<close>

definition receive :: "int \<Rightarrow> int \<Rightarrow> planner \<Rightarrow> (int \<times> planner) option" where
  "receive wid n p =
     (case map_of (workers p) wid of
        None \<Rightarrow> None
      | Some w \<Rightarrow>
          (let usable = clamp (wend w - position w) 0 n
           in Some (usable,
                p\<lparr>received := rs_add (position w) (position w + usable) (received p),
                  workers := map_put wid (w\<lparr>position := position w + usable, receiving := True\<rparr>)
                    (workers p)\<rparr>)))"

definition owned_by_others :: "int \<Rightarrow> planner \<Rightarrow> range_set" where
  "owned_by_others wid p =
     fold (\<lambda>(b, e). rs_add b e)
       (map (\<lambda>(other, w). (position w, wend w)) (filter (\<lambda>(other, w). other \<noteq> wid) (workers p)))
       (received p)"

text \<open>The result is whether the worker continues, the cancelled worker, and the new state.\<close>

definition extend :: "int \<Rightarrow> planner \<Rightarrow> (bool \<times> int option \<times> planner) option" where
  "extend wid p =
     (case map_of (workers p) wid of
        None \<Rightarrow> None
      | Some w \<Rightarrow>
          if requestEnd w \<le> wend w \<or> file_length p \<ge> 0 \<and> wend w \<ge> file_length p then Some (False, None, p)
          else case find (\<lambda>(other, nx). other \<noteq> wid \<and> position nx = wend w \<and> \<not> receiving nx) (workers p) of
                 Some (other, nx) \<Rightarrow>
                   Some (True, Some other,
                     p\<lparr>workers := map_erase other
                         (map_put wid (w\<lparr>wend := min (requestEnd w) (wend nx)\<rparr>) (workers p))\<rparr>)
               | None \<Rightarrow>
                   (let limit = (if file_length p \<ge> 0 then min (requestEnd w) (file_length p) else requestEnd w)
                    in case rs_firstGap (wend w) limit (owned_by_others wid p) of
                         Some (a, b) \<Rightarrow>
                           if a = wend w
                           then Some (True, None, p\<lparr>workers := map_put wid (w\<lparr>wend := b\<rparr>) (workers p)\<rparr>)
                           else Some (False, None, p)
                       | None \<Rightarrow> Some (False, None, p)))"

definition redundant :: "planner \<Rightarrow> int list" where
  "redundant p =
     map fst (filter (\<lambda>(wid, w). position w < wend w \<and> rs_contains (position w) (wend w) (received p))
       (workers p))"

section \<open>Ownership and the planner's invariant\<close>

text \<open>The bytes the workers are still to fetch.\<close>

definition owned :: "planner \<Rightarrow> int set" where
  "owned p = (\<Union>(i, w) \<in> set (workers p). {position w..<wend w})"

definition worker_ok :: "planner \<Rightarrow> worker \<Rightarrow> bool" where
  "worker_ok p w = (0 \<le> position w \<and> (file_length p \<ge> 0 \<longrightarrow> wend w \<le> file_length p))"

definition planner_ok :: "planner \<Rightarrow> bool" where
  "planner_ok p =
     (rs_ok (received p) \<and> keys_ascend (workers p) \<and> 0 < minSplit p \<and>
      (\<forall>x \<in> set (workers p). worker_ok p (snd x)) \<and>
      bytes (received p) \<subseteq> {0..} \<and>
      (file_length p \<ge> 0 \<longrightarrow> bytes (received p) \<subseteq> {0..<file_length p}))"

named_theorems planner_defs

declare setLength_def [planner_defs] restore_def [planner_defs] reset_def [planner_defs]
  place_def [planner_defs] release_def [planner_defs] forget_def [planner_defs]
  noteSpeed_def [planner_defs] noteStartup_def [planner_defs] updateSpeed_def [planner_defs]

lemma owned_iff: "k \<in> owned p \<longleftrightarrow> (\<exists>i w. (i, w) \<in> set (workers p) \<and> position w \<le> k \<and> k < wend w)"
  by (force simp: owned_def)

lemma owned_I: "map_of (workers p) i = Some w \<Longrightarrow> {position w..<wend w} \<subseteq> owned p"
  by (force simp: owned_iff dest: map_of_SomeD)

lemma planner_okD:
  assumes "planner_ok p"
  shows "rs_ok (received p)" and "keys_ascend (workers p)" and "0 < minSplit p"
    and "bytes (received p) \<subseteq> {0..}"
    and "map_of (workers p) i = Some w \<Longrightarrow> worker_ok p w"
  using assms by (auto simp: planner_ok_def dest!: map_of_SomeD)

text \<open>Replacing one worker by one that owns no more and starts no earlier than byte 0.\<close>

lemma planner_ok_put:
  assumes "planner_ok p" and "worker_ok p w"
  shows "planner_ok (p\<lparr>workers := map_put i w (workers p)\<rparr>)"
  using assms set_map_put [of i w "workers p"]
  by (fastforce simp: planner_ok_def worker_ok_def intro: keys_ascend_map_put)

lemma owned_put:
  assumes "planner_ok p"
  shows "owned (p\<lparr>workers := map_put i w (workers p)\<rparr>) =
    {position w..<wend w} \<union> (\<Union>(j, v) \<in> {x \<in> set (workers p). fst x \<noteq> i}. {position v..<wend v})"
  using planner_okD(2) [OF assms] by (auto simp: owned_def set_map_put_eq)

lemma owned_put_fresh:
  assumes "planner_ok p" and "map_of (workers p) i = None"
  shows "owned (p\<lparr>workers := map_put i w (workers p)\<rparr>) = owned p \<union> {position w..<wend w}"
proof -
  have "{x \<in> set (workers p). fst x \<noteq> i} = set (workers p)"
    using assms(2) by (force simp: map_of_eq_None_iff)
  then show ?thesis using owned_put [OF assms(1)] by (auto simp: owned_def)
qed

lemma owned_member:
  assumes "planner_ok p" and "map_of (workers p) i = Some w"
  shows "owned p = {position w..<wend w} \<union>
    (\<Union>(k, v) \<in> {x \<in> set (workers p). fst x \<noteq> i}. {position v..<wend v})"
proof -
  have "set (workers p) = insert (i, w) {x \<in> set (workers p). fst x \<noteq> i}"
    using assms(2) by (auto simp flip: map_of_in_set [OF planner_okD(2) [OF assms(1)]])
  then show ?thesis unfolding owned_def by (metis (no_types, lifting) UN_insert case_prod_conv)
qed

section \<open>The largest unowned interval\<close>

text \<open>An interval nobody has and nobody fetches.\<close>

definition free_interval :: "int set \<Rightarrow> int \<Rightarrow> int \<Rightarrow> int \<Rightarrow> int \<Rightarrow> bool" where
  "free_interval S lo hi a b = (lo \<le> a \<and> a < b \<and> b \<le> hi \<and> {a..<b} \<inter> S = {})"

lemma free_interval_first:
  assumes "rs_ok R" and "rs_firstGap s n R = Some (a, b)" and "free_interval (bytes R) s n c d"
  shows "d - c \<le> b - a \<or> free_interval (bytes R) b n c d"
proof -
  note g = rs_firstGap_Some [OF assms(1,2)]
  have f: "s \<le> c" "c < d" "d \<le> n" "{c..<d} \<inter> bytes R = {}"
    using assms(3) by (auto simp: free_interval_def)
  have c: "a \<le> c"
  proof (rule ccontr)
    assume "\<not> a \<le> c"
    then have "c \<in> bytes R" using g f(1) by auto
    then show False using f(2,4) by auto
  qed
  show ?thesis
  proof (cases "b \<le> c")
    case True
    then show ?thesis using f by (simp add: free_interval_def)
  next
    case False
    have "d \<le> b"
    proof (rule ccontr)
      assume "\<not> d \<le> b"
      then have "b \<in> {c..<d}" and "b \<noteq> n" using False f(3) by auto
      then show False using g f(4) by blast
    qed
    then show ?thesis using c by simp
  qed
qed

lemma scan_gaps_correct:
  assumes "rs_ok R"
  shows "case scan_gaps R n s best of
      None \<Rightarrow> best = None \<and> {s..<n} \<subseteq> bytes R
    | Some g \<Rightarrow> (best = Some g \<or> free_interval (bytes R) s n (fst g) (snd g)) \<and>
        (\<forall>x. best = Some x \<longrightarrow> snd x - fst x \<le> snd g - fst g) \<and>
        (\<forall>c d. free_interval (bytes R) s n c d \<longrightarrow> d - c \<le> snd g - fst g)"
  using assms
proof (induction R n s best rule: scan_gaps.induct)
  case (1 R n s best)
  show ?case
  proof (cases "rs_firstGap s n R")
    case None
    note none = rs_firstGap_None [OF 1(2) None]
    have no: "\<not> free_interval (bytes R) s n c d" for c d
    proof
      assume "free_interval (bytes R) s n c d"
      then have "c \<in> {s..<n}" "c \<in> {c..<d}" "{c..<d} \<inter> bytes R = {}" by (auto simp: free_interval_def)
      with none show False by blast
    qed
    show ?thesis using None none no by (cases best) (simp_all add: scan_gaps.simps [of R n s])
  next
    case (Some g)
    then have fg: "rs_firstGap s n R = Some (fst g, snd g)" by simp
    note gap = rs_firstGap_Some [OF 1(2) fg]
    let ?best = "case best of None \<Rightarrow> Some g
        | Some x \<Rightarrow> if snd g - fst g > snd x - fst x then Some g else Some x"
    have step: "scan_gaps R n s best = scan_gaps R n (snd g) ?best"
      using Some by (simp add: scan_gaps.simps [of R n s best])
    have ne: "?best \<noteq> None" by (auto split: option.splits)
    obtain y where y: "?best = Some y" using ne by blast
    have ysz: "snd g - fst g \<le> snd y - fst y" "\<forall>x. best = Some x \<longrightarrow> snd x - fst x \<le> snd y - fst y"
      and yor: "best = Some y \<or> y = g"
      using y by (auto split: option.splits if_splits)
    have self: "free_interval (bytes R) s n (fst g) (snd g)" using gap by (simp add: free_interval_def)
    have up: "free_interval (bytes R) (snd g) n c d \<Longrightarrow> free_interval (bytes R) s n c d" for c d
      using gap by (auto simp: free_interval_def)
    from 1(1) [OF Some 1(2)] y obtain r where r: "scan_gaps R n (snd g) ?best = Some r"
      by (cases "scan_gaps R n (snd g) ?best") auto
    with 1(1) [OF Some 1(2)] y
    have ih: "y = r \<or> free_interval (bytes R) (snd g) n (fst r) (snd r)"
      "snd y - fst y \<le> snd r - fst r"
      "\<forall>c d. free_interval (bytes R) (snd g) n c d \<longrightarrow> d - c \<le> snd r - fst r" by auto
    have all: "\<forall>c d. free_interval (bytes R) s n c d \<longrightarrow> d - c \<le> snd r - fst r"
      using free_interval_first [OF 1(2) fg] ih(2,3) ysz(1) by fastforce
    have "best = Some r \<or> free_interval (bytes R) s n (fst r) (snd r)"
      using ih(1) yor self up by auto
    moreover have "\<forall>x. best = Some x \<longrightarrow> snd x - fst x \<le> snd r - fst r"
      using ysz(2) ih(2) by fastforce
    ultimately show ?thesis using step r all by simp
  qed
qed

lemma owned_in_correct:
  assumes "planner_ok p" and "file_length p \<ge> 0"
  shows "rs_ok (owned_in p) \<and> bytes (owned_in p) = bytes (received p) \<union> owned p"
proof -
  have "min (wend w) (file_length p) = wend w" if "(i, w) \<in> set (workers p)" for i w
    using assms that by (force simp: planner_ok_def worker_ok_def)
  then have "(\<Union>(b, e) \<in> set (map (\<lambda>(i, w). (position w, min (wend w) (file_length p))) (workers p)). {b..<e})
      = owned p"
    by (force simp: owned_def)
  with rs.add_all [OF planner_okD(1) [OF assms(1)]] show ?thesis unfolding owned_in_def by metis
qed

lemma largestGap_correct:
  assumes "planner_ok p" and "file_length p \<ge> 0"
  shows "case largestGap p of
      None \<Rightarrow> {0..<file_length p} \<subseteq> bytes (received p) \<union> owned p
    | Some (a, b) \<Rightarrow> free_interval (bytes (received p) \<union> owned p) 0 (file_length p) a b \<and>
        (\<forall>c d. free_interval (bytes (received p) \<union> owned p) 0 (file_length p) c d \<longrightarrow> d - c \<le> b - a)"
proof -
  note own = owned_in_correct [OF assms]
  have eq: "largestGap p = scan_gaps (owned_in p) (file_length p) 0 None"
    using assms(2) by (simp add: largestGap_def)
  show ?thesis
    using scan_gaps_correct [OF conjunct1 [OF own], where n = "file_length p" and s = 0 and best = None] own
    by (cases "largestGap p") (auto simp: eq)
qed

section \<open>Splitting a range\<close>

lemma minSplitFor_bounds:
  assumes "0 < minSplit p"
  shows "min minSplitFloor (minSplit p) \<le> minSplitFor v p" and "minSplitFor v p \<le> minSplit p"
  using clamp_bounds [of "min minSplitFloor (minSplit p)" "minSplit p"]
  by (auto simp: minSplitFor_def Let_def)

lemma minSplitFor_pos: "0 < minSplit p \<Longrightarrow> 0 < minSplitFor v p"
  using minSplitFor_bounds(1) [of p v] by (auto simp: minSplitFloor_def min_def split: if_splits)

definition splittable :: "planner \<Rightarrow> worker \<Rightarrow> bool" where
  "splittable p w =
     (wend w \<noteq> unbounded \<and>
      2 * minSplitFor (expectedSpeed w (typicalSpeed (- 1) p)) p \<le> wend w - position w)"

lemma split_victim_Some:
  assumes "split_victim p = Some (i, w, t)"
  shows "(i, w) \<in> set (workers p)" and "splittable p w"
proof -
  let ?P = "\<lambda>best. case best of None \<Rightarrow> True
      | Some (i, w, t) \<Rightarrow> (i, w) \<in> set (workers p) \<and> splittable p w"
  have "?P (split_victim p)"
    unfolding split_victim_def Let_def
    by (rule fold_invariant [where Q = "\<lambda>x. x \<in> set (workers p)"])
      (auto simp: splittable_def not_less Let_def split: option.splits if_splits)
  then show "(i, w) \<in> set (workers p)" and "splittable p w" using assms by auto
qed

lemma smod_nonneg: "0 \<le> (a::int) \<Longrightarrow> 0 < b \<Longrightarrow> 0 \<le> a smod b"
  by (simp add: signed_modulo_int_def sgn_if)

text \<open>The precondition of \<open>std::clamp\<close> holds, and both halves get the minimum.\<close>

lemma split_cut_bounds:
  assumes "splittable p w" and "0 \<le> position w" and "0 < minSplit p"
  defines "least \<equiv> minSplitFor (expectedSpeed w (typicalSpeed (- 1) p)) p"
  shows "position w + least \<le> split_cut w p" and "split_cut w p \<le> wend w - least" and "0 < least"
proof -
  show pos: "0 < least" unfolding least_def by (rule minSplitFor_pos [OF assms(3)])
  have room: "position w + least \<le> wend w - least"
    using assms(1) by (simp add: splittable_def least_def)
  define own where "own = expectedSpeed w (typicalSpeed (- 1) p)"
  define c where "c = clamp (position w +
      to_int64 (dmul (to_double (wend w - position w))
        (if own > 0 \<and> (if typicalSpeed (- 1) p > 0 then typicalSpeed (- 1) p else own) > 0
         then ddiv own (dadd own (if typicalSpeed (- 1) p > 0 then typicalSpeed (- 1) p else own))
         else 1/2)))
      (position w + least) (wend w - least)"
  have eq: "split_cut w p =
      (if c - c smod alignment > position w + least then c - c smod alignment else c)"
    unfolding split_cut_def c_def own_def least_def Let_def ..
  have c: "position w + least \<le> c" "c \<le> wend w - least"
    unfolding c_def by (rule clamp_bounds [OF room])+
  have "0 \<le> c smod alignment" using c(1) assms(2) pos by (intro smod_nonneg) (simp_all add: alignment_def)
  with c show "position w + least \<le> split_cut w p" and "split_cut w p \<le> wend w - least"
    unfolding eq by auto
qed

lemma split_correct:
  assumes "planner_ok p" and "split i p = Some ((a, b), p')" and "map_of (workers p) i = None"
  obtains j w least where "map_of (workers p) j = Some w" and "b = wend w" and "splittable p w"
    and "least = minSplitFor (expectedSpeed w (typicalSpeed (- 1) p)) p" and "0 < least"
    and "position w + least \<le> a" and "a + least \<le> b"
    and "p' = p\<lparr>workers := map_put i (new_worker a b b) (map_put j (w\<lparr>wend := a\<rparr>) (workers p))\<rparr>"
    and "planner_ok p'" and "owned p' = owned p"
proof -
  obtain j w t where v: "split_victim p = Some (j, w, t)"
    using assms(2) by (auto simp: split_def split: option.splits)
  have a: "a = split_cut w p" and b: "b = wend w"
    and p': "p' = p\<lparr>workers := map_put i (new_worker a b b) (map_put j (w\<lparr>wend := a\<rparr>) (workers p))\<rparr>"
    using assms(2) v by (auto simp: split_def Let_def)
  note vic = split_victim_Some [OF v]
  have mo: "map_of (workers p) j = Some w" using vic(1) planner_okD(2) [OF assms(1)] by (simp add: map_of_in_set)
  have wok: "worker_ok p w" by (rule planner_okD(5) [OF assms(1) mo])
  note cut = split_cut_bounds [OF vic(2) _ planner_okD(3) [OF assms(1)]]
  let ?least = "minSplitFor (expectedSpeed w (typicalSpeed (- 1) p)) p"
  have bounds: "position w + ?least \<le> a" "a \<le> wend w - ?least" "0 < ?least"
    using cut wok by (auto simp: a worker_ok_def)
  let ?q = "p\<lparr>workers := map_put j (w\<lparr>wend := a\<rparr>) (workers p)\<rparr>"
  have q: "planner_ok ?q"
    by (rule planner_ok_put [OF assms(1)]) (use wok bounds in \<open>auto simp: worker_ok_def\<close>)
  have p'q: "p' = ?q\<lparr>workers := map_put i (new_worker a b b) (workers ?q)\<rparr>" by (simp add: p')
  have wok': "worker_ok ?q (new_worker a b b)"
    using wok bounds b by (auto simp: worker_ok_def new_worker_def)
  have ok': "planner_ok p'" unfolding p'q by (rule planner_ok_put [OF q wok'])
  have "i \<noteq> j" using mo assms(3) by auto
  then have fresh: "map_of (workers ?q) i = None" using assms(3) by (simp add: map_of_map_put)
  have "owned p' = owned ?q \<union> {a..<b}"
    unfolding p'q using owned_put_fresh [OF q fresh] by (simp add: new_worker_def)
  also have "owned ?q = {position w..<a} \<union> (\<Union>(k, v) \<in> {x \<in> set (workers p). fst x \<noteq> j}. {position v..<wend v})"
    using owned_put [OF assms(1)] by simp
  also have "\<dots> \<union> {a..<b} = owned p"
  proof -
    have "{position w..<a} \<union> {a..<b} = {position w..<wend w}" using bounds b by auto
    moreover note owned_member [OF assms(1) mo]
    ultimately show ?thesis by blast
  qed
  finally have "owned p' = owned p" .
  with that [OF mo b vic(2) refl bounds(3,1) _ p' ok'] bounds(2) b show ?thesis by simp
qed

section \<open>Racing a slow range\<close>

text \<open>The copies of the range ending at \<open>e\<close> that deliver or may still start.\<close>

definition live_copy :: "double \<Rightarrow> int \<Rightarrow> int \<times> worker \<Rightarrow> bool" where
  "live_copy quiet e x =
     (wend (snd x) = e \<and> position (snd x) < e \<and> e \<noteq> unbounded \<and>
      (receiving (snd x) \<or> age (snd x) < quiet))"

definition live_copies :: "int \<Rightarrow> planner \<Rightarrow> nat" where
  "live_copies e p = length (filter (live_copy (silentAfter p) e) (workers p))"

definition group_ok :: "double \<Rightarrow> (int \<times> worker) list \<Rightarrow> int \<Rightarrow> group \<Rightarrow> bool" where
  "group_ok quiet ws e g =
     ((\<exists>w. (leader g, w) \<in> set ws \<and> wend w = e \<and> position w < e \<and> e \<noteq> unbounded) \<and>
      copies g = int (length (filter (live_copy quiet e) ws)))"

lemma group_worker_skip:
  assumes "wend (snd x) \<le> position (snd x) \<or> wend (snd x) = unbounded"
  shows "group_worker quiet x G = G" and "\<not> live_copy quiet e x"
  using assms by (auto simp: group_worker_def Let_def live_copy_def)

lemma group_worker_put:
  assumes "position (snd x) < wend (snd x)" and "wend (snd x) \<noteq> unbounded"
    and g: "g = (case map_of G (wend (snd x)) of None \<Rightarrow> new_group | Some g \<Rightarrow> g)"
  obtains h where "group_worker quiet x G = map_put (wend (snd x)) h G"
    and "copies h = copies g + (if live_copy quiet (wend (snd x)) x then 1 else 0)"
    and "leader h = fst x \<or> 0 \<le> leader g \<and> leader h = leader g"
  using assms(1,2) that unfolding group_worker_def g [symmetric] Let_def live_copy_def
  by (auto simp: not_le split: if_splits)

lemma groups_ok:
  "keys_ascend (fold (group_worker quiet) ws []) \<and>
   (\<forall>e. case map_of (fold (group_worker quiet) ws []) e of
      None \<Rightarrow> filter (live_copy quiet e) ws = [] | Some g \<Rightarrow> group_ok quiet ws e g)"
proof (induction ws rule: rev_induct)
  case Nil
  show ?case by (simp add: keys_ascend_def)
next
  case (snoc x ws)
  let ?G = "fold (group_worker quiet) ws []" and ?E = "wend (snd x)"
  have asc: "keys_ascend ?G"
    and IH: "\<And>e. case map_of ?G e of None \<Rightarrow> filter (live_copy quiet e) ws = []
      | Some g \<Rightarrow> group_ok quiet ws e g" using snoc by blast+
  show ?case
  proof (cases "?E \<le> position (snd x) \<or> ?E = unbounded")
    case True
    note skip = group_worker_skip [OF True]
    have "case map_of ?G e of None \<Rightarrow> filter (live_copy quiet e) (ws @ [x]) = []
      | Some g \<Rightarrow> group_ok quiet (ws @ [x]) e g" for e
      using IH [of e] skip(2) by (auto simp: group_ok_def split: option.splits)
    then show ?thesis using asc skip(1) by simp
  next
    case False
    then obtain h where put: "group_worker quiet x ?G = map_put ?E h ?G"
      and cp: "copies h = copies (case map_of ?G ?E of None \<Rightarrow> new_group | Some g \<Rightarrow> g)
        + (if live_copy quiet ?E x then 1 else 0)"
      and ld: "leader h = fst x \<or> 0 \<le> leader (case map_of ?G ?E of None \<Rightarrow> new_group | Some g \<Rightarrow> g)
        \<and> leader h = leader (case map_of ?G ?E of None \<Rightarrow> new_group | Some g \<Rightarrow> g)"
      using group_worker_put [where x = x and G = ?G and quiet = quiet, OF _ _ refl] by (metis not_le)
    have h: "group_ok quiet (ws @ [x]) ?E h"
    proof (cases "map_of ?G ?E")
      case None
      then show ?thesis using IH [of ?E] cp ld False
        by (auto simp: group_ok_def new_group_def intro!: exI [of _ "snd x"])
    next
      case (Some g)
      then show ?thesis using IH [of ?E] cp ld False
        by (auto simp: group_ok_def intro: exI [of _ "snd x"])
    qed
    have other: "live_copy quiet e x \<Longrightarrow> e = ?E" for e by (auto simp: live_copy_def)
    have "case map_of (map_put ?E h ?G) e of None \<Rightarrow> filter (live_copy quiet e) (ws @ [x]) = []
      | Some g \<Rightarrow> group_ok quiet (ws @ [x]) e g" for e
    proof (cases "e = ?E")
      case True
      then show ?thesis using h by (simp add: map_of_map_put asc)
    next
      case False
      then have "\<not> live_copy quiet e x" using other by blast
      then show ?thesis using IH [of e] False
        by (auto simp: map_of_map_put asc group_ok_def split: option.splits)
    qed
    then show ?thesis using put asc by (simp add: keys_ascend_map_put)
  qed
qed

lemma race_pick_Some:
  assumes "keys_ascend (workers p)" and "race_pick p = Some (w, t)"
  shows "\<exists>i. map_of (workers p) i = Some w" and "position w < wend w"
    and "wend w \<noteq> unbounded" and "live_copies (wend w) p < nat maxCopies"
proof -
  let ?P = "\<lambda>best. case best of None \<Rightarrow> True | Some (w, t) \<Rightarrow>
      (\<exists>i. map_of (workers p) i = Some w) \<and> position w < wend w \<and> wend w \<noteq> unbounded \<and>
      live_copies (wend w) p < nat maxCopies"
  have "?P (race_pick p)"
    unfolding race_pick_def
  proof (rule fold_invariant [where Q = "\<lambda>x. x \<in> set (race_groups p)"], simp_all, goal_cases)
    case (1 x best)
    obtain e g where x: "x = (e, g)" by force
    note G = groups_ok [of "silentAfter p" "workers p", folded race_groups_def]
    have "map_of (race_groups p) e = Some g" using 1 x G by (simp add: map_of_in_set)
    then have g: "group_ok (silentAfter p) (workers p) e g" using G by (metis option.simps(5))
    then obtain v where v: "map_of (workers p) (leader g) = Some v"
      "wend v = e" "position v < e" "e \<noteq> unbounded"
      using assms(1) by (auto simp: group_ok_def map_of_in_set)
    have "copies g = int (live_copies e p)" using g by (simp add: group_ok_def live_copies_def)
    then show ?case using 1 v by (auto simp: x Let_def split: option.splits)
  qed
  then show "\<exists>i. map_of (workers p) i = Some w" and "position w < wend w"
    and "wend w \<noteq> unbounded" and "live_copies (wend w) p < nat maxCopies"
    using assms(2) by auto
qed

lemma live_copies_put_fresh:
  assumes "keys_ascend (workers p)" and "map_of (workers p) i = None"
  shows "live_copies e (p\<lparr>workers := map_put i w (workers p)\<rparr>) \<le> Suc (live_copies e p)"
proof -
  have "length (filter P (map_put i w ws)) \<le> Suc (length (filter P ws))"
    if "i \<notin> fst ` set ws" for P and ws :: "(int \<times> worker) list"
    using that by (induction ws) auto
  with assms(2) show ?thesis
    by (simp add: live_copies_def silentAfter_def map_of_eq_None_iff)
qed

lemma race_correct:
  assumes "planner_ok p" and "race i p = Some ((a, b), p')" and "map_of (workers p) i = None"
  shows "a < b" and "b \<noteq> unbounded" and "{a..<b} \<subseteq> owned p"
    and "p' = p\<lparr>workers := map_put i (new_worker a b b) (workers p)\<rparr>"
    and "planner_ok p'" and "owned p' = owned p" and "live_copies b p' \<le> nat maxCopies"
proof -
  obtain w t where pick: "race_pick p = Some (w, t)"
    using assms(2) by (auto simp: race_def split: option.splits)
  have ab: "a = position w" "b = wend w"
    and p': "p' = p\<lparr>workers := map_put i (new_worker a b b) (workers p)\<rparr>"
    using assms(2) pick by (auto simp: race_def Let_def)
  note r = race_pick_Some [OF planner_okD(2) [OF assms(1)] pick]
  obtain j where j: "map_of (workers p) j = Some w" using r(1) by blast
  show "a < b" and "b \<noteq> unbounded" using r ab by auto
  show "p' = p\<lparr>workers := map_put i (new_worker a b b) (workers p)\<rparr>" by (rule p')
  show sub: "{a..<b} \<subseteq> owned p" using owned_I [OF j] ab by simp
  show "planner_ok p'" unfolding p'
    by (rule planner_ok_put [OF assms(1)])
      (use planner_okD(5) [OF assms(1) j] ab in \<open>simp add: worker_ok_def new_worker_def\<close>)
  show "owned p' = owned p"
    unfolding p' owned_put_fresh [OF assms(1,3)] using sub by (auto simp: new_worker_def)
  show "live_copies b p' \<le> nat maxCopies"
    using live_copies_put_fresh [OF planner_okD(2) [OF assms(1)] assms(3)] r(4)
    unfolding p' ab by (meson Suc_leI le_trans)
qed

section \<open>Assignment\<close>

lemma assign_cases:
  assumes "planner_ok p" and "map_of (workers p) i = None" and "assign i p = (r, p')"
  obtains (idle) "r = None" and "p' = p"
      and "file_length p < 0 \<or> {0..<file_length p} \<subseteq> bytes (received p) \<union> owned p"
    | (gap) a b where "r = Some (a, b)" and "largestGap p = Some (a, b)" and "0 \<le> file_length p"
      and "p' = p\<lparr>workers := map_put i (new_worker a b b) (workers p)\<rparr>"
    | (cut) a b where "r = Some (a, b)" and "largestGap p = None" and "0 \<le> file_length p"
      and "split i p = Some ((a, b), p')"
    | (copy) a b where "r = Some (a, b)" and "largestGap p = None" and "0 \<le> file_length p"
      and "race i p = Some ((a, b), p')"
proof (cases "file_length p < 0")
  case True
  then have "r = None" "p' = p" using assms(3) by (simp_all add: assign_def)
  with True idle show ?thesis by blast
next
  case False
  show ?thesis
  proof (cases "largestGap p")
    case (Some g)
    then show ?thesis using assms(3) False gap [of "fst g" "snd g"] by (auto simp: assign_def)
  next
    case None
    have full: "{0..<file_length p} \<subseteq> bytes (received p) \<union> owned p"
      using largestGap_correct [OF assms(1)] False None by simp
    consider "split i p = None" "race i p = None" "r = None" "p' = p"
      | a b where "r = Some (a, b)" "split i p = Some ((a, b), p')"
      | a b where "r = Some (a, b)" "race i p = Some ((a, b), p')"
      using assms(3) False None by (force simp: assign_def split: option.splits)
    then show ?thesis
    proof cases
      case 1
      then show ?thesis using full idle by blast
    next
      case (2 a b)
      then show ?thesis using cut [of a b] False None by simp
    next
      case (3 a b)
      then show ?thesis using copy [of a b] False None by simp
    qed
  qed
qed

text \<open>Whatever the source of the range, it is registered and inside the file.\<close>

lemma assign_ok:
  assumes "planner_ok p" and "map_of (workers p) i = None" and "assign i p = (Some (a, b), p')"
  shows "0 \<le> a" and "a < b" and "b \<le> file_length p" and "planner_ok p'"
    and "map_of (workers p') i = Some (new_worker a b b)"
    and "owned p' = owned p \<union> {a..<b}" and "received p' = received p"
proof -
  have "0 \<le> a \<and> a < b \<and> b \<le> file_length p \<and> planner_ok p' \<and>
    map_of (workers p') i = Some (new_worker a b b) \<and> owned p' = owned p \<union> {a..<b} \<and>
    received p' = received p"
  using assms(1,2,3)
  proof (cases rule: assign_cases)
    case (gap a' b')
    then have g: "free_interval (bytes (received p) \<union> owned p) 0 (file_length p) a b"
      using largestGap_correct [OF assms(1)] by simp
    have "planner_ok p'" unfolding gap(4)
      by (rule planner_ok_put [OF assms(1)])
        (use g gap in \<open>simp add: worker_ok_def new_worker_def free_interval_def\<close>)
    moreover have "owned p' = owned p \<union> {a..<b}"
      using owned_put_fresh [OF assms(1,2)] gap by (simp add: new_worker_def)
    ultimately show ?thesis using g gap by (simp add: free_interval_def map_of_map_put)
  next
    case (cut a' b')
    obtain j w least where j: "map_of (workers p) j = Some w" "b = wend w" "0 < least"
      "position w + least \<le> a" "a + least \<le> b"
      and p': "p' = p\<lparr>workers := map_put i (new_worker a b b) (map_put j (w\<lparr>wend := a\<rparr>) (workers p))\<rparr>"
      and ok: "planner_ok p'" "owned p' = owned p"
    proof -
      have sp: "split i p = Some ((a, b), p')" using cut by simp
      show ?thesis by (rule split_correct [OF assms(1) sp assms(2)]) (rule that, assumption+)
    qed
    have "worker_ok p w" by (rule planner_okD(5) [OF assms(1) j(1)])
    moreover have "{a..<b} \<subseteq> owned p" using owned_I [OF j(1)] j by auto
    moreover have "map_of (workers p') i = Some (new_worker a b b)" "received p' = received p"
      unfolding p' by (simp_all add: map_of_map_put)
    ultimately show ?thesis using ok j cut(3) by (auto simp: worker_ok_def)
  next
    case (copy a' b')
    then have race: "race i p = Some ((a, b), p')" by simp
    note r = race_correct [OF assms(1) race assms(2)]
    have "map_of (workers p') i = Some (new_worker a b b)" "received p' = received p"
      unfolding r(4) by (simp_all add: map_of_map_put)
    moreover have "worker_ok p' (new_worker a b b)" using planner_okD(5) [OF r(5)] calculation by blast
    ultimately show ?thesis using r copy(3) unfolding r(4) by (auto simp: worker_ok_def new_worker_def)
  qed simp
  then show "0 \<le> a" and "a < b" and "b \<le> file_length p" and "planner_ok p'"
    and "map_of (workers p') i = Some (new_worker a b b)"
    and "owned p' = owned p \<union> {a..<b}" and "received p' = received p" by auto
qed

section \<open>Reception and extension\<close>

lemma receive_ok:
  assumes "planner_ok p" and "map_of (workers p) i = Some w" and "0 \<le> n"
    and "receive i n p = Some (u, p')"
  shows "0 \<le> u" and "u \<le> n" and "u = n \<or> wend w \<le> position w + u"
    and "bytes (received p') = bytes (received p) \<union> {position w..<position w + u}"
    and "planner_ok p'"
    and "bytes (received p') \<union> owned p' = bytes (received p) \<union> owned p"
proof -
  have u: "u = clamp (wend w - position w) 0 n"
    and p': "p' = p\<lparr>received := rs_add (position w) (position w + u) (received p),
       workers := map_put i (w\<lparr>position := position w + u, receiving := True\<rparr>) (workers p)\<rparr>"
    using assms(2,4) by (auto simp: receive_def Let_def)
  show u0: "0 \<le> u" and un: "u \<le> n" unfolding u by (rule clamp_bounds [OF assms(3)])+
  have un': "u \<le> wend w - position w \<or> u = 0" and "u = n \<or> wend w \<le> position w + u"
    using assms(3) by (auto simp: u clamp_def)
  then show "u = n \<or> wend w \<le> position w + u" by simp
  have wok: "worker_ok p w" by (rule planner_okD(5) [OF assms(1,2)])
  have add: "rs_ok (rs_add (position w) (position w + u) (received p)) \<and>
      bytes (rs_add (position w) (position w + u) (received p))
        = bytes (received p) \<union> {position w..<position w + u}"
    using rs_add_correct [OF planner_okD(1) [OF assms(1)]] by blast
  then show rec: "bytes (received p') = bytes (received p) \<union> {position w..<position w + u}"
    by (simp add: p')
  let ?v = "w\<lparr>position := position w + u, receiving := True\<rparr>"
  have q: "planner_ok (p\<lparr>workers := map_put i ?v (workers p)\<rparr>)"
    by (rule planner_ok_put [OF assms(1)]) (use wok u0 in \<open>simp add: worker_ok_def\<close>)
  have fits: "{position w..<position w + u} \<subseteq> {0..}"
    "0 \<le> file_length p \<Longrightarrow> {position w..<position w + u} \<subseteq> {0..<file_length p}"
    using wok un' by (auto simp: worker_ok_def)
  show "planner_ok p'"
    using q add fits by (auto simp: planner_ok_def p' worker_ok_def)
  note own = owned_member [OF assms(1,2)]
  have "owned p' = owned (p\<lparr>workers := map_put i ?v (workers p)\<rparr>)" by (simp add: p' owned_def)
  then have own': "owned p' = {position w + u..<wend w} \<union>
      (\<Union>(k, v) \<in> {x \<in> set (workers p). fst x \<noteq> i}. {position v..<wend v})"
    unfolding owned_put [OF assms(1)] by simp
  have split: "{position w..<position w + u} \<union> {position w + u..<wend w} = {position w..<wend w}"
    using u0 un' by auto
  show "bytes (received p') \<union> owned p' = bytes (received p) \<union> owned p"
    unfolding rec own own' split [symmetric] by blast
qed

lemma planner_ok_erase:
  "planner_ok p \<Longrightarrow> planner_ok (p\<lparr>workers := map_erase i (workers p)\<rparr>)"
  by (auto simp: planner_ok_def worker_ok_def set_map_erase intro: keys_ascend_map_erase)

lemma owned_by_others_correct:
  assumes "planner_ok p"
  shows "rs_ok (owned_by_others i p)"
    and "bytes (owned_by_others i p) = bytes (received p) \<union>
      (\<Union>(j, v) \<in> {x \<in> set (workers p). fst x \<noteq> i}. {position v..<wend v})"
proof -
  let ?ws = "map (\<lambda>(j, w). (position w, wend w)) (filter (\<lambda>(j, w). j \<noteq> i) (workers p))"
  have "(\<Union>(b, e) \<in> set ?ws. {b..<e}) =
      (\<Union>(j, v) \<in> {x \<in> set (workers p). fst x \<noteq> i}. {position v..<wend v})" by force
  then show "rs_ok (owned_by_others i p)"
    and "bytes (owned_by_others i p) = bytes (received p) \<union>
      (\<Union>(j, v) \<in> {x \<in> set (workers p). fst x \<noteq> i}. {position v..<wend v})"
    using rs.add_all [OF planner_okD(1) [OF assms], of ?ws] unfolding owned_by_others_def by auto
qed

lemma extend_cases:
  assumes "map_of (workers p) i = Some w" and "extend i p = Some (go, c, p')"
  obtains (stop) "\<not> go" and "c = None" and "p' = p"
    | (takeover) j nx where "go" and "c = Some j" and "j \<noteq> i" and "(j, nx) \<in> set (workers p)"
      and "position nx = wend w" and "\<not> receiving nx" and "wend w < requestEnd w"
      and "p' = p\<lparr>workers := map_erase j
             (map_put i (w\<lparr>wend := min (requestEnd w) (wend nx)\<rparr>) (workers p))\<rparr>"
    | (more) b where "go" and "c = None" and "wend w < requestEnd w"
      and "rs_firstGap (wend w)
             (if file_length p \<ge> 0 then min (requestEnd w) (file_length p) else requestEnd w)
             (owned_by_others i p) = Some (wend w, b)"
      and "p' = p\<lparr>workers := map_put i (w\<lparr>wend := b\<rparr>) (workers p)\<rparr>"
proof (cases "requestEnd w \<le> wend w \<or> file_length p \<ge> 0 \<and> wend w \<ge> file_length p")
  case True
  then show ?thesis using assms stop by (auto simp: extend_def)
next
  case False
  let ?cand = "\<lambda>(other, nx). other \<noteq> i \<and> position nx = wend w \<and> \<not> receiving nx"
  show ?thesis
  proof (cases "find ?cand (workers p)")
    case None
    then show ?thesis using assms False stop more
      by (auto simp: extend_def Let_def split: option.splits if_splits)
  next
    case (Some x)
    obtain j nx where x: "x = (j, nx)" by force
    have "(j, nx) \<in> set (workers p)" "j \<noteq> i" "position nx = wend w" "\<not> receiving nx"
      using Some x nth_mem by (fastforce simp: find_Some_iff)+
    then show ?thesis using assms False Some x takeover [of j nx] by (auto simp: extend_def)
  qed
qed

lemma extend_ok:
  assumes "planner_ok p" and "map_of (workers p) i = Some w" and "extend i p = Some (go, c, p')"
  shows "planner_ok p'" and "received p' = received p"
    and "position w = wend w \<Longrightarrow> owned p \<subseteq> owned p' \<union> {requestEnd w..}"
    and "owned p' \<subseteq> owned p \<union> ({wend w..<requestEnd w} - bytes (received p))"
proof -
  let ?claim = "planner_ok p' \<and> received p' = received p \<and>
    (position w = wend w \<longrightarrow> owned p \<subseteq> owned p' \<union> {requestEnd w..}) \<and>
    owned p' \<subseteq> owned p \<union> ({wend w..<requestEnd w} - bytes (received p))"
  have ?claim
  using assms(2,3)
  proof (cases rule: extend_cases)
    case stop
    then show ?thesis using assms(1) by blast
  next
    case (takeover j nx)
    have nx: "map_of (workers p) j = Some nx"
      using takeover(4) planner_okD(2) [OF assms(1)] by (simp add: map_of_in_set)
    note wok = planner_okD(5) [OF assms(1,2)] planner_okD(5) [OF assms(1) nx]
    let ?v = "w\<lparr>wend := min (requestEnd w) (wend nx)\<rparr>"
    let ?q = "p\<lparr>workers := map_put i ?v (workers p)\<rparr>"
    have q: "planner_ok ?q"
      by (rule planner_ok_put [OF assms(1)]) (use wok in \<open>auto simp: worker_ok_def\<close>)
    let ?rest = "\<Union>(k, v) \<in> {x \<in> set (workers p). fst x \<noteq> i \<and> fst x \<noteq> j}. {position v..<wend v}"
    have "owned p' = {position w..<min (requestEnd w) (wend nx)} \<union> ?rest"
      using takeover(3) planner_okD(2) [OF assms(1)]
      by (auto simp: takeover(8) owned_def set_map_erase set_map_put_eq)
    moreover have "owned p = {position w..<wend w} \<union> {position nx..<wend nx} \<union> ?rest"
    proof -
      have "{x \<in> set (workers p). fst x \<noteq> i} =
          insert (j, nx) {x \<in> set (workers p). fst x \<noteq> i \<and> fst x \<noteq> j}"
        using takeover(3) nx by (auto simp flip: map_of_in_set [OF planner_okD(2) [OF assms(1)]])
      then show ?thesis unfolding owned_member [OF assms(1,2)] by auto
    qed
    ultimately have "position w = wend w \<longrightarrow> owned p \<subseteq> owned p' \<union> {requestEnd w..}"
      and "owned p' \<subseteq> owned p" using takeover(5,7) by auto
    moreover have "planner_ok p'" using planner_ok_erase [OF q] by (simp add: takeover(8))
    moreover have "received p' = received p" by (simp add: takeover(8))
    ultimately show ?thesis by auto
  next
    case (more b)
    note gap = rs_firstGap_Some [OF owned_by_others_correct(1) [OF assms(1)] more(4)]
    note own = owned_by_others_correct(2) [OF assms(1), of i]
    have b: "wend w < b" "b \<le> requestEnd w" "0 \<le> file_length p \<Longrightarrow> b \<le> file_length p"
      using gap by (auto split: if_splits)
    have "planner_ok p'" unfolding more(5)
      by (rule planner_ok_put [OF assms(1)])
        (use b planner_okD(5) [OF assms(1,2)] in \<open>simp add: worker_ok_def\<close>)
    moreover have "received p' = received p" by (simp add: more(5))
    moreover have o': "owned p' = {position w..<b} \<union>
        (\<Union>(k, v) \<in> {x \<in> set (workers p). fst x \<noteq> i}. {position v..<wend v})"
      unfolding more(5) owned_put [OF assms(1)] by simp
    have "owned p \<subseteq> owned p' \<union> {requestEnd w..}"
      unfolding o' owned_member [OF assms(1,2)] using b by auto
    moreover have "{wend w..<b} \<inter> bytes (received p) = {}" using gap own by auto
    moreover have "{position w..<b} \<subseteq> {position w..<wend w} \<union> {wend w..<b}" by auto
    moreover have "{wend w..<b} \<subseteq> {wend w..<requestEnd w}" using b by auto
    ultimately show ?thesis unfolding o' owned_member [OF assms(1,2)] by blast
  qed
  then show "planner_ok p'" and "received p' = received p"
    and "position w = wend w \<Longrightarrow> owned p \<subseteq> owned p' \<union> {requestEnd w..}"
    and "owned p' \<subseteq> owned p \<union> ({wend w..<requestEnd w} - bytes (received p))" by auto
qed

section \<open>Every history of calls\<close>

text \<open>
  The calls the download task makes. Worker ids are fresh (\<open>nextWorker_\<close>), a length is set once no
  received byte lies beyond it, and a stored record holds ranges of the file it belongs to.
\<close>

inductive planner_step :: "planner \<Rightarrow> planner \<Rightarrow> bool" where
  step_setLength: "0 \<le> n \<Longrightarrow> bytes (received p) \<subseteq> {..<n} \<Longrightarrow> planner_step p (setLength n p)"
| step_restore: "(\<forall>(b, e) \<in> set rs. 0 \<le> b \<and> (0 \<le> file_length p \<longrightarrow> e \<le> file_length p)) \<Longrightarrow>
    planner_step p (restore rs p)"
| step_reset: "planner_step p (reset p)"
| step_place: "0 \<le> b \<Longrightarrow> planner_step p (place i b r p)"
| step_assign: "map_of (workers p) i = None \<Longrightarrow> planner_step p (snd (assign i p))"
| step_receive: "0 \<le> n \<Longrightarrow> receive i n p = Some (u, p') \<Longrightarrow> planner_step p p'"
| step_updateSpeed: "planner_step p (updateSpeed i v s p)"
| step_noteSpeed: "planner_step p (noteSpeed v p)"
| step_noteStartup: "planner_step p (noteStartup v p)"
| step_extend: "extend i p = Some (go, c, p') \<Longrightarrow> planner_step p p'"
| step_release: "planner_step p (release i p)"
| step_forget: "planner_step p (forget b e p)"

inductive planner_reachable :: "int \<Rightarrow> planner \<Rightarrow> bool" for ms where
  reachable_new: "planner_reachable ms (new_planner ms)"
| reachable_step: "planner_reachable ms p \<Longrightarrow> planner_step p p' \<Longrightarrow> planner_reachable ms p'"

lemma planner_ok_setLength:
  assumes "planner_ok p" and "0 \<le> n" and "bytes (received p) \<subseteq> {..<n}"
  shows "planner_ok (setLength n p)"
  using assms by (fastforce simp: planner_ok_def setLength_def worker_ok_def keys_ascend_def o_def case_prod_beta)

lemma planner_ok_restore:
  assumes "planner_ok p" and "\<forall>(b, e) \<in> set rs. 0 \<le> b \<and> (0 \<le> file_length p \<longrightarrow> e \<le> file_length p)"
  shows "planner_ok (restore rs p)"
proof -
  have "(\<Union>(b, e) \<in> set rs. {b..<e}) \<subseteq> {0..}"
    and "0 \<le> file_length p \<Longrightarrow> (\<Union>(b, e) \<in> set rs. {b..<e}) \<subseteq> {0..<file_length p}"
    using assms(2) by fastforce+
  with assms(1) rs.add_all [OF planner_okD(1) [OF assms(1)], of rs] show ?thesis
    by (auto simp: planner_ok_def restore_def worker_ok_def)
qed

lemma planner_ok_forget: "planner_ok p \<Longrightarrow> planner_ok (forget b e p)"
  using rs_remove_correct [of "received p" b e]
  by (auto simp: planner_ok_def forget_def worker_ok_def)

lemma planner_ok_place: "planner_ok p \<Longrightarrow> 0 \<le> b \<Longrightarrow> planner_ok (place i b r p)"
  unfolding place_def Let_def by (rule planner_ok_put) (auto simp: worker_ok_def new_worker_def)

lemma planner_ok_updateSpeed: "planner_ok p \<Longrightarrow> planner_ok (updateSpeed i v s p)"
proof (cases "map_of (workers p) i")
  case (Some w)
  assume ok: "planner_ok p"
  let ?w = "\<lambda>v. w\<lparr>age := dadd (age w) s, speed := v\<rparr>"
  have "planner_ok (p\<lparr>workers := map_put i (?w x) (workers p)\<rparr>)" for x
    using planner_okD(5) [OF ok Some] by (intro planner_ok_put [OF ok]) (simp add: worker_ok_def)
  then show ?thesis using Some by (simp add: updateSpeed_def Let_def planner_ok_def worker_ok_def)
qed (simp add: updateSpeed_def)

lemma planner_ok_estimates:
  "planner_ok p \<Longrightarrow> planner_ok (noteSpeed v p)" "planner_ok p \<Longrightarrow> planner_ok (noteStartup v p)"
  "planner_ok p \<Longrightarrow> planner_ok (reset p)"
  by (simp_all add: planner_ok_def worker_ok_def reset_def noteSpeed_def noteStartup_def keys_ascend_def)

lemma planner_ok_step:
  assumes "planner_step p p'" and "planner_ok p"
  shows "planner_ok p'"
  using assms
proof cases
  case (step_assign i)
  obtain r q where a: "assign i p = (r, q)" by force
  show ?thesis
  proof (cases r)
    case None
    have "q = p" using None by (cases rule: assign_cases [OF assms(2) step_assign(2) a]) simp_all
    then show ?thesis using step_assign a assms(2) by simp
  next
    case (Some x)
    then show ?thesis using assign_ok(4) [OF assms(2) step_assign(2), of "fst x" "snd x" q] step_assign a by simp
  qed
next
  case (step_receive n i u)
  then obtain w where "map_of (workers p) i = Some w" by (auto simp: receive_def split: option.splits)
  then show ?thesis using receive_ok(5) assms(2) step_receive by blast
next
  case (step_extend i go c)
  then obtain w where "map_of (workers p) i = Some w" by (auto simp: extend_def split: option.splits)
  then show ?thesis using extend_ok(1) assms(2) step_extend by blast
next
  case (step_release i)
  then show ?thesis using planner_ok_erase [OF assms(2)] by (simp add: release_def)
qed (use assms(2) in \<open>simp_all add: planner_ok_setLength planner_ok_restore planner_ok_place
  planner_ok_forget planner_ok_updateSpeed planner_ok_estimates\<close>)

lemma reachable_ok: "planner_reachable ms p \<Longrightarrow> 0 < ms \<Longrightarrow> planner_ok p"
proof (induction rule: planner_reachable.induct)
  case reachable_new
  then show ?case by (simp add: planner_ok_def new_planner_def keys_ascend_def)
next
  case (reachable_step p p')
  then show ?case using planner_ok_step by blast
qed

section \<open>Properties\<close>

text \<open>Two states for the examples: a file of 100000 bytes, and the same with one connection.\<close>

definition sample_planner :: planner where
  "sample_planner = setLength 100000 (new_planner 20480)"

definition sample_running :: planner where
  "sample_running = snd (assign 1 sample_planner)"

lemma sample_reachable: "planner_reachable 20480 sample_planner" "planner_reachable 20480 sample_running"
proof -
  have "planner_step (new_planner 20480) sample_planner"
    unfolding sample_planner_def by (rule step_setLength) (simp_all add: new_planner_def)
  then show 1: "planner_reachable 20480 sample_planner" by (blast intro: reachable_new reachable_step)
  have "planner_step sample_planner sample_running"
    unfolding sample_running_def
    by (rule step_assign) (simp add: sample_planner_def setLength_def new_planner_def)
  with 1 show "planner_reachable 20480 sample_running" by (blast intro: reachable_step)
qed

lemma sample_running_eq:
  "sample_running = \<lparr>minSplit = 20480, file_length = 100000, received = [],
     workers = [(1, new_worker 0 100000 100000)], peakSpeed = 0, startup = 0\<rparr>"
  by code_simp

lemma sample_split:
  "split 2 sample_running = Some ((49152, 100000), sample_running\<lparr>workers :=
     [(1, new_worker 0 49152 100000), (2, new_worker 49152 100000 100000)]\<rparr>)"
proof -
  have speeds: "typicalSpeed (- 1) sample_running = 0" "minSplitFor 0 sample_running = 20480"
    by (simp_all add: typicalSpeed_def minSplitFor_def sample_running_eq new_worker_def)
  have victim: "fst (the (split_victim sample_running)) = 1"
    "fst (snd (the (split_victim sample_running))) = new_worker 0 100000 100000"
    "split_victim sample_running \<noteq> None"
    unfolding split_victim_def speeds
    by (simp_all add: sample_running_eq new_worker_def expectedSpeed_def unbounded_def speeds
        [unfolded sample_running_eq new_worker_def, simplified] Let_def)
  have "split_cut (new_worker 0 100000 100000) sample_running = 49152"
    by (simp add: split_cut_def speeds new_worker_def expectedSpeed_def Let_def to_double_exact
        dmul_def fl64_numeral to_int64_def clamp_def alignment_def signed_modulo_int_def)
  then show ?thesis using victim
    by (auto simp: split_def sample_running_eq Let_def new_worker_def)
qed

lemma sample_assign: "assign 2 sample_running =
    (Some (49152, 100000), sample_running\<lparr>workers :=
       [(1, new_worker 0 49152 100000), (2, new_worker 49152 100000 100000)]\<rparr>)"
proof -
  have "file_length sample_running = 100000" "largestGap sample_running = None"
    unfolding sample_running_eq new_worker_def by code_simp+
  then show ?thesis by (simp add: assign_def sample_split)
qed



text \<open>
  C1. No missing byte is forgotten. A new connection either gets a non-empty range inside the
  file, which is registered for it and is the only change of ownership, or gets nothing and
  then every byte of the file is already received or being fetched.
\<close>

theorem assign_no_starvation:
  assumes "planner_reachable ms p" and "0 < ms" and "map_of (workers p) i = None"
  shows "case assign i p of
      (None, p') \<Rightarrow> p' = p \<and> (0 \<le> file_length p \<longrightarrow> {0..<file_length p} \<subseteq> bytes (received p) \<union> owned p)
    | (Some (a, b), p') \<Rightarrow> 0 \<le> a \<and> a < b \<and> b \<le> file_length p \<and>
        worker_of i p' = Some (new_worker a b b) \<and>
        owned p' = owned p \<union> {a..<b} \<and> received p' = received p"
proof -
  have ok: "planner_ok p" by (rule reachable_ok [OF assms(1,2)])
  obtain r p' where a: "assign i p = (r, p')" by force
  show ?thesis
  proof (cases r)
    case None
    then show ?thesis using a by (cases rule: assign_cases [OF ok assms(3) a]) auto
  next
    case (Some x)
    obtain u v where x: "x = (u, v)" by force
    show ?thesis using assign_ok [OF ok assms(3), of u v p'] a Some x by (simp add: worker_of_def)
  qed
qed

theorem assign_no_starvation_witness:
  "fst (assign 2 sample_running) = Some (49152, 100000) \<and>
   owned (snd (assign 2 sample_running)) = owned sample_running \<union> {49152..<100000}"
proof -
  have "map_of (workers sample_running) 2 = None" by (simp add: sample_running_eq)
  from assign_no_starvation [OF sample_reachable(2) _ this] show ?thesis by (simp add: sample_assign)
qed

text \<open>
  C18. While some bytes are neither received nor owned, the next connection gets one of the
  longest such intervals.
\<close>

theorem assign_largest_gap:
  assumes "planner_reachable ms p" and "0 < ms" and "0 \<le> file_length p"
    and "free_interval (bytes (received p) \<union> owned p) 0 (file_length p) c d"
  shows "\<exists>a b. fst (assign i p) = Some (a, b) \<and>
    free_interval (bytes (received p) \<union> owned p) 0 (file_length p) a b \<and> d - c \<le> b - a"
proof -
  note g = largestGap_correct [OF reachable_ok [OF assms(1,2)] assms(3)]
  have "largestGap p \<noteq> None"
  proof
    assume "largestGap p = None"
    then have "{0..<file_length p} \<subseteq> bytes (received p) \<union> owned p" using g by simp
    moreover have "c \<in> {0..<file_length p}" "c \<in> {c..<d}" using assms(4) by (auto simp: free_interval_def)
    moreover have "{c..<d} \<inter> (bytes (received p) \<union> owned p) = {}"
      using assms(4) by (simp add: free_interval_def)
    ultimately show False by blast
  qed
  then show ?thesis using g assms(3,4) by (auto simp: assign_def)
qed

theorem assign_largest_gap_witness:
  "\<exists>a b. fst (assign 1 sample_planner) = Some (a, b) \<and> 100000 \<le> b - a"
proof -
  have eqs: "file_length sample_planner = 100000" "received sample_planner = []" "workers sample_planner = []"
    by (simp_all add: sample_planner_def setLength_def new_planner_def)
  have "free_interval (bytes (received sample_planner) \<union> owned sample_planner) 0
      (file_length sample_planner) 0 100000"
    by (simp add: free_interval_def owned_def eqs)
  from assign_largest_gap [OF sample_reachable(1) _ _ this, of 1] show ?thesis by (simp add: eqs) blast
qed



text \<open>
  C20. The endgame is bounded: the copy \<open>race\<close> starts repeats bytes another connection still
  owns, and afterwards at most \<open>maxCopies\<close> connections that deliver or may still start fetch
  that range.
\<close>

theorem race_copies_bounded:
  assumes "planner_reachable ms p" and "0 < ms" and "map_of (workers p) i = None"
    and "race i p = Some ((a, b), p')"
  shows "live_copies b p' \<le> nat maxCopies \<and> a < b \<and> {a..<b} \<subseteq> owned p \<and> owned p' = owned p \<and>
    worker_of i p' = Some (new_worker a b b)"
proof -
  note r = race_correct [OF reachable_ok [OF assms(1,2)] assms(4,3)]
  have "worker_of i p' = Some (new_worker a b b)"
    unfolding r(4) worker_of_def by (simp add: map_of_map_put)
  with r show ?thesis by blast
qed

definition sample_stalled :: planner where
  "sample_stalled = updateSpeed 1 0 3 sample_running"

lemma sample_stalled_eq:
  "sample_stalled = sample_running\<lparr>workers := [(1, (new_worker 0 100000 100000)\<lparr>age := 3\<rparr>)]\<rparr>"
  by (simp add: sample_stalled_def updateSpeed_def sample_running_eq new_worker_def dadd_def fl64_numeral)

lemma sample_race:
  "race 2 sample_stalled = Some ((0, 100000), sample_stalled\<lparr>workers :=
     map_put 2 (new_worker 0 100000 100000) (workers sample_stalled)\<rparr>)"
proof -
  have "race_groups sample_stalled =
      [(100000, \<lparr>leader = 1, gtime = 1000000000, copies = 0, silent = 1, young = False\<rparr>)]"
    by (simp add: race_groups_def group_worker_def sample_stalled_eq sample_running_eq new_worker_def
        silentAfter_def raceSeconds_def unbounded_def new_group_def)
  then have "race_pick sample_stalled = Some ((new_worker 0 100000 100000)\<lparr>age := 3\<rparr>, 1000000000)"
    by (simp add: race_pick_def sample_stalled_eq sample_running_eq new_worker_def typicalSpeed_def
        maxCopies_def raceSeconds_def minRaceSeconds_def dadd_def dmul_def fl64_numeral)
  then show ?thesis by (simp add: race_def new_worker_def)
qed

theorem race_copies_bounded_witness:
  "fst (the (race 2 sample_stalled)) = (0, 100000) \<and> live_copies 100000 (snd (the (race 2 sample_stalled))) \<le> 3"
proof -
  have "planner_step sample_running sample_stalled" unfolding sample_stalled_def by (rule step_updateSpeed)
  with sample_reachable(2) have "planner_reachable 20480 sample_stalled" by (rule reachable_step)
  moreover have "map_of (workers sample_stalled) 2 = None" by (simp add: sample_stalled_eq)
  ultimately show ?thesis using race_copies_bounded [OF _ _ _ sample_race]
    by (simp add: sample_race maxCopies_def)
qed




definition sample_head_done :: planner where
  "sample_head_done = sample_running\<lparr>received := [(0, 49152)], workers :=
     [(1, \<lparr>position = 49152, wend = 49152, requestEnd = 100000, receiving = True, speed = 0, age = 0\<rparr>),
      (2, new_worker 49152 100000 100000)]\<rparr>"

lemma sample_head_done_reachable: "planner_reachable 20480 sample_head_done"
proof -
  let ?q = "snd (assign 2 sample_running)"
  have "planner_step sample_running ?q" by (rule step_assign) (simp add: sample_running_eq)
  with sample_reachable(2) have q: "planner_reachable 20480 ?q" by (rule reachable_step)
  have "receive 1 49152 ?q = Some (49152, sample_head_done)"
    unfolding sample_assign snd_conv
    by (simp add: receive_def new_worker_def clamp_def sample_head_done_def sample_running_eq rs_add_def
        upper_bound_def)
  then have "planner_step ?q sample_head_done" by (intro step_receive [of 49152 1]) simp_all
  with q show ?thesis by (rule reachable_step)
qed


text \<open>
  The task's completion test is exact: the planner is complete iff the number of received
  bytes is the length of the file.
\<close>

theorem complete_iff_total:
  assumes "planner_reachable ms p" and "0 < ms" and "0 \<le> file_length p"
  shows "planner_complete p \<longleftrightarrow> rs_total (received p) = file_length p"
  using rs.total_full [OF planner_okD(1) [OF reachable_ok [OF assms(1,2)]] _ assms(3)]
    reachable_ok [OF assms(1,2)] assms(3)
  by (auto simp: planner_complete_def planner_ok_def)

end
