(* ===== verification/Host_Pool.thy ===== *)
theory Host_Pool
  imports Prelude "HOL-Library.List_Lexorder" "HOL-Library.Char_ord"
begin

text \<open>
  Connections to one server, shared by every download from it: \<open>http/HostPool.h\<close> and
  \<open>http/HostPool.cc\<close>. A member (a download) is known by its address, here an integer; time points
  are nanoseconds of the steady clock. \<open>allowance\<close> is a \<open>const\<close> method with a mutable cache, so
  its model returns the refreshed pool beside the number.

  The lemmas show that the cache never lies, that the seats of a limited server are never
  exceeded, never wasted and distributed as D'Hondt seats, that a limit never falls below
  the connections the server serves, and how the limit drops and recovers.
\<close>

section \<open>Model\<close>

type_synonym member = int

type_synonym time_point = int

abbreviation seconds :: "int \<Rightarrow> int" where
  "seconds n \<equiv> n * 1000000000"

definition calmPeriod :: int where
  "calmPeriod = seconds 5"

definition maxPause :: int where
  "maxPause = seconds 8"

record demand =
  dm_host :: string
  dm_wanted :: int
  dm_remaining :: int
  dm_transferring :: int
  dm_order :: nat

record host =
  h_limit :: int
  h_strikes :: int
  h_calmSince :: time_point
  h_dropped :: time_point
  h_readyAt :: time_point

record pool =
  members :: "(member \<times> demand) list"
  hosts :: "(string \<times> host) list"
  allowances :: "(member \<times> int) list"
  stale :: bool
  nextOrder :: nat

definition new_demand :: demand where
  "new_demand = \<lparr>dm_host = [], dm_wanted = 1, dm_remaining = - 1, dm_transferring = 0, dm_order = 0\<rparr>"

definition new_host :: host where
  "new_host = \<lparr>h_limit = 0, h_strikes = 0, h_calmSince = 0, h_dropped = 0, h_readyAt = 0\<rparr>"

definition new_pool :: pool where
  "new_pool = \<lparr>members = [], hosts = [], allowances = [], stale = True, nextOrder = 0\<rparr>"

text \<open>The sum over \<open>members_\<close> of what a server delivers.\<close>

definition host_transferring :: "string \<Rightarrow> (member \<times> demand) list \<Rightarrow> int" where
  "host_transferring h ms = (\<Sum>x \<leftarrow> ms. if dm_host (snd x) = h then dm_transferring (snd x) else 0)"

definition pool_update :: "member \<Rightarrow> string \<Rightarrow> int \<Rightarrow> int \<Rightarrow> int \<Rightarrow> pool \<Rightarrow> pool" where
  "pool_update m h wanted remaining transferring p =
     (let added = (map_of (members p) m = None);
          d = (case map_of (members p) m of
                 None \<Rightarrow> new_demand\<lparr>dm_order := nextOrder p\<rparr> | Some d \<Rightarrow> d);
          p = p\<lparr>nextOrder := nextOrder p + (if added then 1 else 0),
                stale := (stale p \<or> added \<or> dm_host d \<noteq> h \<or> dm_wanted d \<noteq> wanted \<or>
                          dm_remaining d \<noteq> remaining),
                members := map_put m (d\<lparr>dm_host := h, dm_wanted := max 1 wanted,
                             dm_remaining := remaining, dm_transferring := transferring\<rparr>) (members p)\<rparr>
      in case map_of (hosts p) h of
           None \<Rightarrow> p
         | Some st \<Rightarrow>
             if h_limit st > 0 then
               let total = host_transferring h (members p)
               in if total > h_limit st
                  then p\<lparr>hosts := map_put h (st\<lparr>h_limit := total\<rparr>) (hosts p), stale := True\<rparr>
                  else p
             else p)"

definition leave :: "member \<Rightarrow> pool \<Rightarrow> pool" where
  "leave m p =
     (case map_of (members p) m of
        None \<Rightarrow> p
      | Some d \<Rightarrow>
          (let ms = map_erase m (members p);
               p = p\<lparr>members := ms, stale := True\<rparr>
           in if list_ex (\<lambda>x. dm_host (snd x) = dm_host d) ms then p
              else p\<lparr>hosts := map_erase (dm_host d) (hosts p)\<rparr>))"

text \<open>Joining orders are distinct, so any sorting routine returns this list.\<close>

definition membersOf :: "string \<Rightarrow> pool \<Rightarrow> (member \<times> demand) list" where
  "membersOf h p = sort_key (\<lambda>x. dm_order (snd x)) (filter (\<lambda>x. dm_host (snd x) = h) (members p))"

subsection \<open>Seats\<close>

text \<open>A wish is the \<open>wanted\<close> and \<open>remaining\<close> of one download.\<close>

type_synonym wish = "int \<times> int"

fun first_seats :: "wish list \<Rightarrow> int \<Rightarrow> int list \<times> int" where
  "first_seats [] seats = ([], seats)"
| "first_seats (x # xs) seats =
     (if seats > 0 then let (g, s) = first_seats xs (seats - 1) in (1 # g, s)
      else (0 # map (\<lambda>_. 0) xs, seats))"

definition quotient :: "wish \<Rightarrow> int \<Rightarrow> double" where
  "quotient x n = ddiv (to_double (max 1 (snd x))) (to_double n)"

definition best_seat :: "wish list \<Rightarrow> int list \<Rightarrow> (nat \<times> double) option" where
  "best_seat xs given =
     fold (\<lambda>i best.
         if given ! i = 0 \<or> given ! i \<ge> fst (xs ! i) then best
         else let q = quotient (xs ! i) (given ! i + 1)
              in case best of
                   None \<Rightarrow> Some (i, q)
                 | Some (_, bestQuotient) \<Rightarrow> if q > bestQuotient then Some (i, q) else best)
       [0..<length xs] None"

fun more_seats :: "wish list \<Rightarrow> nat \<Rightarrow> int list \<Rightarrow> int list" where
  "more_seats xs 0 given = given"
| "more_seats xs (Suc seats) given =
     (case best_seat xs given of
        None \<Rightarrow> given
      | Some (i, _) \<Rightarrow> more_seats xs seats (given[i := given ! i + 1]))"

definition seats_for :: "wish list \<Rightarrow> int \<Rightarrow> int list" where
  "seats_for xs limit =
     (let (given, seats) = first_seats xs limit in more_seats xs (nat seats) given)"

text \<open>What \<open>allocate\<close> stores for one server.\<close>

definition allocation :: "string \<Rightarrow> pool \<Rightarrow> (member \<times> int) list" where
  "allocation h p =
     (let xs = membersOf h p;
          limit = (case map_of (hosts p) h of None \<Rightarrow> 0 | Some st \<Rightarrow> h_limit st)
      in if limit \<le> 0 then map (\<lambda>(m, d). (m, dm_wanted d)) xs
         else zip (map fst xs)
                (seats_for (map (\<lambda>x. (dm_wanted (snd x), dm_remaining (snd x))) xs) limit))"

definition allocate :: "string \<Rightarrow> pool \<Rightarrow> (member \<times> int) list \<Rightarrow> (member \<times> int) list" where
  "allocate h p al = fold (\<lambda>(m, n). map_put m n) (allocation h p) al"

text \<open>The loop over the members, with the list \<open>done\<close>.\<close>

definition refresh :: "pool \<Rightarrow> (member \<times> int) list" where
  "refresh p =
     snd (fold (\<lambda>x (finished, al).
            if dm_host (snd x) \<in> set finished then (finished, al)
            else (finished @ [dm_host (snd x)], allocate (dm_host (snd x)) p al))
          (members p) ([], []))"

definition allowance :: "member \<Rightarrow> pool \<Rightarrow> int \<times> pool" where
  "allowance m p =
     (case map_of (members p) m of
        None \<Rightarrow> (0, p)
      | Some d \<Rightarrow>
          (let p = (if stale p then p\<lparr>allowances := refresh p, stale := False\<rparr> else p)
           in (case map_of (allowances p) m of None \<Rightarrow> dm_wanted d | Some n \<Rightarrow> n, p)))"

subsection \<open>Feedback\<close>

text \<open>The end of \<open>overloaded\<close>: the limit drops to what is being served and the pause starts.\<close>

definition drop_limit :: "time_point \<Rightarrow> int \<Rightarrow> host \<Rightarrow> host" where
  "drop_limit now transferring st =
     (let strikes = (if now - h_calmSince st < calmPeriod then h_strikes st + 1 else 1);
          pause = min maxPause (seconds (2 ^ nat (min (strikes - 1) 5)))
      in \<lparr>h_limit = max 1 transferring, h_strikes = strikes, h_calmSince = now, h_dropped = now,
          h_readyAt = max (h_readyAt st) (now + pause)\<rparr>)"

definition pool_overloaded :: "member \<Rightarrow> time_point \<Rightarrow> time_point \<Rightarrow> time_point \<Rightarrow> pool \<Rightarrow> pool" where
  "pool_overloaded m sent now ready p =
     (case map_of (members p) m of
        None \<Rightarrow> p
      | Some d \<Rightarrow>
          (let h = dm_host d;
               st = (case map_of (hosts p) h of None \<Rightarrow> new_host | Some st \<Rightarrow> st);
               st = st\<lparr>h_readyAt := max (h_readyAt st) ready\<rparr>
           in if h_limit st > 0 \<and> sent < h_dropped st then p\<lparr>hosts := map_put h st (hosts p)\<rparr>
              else p\<lparr>hosts := map_put h (drop_limit now (host_transferring h (members p)) st) (hosts p),
                     stale := True\<rparr>))"

definition pool_transferring :: "member \<Rightarrow> pool \<Rightarrow> int" where
  "pool_transferring m p =
     (case map_of (members p) m of
        None \<Rightarrow> 0 | Some d \<Rightarrow> host_transferring (dm_host d) (members p))"

definition readyAt :: "member \<Rightarrow> pool \<Rightarrow> time_point" where
  "readyAt m p =
     (case map_of (members p) m of
        None \<Rightarrow> 0
      | Some d \<Rightarrow> (case map_of (hosts p) (dm_host d) of None \<Rightarrow> 0 | Some st \<Rightarrow> h_readyAt st))"

text \<open>One iteration of \<open>tick\<close>: \<open>None\<close> erases the entry; the flag is a change of the limit.\<close>

definition tick_host :: "time_point \<Rightarrow> (member \<times> demand) list \<Rightarrow> string \<Rightarrow> host \<Rightarrow> host option \<times> bool" where
  "tick_host now ms h st =
     (let mine = filter (\<lambda>x. dm_host (snd x) = h) ms;
          wanted = (\<Sum>x \<leftarrow> mine. dm_wanted (snd x))
      in if mine = [] then (None, False)
         else if h_limit st > 0 \<and> now - h_calmSince st \<ge> calmPeriod
         then (Some (st\<lparr>h_limit := (if h_limit st + 1 \<ge> wanted then 0 else h_limit st + 1),
                        h_strikes := 0, h_calmSince := now\<rparr>), True)
         else (Some st, False))"

definition pool_tick :: "time_point \<Rightarrow> pool \<Rightarrow> pool" where
  "pool_tick now p =
     p\<lparr>hosts := map_each (\<lambda>h st. fst (tick_host now (members p) h st)) (hosts p),
       stale := (stale p \<or> list_ex (\<lambda>(h, st). snd (tick_host now (members p) h st)) (hosts p))\<rparr>"

definition host_limit :: "string \<Rightarrow> pool \<Rightarrow> int" where
  "host_limit h p = (case map_of (hosts p) h of None \<Rightarrow> 0 | Some st \<Rightarrow> h_limit st)"

section \<open>The seats of a limited server\<close>

definition eligible :: "wish list \<Rightarrow> int list \<Rightarrow> nat \<Rightarrow> bool" where
  "eligible xs g i = (i < length xs \<and> g ! i \<noteq> 0 \<and> g ! i < fst (xs ! i))"

text \<open>
  The D'Hondt condition: the last seat a download got beyond its first weighs at least as
  much as the next seat of any other.
\<close>

definition dhondt :: "wish list \<Rightarrow> int list \<Rightarrow> bool" where
  "dhondt xs g = (\<forall>i j. i < length xs \<longrightarrow> 2 \<le> g ! i \<longrightarrow> eligible xs g j \<longrightarrow>
     quotient (xs ! j) (g ! j + 1) \<le> quotient (xs ! i) (g ! i))"

lemma first_seats_props:
  assumes "first_seats xs s = (g, s')" and "0 \<le> s"
  shows "length g = length xs" and "0 \<le> s'" and "sum_list g + s' = s"
    and "i < length xs \<Longrightarrow> g ! i = (if int i < s then 1 else 0)"
    and "0 < s' \<Longrightarrow> int (length xs) < s"
proof -
  have "length g = length xs \<and> 0 \<le> s' \<and> sum_list g + s' = s \<and>
    (\<forall>i < length xs. g ! i = (if int i < s then 1 else 0)) \<and> (0 < s' \<longrightarrow> int (length xs) < s)"
    using assms
  proof (induction xs s arbitrary: g s' rule: first_seats.induct)
    case (2 x xs s)
    show ?case
    proof (cases "0 < s")
      case True
      obtain h t where h: "first_seats xs (s - 1) = (h, t)" by force
      have g: "g = 1 # h" "s' = t" using 2(2) True h by auto
      have ih: "length h = length xs" "0 \<le> t" "sum_list h + t = s - 1"
        "\<forall>i < length xs. h ! i = (if int i < s - 1 then 1 else 0)" "0 < t \<longrightarrow> int (length xs) < s - 1"
        using 2(1) [OF True h] True by auto
      have "g ! i = (if int i < s then 1 else 0)" if "i < length (x # xs)" for i
        using that ih(4) True by (cases i) (auto simp: g)
      then show ?thesis using ih True by (auto simp: g)
    next
      case False
      then show ?thesis using 2(2,3) by (auto simp: nth_Cons split: nat.splits)
    qed
  qed auto
  then show "length g = length xs" and "0 \<le> s'" and "sum_list g + s' = s"
    and "i < length xs \<Longrightarrow> g ! i = (if int i < s then 1 else 0)"
    and "0 < s' \<Longrightarrow> int (length xs) < s" by auto
qed

lemma best_seat_correct:
  "case best_seat xs g of
     None \<Rightarrow> \<forall>j. \<not> eligible xs g j
   | Some (i, q) \<Rightarrow> eligible xs g i \<and> q = quotient (xs ! i) (g ! i + 1) \<and>
       (\<forall>j. eligible xs g j \<longrightarrow> quotient (xs ! j) (g ! j + 1) \<le> q)"
proof -
  let ?f = "\<lambda>i best. if g ! i = 0 \<or> g ! i \<ge> fst (xs ! i) then best
         else let q = quotient (xs ! i) (g ! i + 1)
              in case best of None \<Rightarrow> Some (i, q)
                 | Some (_, bestQuotient) \<Rightarrow> if q > bestQuotient then Some (i, q) else best"
  have "case fold ?f [0..<n] None of
     None \<Rightarrow> \<forall>j < n. \<not> eligible xs g j
   | Some (i, q) \<Rightarrow> i < n \<and> eligible xs g i \<and> q = quotient (xs ! i) (g ! i + 1) \<and>
       (\<forall>j < n. eligible xs g j \<longrightarrow> quotient (xs ! j) (g ! j + 1) \<le> q)" if "n \<le> length xs" for n
    using that
  proof (induction n)
    case (Suc n)
    then show ?case
      by (cases "fold ?f [0..<n] None")
        (auto simp: eligible_def Let_def less_Suc_eq not_le split: if_splits option.splits)
  qed simp
  from this [of "length xs"] show ?thesis
    unfolding best_seat_def by (auto simp: eligible_def split: option.splits)
qed

lemma quotient_mono:
  assumes "1 \<le> n"
  shows "quotient x (n + 1) \<le> quotient x n"
proof -
  have "0 < to_double n"
  proof -
    have "fl64 1 \<le> fl64 (of_int n)" using assms by (intro fl64_mono) simp_all
    then show ?thesis by (simp add: to_double_def)
  qed
  moreover have "to_double n \<le> to_double (n + 1)"
    using assms by (auto simp: to_double_def intro!: fl64_mono)
  moreover have "0 \<le> to_double (max 1 (snd x))" by (auto simp: to_double_def intro!: fl64_nonneg)
  ultimately show ?thesis
    unfolding quotient_def ddiv_def by (intro fl64_mono divide_left_mono divide_nonneg_pos) auto
qed

lemma dhondt_step:
  assumes "dhondt xs g" and "best_seat xs g = Some (b, q)" and "length g = length xs"
    and "\<forall>i < length xs. 0 \<le> g ! i"
  shows "dhondt xs (g[b := g ! b + 1])"
  unfolding dhondt_def
proof (intro allI impI)
  fix i j
  let ?g = "g[b := g ! b + 1]"
  assume i: "i < length xs" "2 \<le> ?g ! i" and j: "eligible xs ?g j"
  have b: "eligible xs g b" "q = quotient (xs ! b) (g ! b + 1)"
    and max: "\<And>k. eligible xs g k \<Longrightarrow> quotient (xs ! k) (g ! k + 1) \<le> q"
    using best_seat_correct [of xs g] assms(2) by auto
  have pos: "1 \<le> g ! b" using b(1) assms(4) by (force simp: eligible_def)
  have next_j: "quotient (xs ! j) (?g ! j + 1) \<le> q" and old: "eligible xs g j"
  proof -
    show "eligible xs g j" using j b(1) assms(3) by (cases "j = b") (auto simp: eligible_def)
    then show "quotient (xs ! j) (?g ! j + 1) \<le> q"
      using max [of j] quotient_mono [of "g ! b + 1" "xs ! b"] pos b assms(3)
      by (cases "j = b") (auto simp: eligible_def)
  qed
  show "quotient (xs ! j) (?g ! j + 1) \<le> quotient (xs ! i) (?g ! i)"
  proof (cases "i = b")
    case True
    then show ?thesis using next_j b assms(3) i by (simp add: eligible_def)
  next
    case False
    then have "q \<le> quotient (xs ! i) (?g ! i)"
      using assms(1) b i unfolding dhondt_def by auto
    then show ?thesis using next_j by simp
  qed
qed

lemma more_seats_props:
  assumes "length g = length xs" and "\<forall>i < length xs. 0 \<le> g ! i" and "dhondt xs g"
    and "r = more_seats xs n g"
  shows "length r = length xs" and "\<forall>i < length xs. g ! i \<le> r ! i \<and> r ! i \<le> max (g ! i) (fst (xs ! i))"
    and "dhondt xs r" and "sum_list g \<le> sum_list r" and "sum_list r \<le> sum_list g + int n"
    and "sum_list r = sum_list g + int n \<or> (\<forall>i. \<not> eligible xs r i)"
proof -
  have "length r = length xs \<and> (\<forall>i < length xs. g ! i \<le> r ! i \<and> r ! i \<le> max (g ! i) (fst (xs ! i))) \<and>
    dhondt xs r \<and> sum_list g \<le> sum_list r \<and> sum_list r \<le> sum_list g + int n \<and>
    (sum_list r = sum_list g + int n \<or> (\<forall>i. \<not> eligible xs r i))"
    unfolding assms(4) using assms(1,2,3)
  proof (induction xs n g rule: more_seats.induct)
    case (2 xs n g)
    show ?case
    proof (cases "best_seat xs g")
      case None
      then show ?thesis using 2(2-) best_seat_correct [of xs g] by simp
    next
      case (Some x)
      obtain b q where x: "x = (b, q)" by force
      let ?g = "g[b := g ! b + 1]"
      have b: "b < length xs" "g ! b < fst (xs ! b)"
        using best_seat_correct [of xs g] Some x by (auto simp: eligible_def)
      have sum: "sum_list ?g = sum_list g + 1"
        using b 2(2) by (simp add: sum_list_update_int)
      have nonneg: "\<forall>i < length xs. 0 \<le> ?g ! i" using 2(2,3) b by (auto simp: nth_list_update)
      have "dhondt xs ?g" by (rule dhondt_step [OF 2(4) _ 2(2,3)]) (simp add: Some x)
      moreover have "length ?g = length xs" using 2(2) by simp
      ultimately have ih: "length (more_seats xs n ?g) = length xs"
        "\<forall>i < length xs. ?g ! i \<le> more_seats xs n ?g ! i \<and>
           more_seats xs n ?g ! i \<le> max (?g ! i) (fst (xs ! i))"
        "dhondt xs (more_seats xs n ?g)" "sum_list ?g \<le> sum_list (more_seats xs n ?g)"
        "sum_list (more_seats xs n ?g) \<le> sum_list ?g + int n"
        "sum_list (more_seats xs n ?g) = sum_list ?g + int n \<or> (\<forall>i. \<not> eligible xs (more_seats xs n ?g) i)"
        using 2(1) [OF Some x [symmetric]] nonneg by blast+
      have "g ! i \<le> ?g ! i \<and> max (?g ! i) (fst (xs ! i)) \<le> max (g ! i) (fst (xs ! i))"
        if "i < length xs" for i using that b 2(2) by (auto simp: nth_list_update)
      then have "\<forall>i < length xs. g ! i \<le> more_seats xs n ?g ! i \<and>
           more_seats xs n ?g ! i \<le> max (g ! i) (fst (xs ! i))" using ih(2) by (meson order_trans)
      moreover have "more_seats xs (Suc n) g = more_seats xs n ?g" by (simp add: Some x)
      ultimately show ?thesis using ih(1,3-6) sum by (simp add: add.assoc)
    qed
  qed simp
  then show "length r = length xs" and "\<forall>i < length xs. g ! i \<le> r ! i \<and> r ! i \<le> max (g ! i) (fst (xs ! i))"
    and "dhondt xs r" and "sum_list g \<le> sum_list r" and "sum_list r \<le> sum_list g + int n"
    and "sum_list r = sum_list g + int n \<or> (\<forall>i. \<not> eligible xs r i)" by auto
qed

lemma seats_for_correct:
  assumes "0 < limit" and "\<forall>x \<in> set xs. 1 \<le> fst x"
  defines "r \<equiv> seats_for xs limit"
  shows "length r = length xs" and "sum_list r \<le> limit"
    and "i < length xs \<Longrightarrow> 0 \<le> r ! i \<and> r ! i \<le> fst (xs ! i)"
    and "i < length xs \<Longrightarrow> int i < limit \<Longrightarrow> 1 \<le> r ! i"
    and "dhondt xs r"
    and "sum_list r < limit \<Longrightarrow> i < length xs \<Longrightarrow> r ! i = fst (xs ! i)"
proof -
  obtain g s where gs: "first_seats xs limit = (g, s)" by force
  note f = first_seats_props [OF gs less_imp_le [OF assms(1)]]
  have r: "r = more_seats xs (nat s) g" by (simp add: r_def seats_for_def gs)
  have g01: "\<forall>i < length xs. 0 \<le> g ! i" and g1: "\<forall>i < length xs. g ! i \<le> 1" using f(4) by auto
  have "dhondt xs g" using g1 by (force simp: dhondt_def)
  note m = more_seats_props [OF f(1) g01 this r]
  show "length r = length xs" "dhondt xs r" by (fact m)+
  show "sum_list r \<le> limit" using m(5) f(2,3) by simp
  have mem: "1 \<le> fst (xs ! i)" if "i < length xs" for i using assms(2) that nth_mem by blast
  show range: "0 \<le> r ! i \<and> r ! i \<le> fst (xs ! i)" if "i < length xs" for i
  proof -
    have "max (g ! i) (fst (xs ! i)) = fst (xs ! i)" using g1 mem [OF that] that by force
    then show ?thesis using m(2) g01 that by force
  qed
  show "i < length xs \<Longrightarrow> int i < limit \<Longrightarrow> 1 \<le> r ! i" using m(2) f(4) by force
  assume less: "sum_list r < limit" and i: "i < length xs"
  have s: "0 < s"
  proof (rule ccontr)
    assume "\<not> 0 < s"
    then show False using f(2,3) m(4) less by simp
  qed
  then have "sum_list r \<noteq> sum_list g + int (nat s)" using f(3) less by simp
  then have "\<not> eligible xs r i" using m(6) by blast
  moreover have "1 \<le> r ! i" using m(2) f(4) [OF i] f(5) [OF s] i by force
  ultimately show "r ! i = fst (xs ! i)" using range [OF i] i by (auto simp: eligible_def)
qed

lemma length_seats_for: "0 < limit \<Longrightarrow> length (seats_for xs limit) = length xs"
proof -
  have "length (more_seats xs n g) = length g" for n g
    by (induction xs n g rule: more_seats.induct) (auto split: option.splits)
  moreover assume "0 < limit"
  ultimately show ?thesis using first_seats_props(1) by (auto simp: seats_for_def split: prod.splits)
qed

section \<open>The cache\<close>

lemma set_membersOf: "set (membersOf h p) = {x \<in> set (members p). dm_host (snd x) = h}"
  by (auto simp: membersOf_def)

lemma keys_allocation:
  "map fst (allocation h p) = map fst (membersOf h p)"
  by (auto simp: allocation_def Let_def length_seats_for split: option.splits prod.splits)

lemma distinct_allocation:
  assumes "keys_ascend (members p)"
  shows "distinct (map fst (allocation h p))"
proof -
  have "distinct (map fst (filter (\<lambda>x. dm_host (snd x) = h) (members p)))"
    using keys_ascend_distinct [OF assms] by (simp add: distinct_map_filter)
  moreover have "mset (map fst (membersOf h p)) = mset (map fst (filter (\<lambda>x. dm_host (snd x) = h) (members p)))"
    by (simp add: membersOf_def)
  ultimately show ?thesis unfolding keys_allocation by (blast dest: mset_eq_imp_distinct_iff)
qed

lemma map_of_put_all: "map_of (fold (\<lambda>(m, n). map_put m n) xs al) = map_of al ++ map_of (rev xs)"
  by (induction xs arbitrary: al) (auto simp: map_of_map_put)

lemma map_of_allocate:
  assumes "keys_ascend (members p)"
  shows "map_of (allocate h p al) = map_of al ++ map_of (allocation h p)"
proof -
  have "map_of (rev (allocation h p)) = map_of (allocation h p)"
    using distinct_allocation [OF assms] by (subst map_of_inject_set) (simp_all add: rev_map [symmetric])
  then show ?thesis by (simp add: allocate_def map_of_put_all)
qed

lemma allocation_dom:
  assumes "keys_ascend (members p)" and "(m, d) \<in> set (members p)"
  shows "map_of (allocation h p) m \<noteq> None \<longleftrightarrow> dm_host d = h"
proof -
  have uniq: "(m, e) \<in> set (members p) \<Longrightarrow> e = d" for e
    using assms by (simp flip: map_of_in_set)
  have "map_of (allocation h p) m \<noteq> None \<longleftrightarrow> m \<in> set (map fst (allocation h p))"
    by (simp add: map_of_eq_None_iff)
  also have "\<dots> \<longleftrightarrow> m \<in> fst ` {x \<in> set (members p). dm_host (snd x) = h}"
    unfolding keys_allocation by (simp add: set_membersOf)
  also have "\<dots> \<longleftrightarrow> (\<exists>e. (m, e) \<in> set (members p) \<and> dm_host e = h)" by (auto simp: image_iff)
  also have "\<dots> \<longleftrightarrow> dm_host d = h" using uniq assms(2) by blast
  finally show ?thesis .
qed

lemma refresh_correct:
  assumes "keys_ascend (members p)" and "(m, d) \<in> set (members p)"
  shows "map_of (refresh p) m = map_of (allocation (dm_host d) p) m"
proof -
  let ?f = "\<lambda>x (finished, al). if dm_host (snd x) \<in> set finished then (finished, al)
            else (finished @ [dm_host (snd x)], allocate (dm_host (snd x)) p al)"
  have "set (fst (fold ?f xs ([], []))) = (\<lambda>x. dm_host (snd x)) ` set xs \<and>
    (dm_host d \<in> (\<lambda>x. dm_host (snd x)) ` set xs \<longrightarrow>
       map_of (snd (fold ?f xs ([], []))) m = map_of (allocation (dm_host d) p) m)" for xs
  proof (induction xs rule: rev_induct)
    case (snoc x xs)
    obtain fin al where fa: "fold ?f xs ([], []) = (fin, al)" by force
    note dom = allocation_dom [OF assms, of "dm_host (snd x)"]
    show ?case
    proof (cases "dm_host (snd x) \<in> set fin")
      case True
      then show ?thesis using snoc fa by auto
    next
      case False
      then have "dm_host d = dm_host (snd x) \<Longrightarrow> \<exists>n. map_of (allocation (dm_host (snd x)) p) m = Some n"
        and "dm_host d \<noteq> dm_host (snd x) \<Longrightarrow> map_of (allocation (dm_host (snd x)) p) m = None"
        using dom by auto
      then have "map_of (snd (fold ?f (xs @ [x]) ([], []))) m =
          (if dm_host d = dm_host (snd x) then map_of (allocation (dm_host d) p) m else map_of al m)"
        using False fa by (auto simp: map_of_allocate [OF assms(1)] map_add_def)
      then show ?thesis using snoc fa False by auto
    qed
  qed simp
  from this [of "members p"] assms(2) show ?thesis unfolding refresh_def by force
qed

section \<open>The invariant\<close>

definition coherent :: "pool \<Rightarrow> bool" where
  "coherent p = (\<not> stale p \<longrightarrow>
     (\<forall>x \<in> set (members p). map_of (allowances p) (fst x) = map_of (allocation (dm_host (snd x)) p) (fst x)))"

definition demand_ok :: "nat \<Rightarrow> demand \<Rightarrow> bool" where
  "demand_ok n d = (1 \<le> dm_wanted d \<and> 0 \<le> dm_transferring d \<and> dm_order d < n)"

definition pool_ok :: "pool \<Rightarrow> bool" where
  "pool_ok p =
     (keys_ascend (members p) \<and> keys_ascend (hosts p) \<and>
      (\<forall>x \<in> set (members p). demand_ok (nextOrder p) (snd x)) \<and>
      inj_on (\<lambda>x. dm_order (snd x)) (set (members p)) \<and>
      (\<forall>h. 0 < host_limit h p \<longrightarrow> host_transferring h (members p) \<le> host_limit h p) \<and>
      coherent p)"

lemma host_transferring_set:
  assumes "keys_ascend ms"
  shows "host_transferring h ms = (\<Sum>x \<in> set ms. if dm_host (snd x) = h then dm_transferring (snd x) else 0)"
  unfolding host_transferring_def using keys_ascend_distinct [OF assms]
  by (simp add: sum_list_distinct_conv_sum_set distinct_map)

lemma host_transferring_put:
  assumes "keys_ascend ms"
  shows "host_transferring h (map_put m d ms) =
    (if dm_host d = h then dm_transferring d else 0) + host_transferring h (map_erase m ms)"
  unfolding host_transferring_set [OF keys_ascend_map_put [OF assms]]
    host_transferring_set [OF keys_ascend_map_erase [OF assms]] set_map_put_eq [OF assms] set_map_erase
  by (subst sum.insert) auto

lemma host_transferring_erase:
  assumes "keys_ascend ms" and "\<forall>x \<in> set ms. 0 \<le> dm_transferring (snd x)"
  shows "host_transferring h (map_erase m ms) \<le> host_transferring h ms"
  unfolding host_transferring_set [OF assms(1)] host_transferring_set [OF keys_ascend_map_erase [OF assms(1)]]
    set_map_erase
  using assms(2) by (intro sum_mono2) auto

text \<open>What the seats depend on.\<close>

definition seat_key :: "member \<times> demand \<Rightarrow> member \<times> string \<times> int \<times> int \<times> nat" where
  "seat_key x = (fst x, dm_host (snd x), dm_wanted (snd x), dm_remaining (snd x), dm_order (snd x))"

lemma map_sort_key: "map f (sort_key (\<lambda>x. k (f x)) xs) = sort_key k (map f xs)"
proof -
  have ins: "map f (insort_key (\<lambda>x. k (f x)) x ys) = insort_key k (f x) (map f ys)" for x ys
    by (induction ys) auto
  show ?thesis by (induction xs) (simp_all add: ins)
qed

lemma allocation_cong:
  assumes "map seat_key (members p) = map seat_key (members q)" and "host_limit h p = host_limit h q"
  shows "allocation h p = allocation h q"
proof -
  have m: "map seat_key (membersOf h r) =
      sort_key (\<lambda>x. snd (snd (snd (snd x)))) (filter (\<lambda>x. fst (snd x) = h) (map seat_key (members r)))" for r
  proof -
    have key: "(\<lambda>x. snd (snd (snd (snd (seat_key x))))) = (\<lambda>x. dm_order (snd x))"
      and flt: "filter (\<lambda>x. fst (snd x) = h) (map seat_key (members r)) =
        map seat_key (filter (\<lambda>x. dm_host (snd x) = h) (members r))"
      by (simp_all add: seat_key_def filter_map o_def)
    show ?thesis unfolding membersOf_def flt
      using map_sort_key [of seat_key "\<lambda>x. snd (snd (snd (snd x)))"] unfolding key .
  qed
  define w where "w = (\<lambda>x :: member \<times> string \<times> int \<times> int \<times> nat. (fst (snd (snd x)), fst (snd (snd (snd x)))))"
  have a: "allocation h r = (let xs = map seat_key (membersOf h r) in
      if host_limit h r \<le> 0 then map (\<lambda>x. (fst x, fst (w x))) xs
      else zip (map fst xs) (seats_for (map w xs) (host_limit h r)))" for r
    by (auto simp: allocation_def host_limit_def Let_def seat_key_def w_def o_def case_prod_beta
        split: option.splits)
  show ?thesis unfolding a m assms ..
qed

lemma seat_keys_put_same:
  assumes "keys_ascend ms" and "map_of ms m = Some d" and "seat_key (m, d') = seat_key (m, d)"
  shows "map seat_key (map_put m d' ms) = map seat_key ms"
  using assms
proof (induction ms)
  case (Cons x ms)
  have "keys_ascend ms" and lt: "\<forall>y \<in> set ms. fst x < fst y" using Cons.prems by (auto simp: keys_ascend_def)
  show ?case
  proof (cases "fst x = m")
    case True
    then show ?thesis using Cons.prems by (cases x) auto
  next
    case False
    then have "map_of ms m = Some d" using Cons.prems by (cases x) auto
    moreover from this have "fst x < m" using lt by (force dest: map_of_SomeD)
    ultimately show ?thesis using Cons \<open>keys_ascend ms\<close> False by auto
  qed
qed simp

lemma coherent_cong:
  assumes "coherent p" and "allowances q = allowances p" and "stale q = stale p"
    and "map seat_key (members q) = map seat_key (members p)"
    and "\<And>x. x \<in> set (members q) \<Longrightarrow> host_limit (dm_host (snd x)) q = host_limit (dm_host (snd x)) p"
  shows "coherent q"
  unfolding coherent_def
proof (intro impI ballI)
  fix x
  assume "\<not> stale q" and x: "x \<in> set (members q)"
  have "seat_key x \<in> set (map seat_key (members p))" using x assms(4) by (metis image_eqI set_map)
  then obtain y where y: "y \<in> set (members p)" "seat_key y = seat_key x" by (metis (mono_tags) imageE set_map)
  have "map_of (allowances p) (fst y) = map_of (allocation (dm_host (snd y)) p) (fst y)"
    using assms(1,3) \<open>\<not> stale q\<close> y(1) by (simp add: coherent_def)
  moreover have "fst y = fst x" "dm_host (snd y) = dm_host (snd x)" using y(2) by (auto simp: seat_key_def)
  ultimately show "map_of (allowances q) (fst x) = map_of (allocation (dm_host (snd x)) q) (fst x)"
    using assms(2) allocation_cong [OF assms(4) assms(5) [OF x]] by simp
qed

lemma pool_okD:
  assumes "pool_ok p"
  shows "keys_ascend (members p)" and "keys_ascend (hosts p)"
    and "map_of (members p) m = Some d \<Longrightarrow> demand_ok (nextOrder p) d"
    and "0 < host_limit h p \<Longrightarrow> host_transferring h (members p) \<le> host_limit h p"
    and "coherent p" and "\<forall>x \<in> set (members p). 0 \<le> dm_transferring (snd x)"
  using assms by (auto simp: pool_ok_def demand_ok_def dest!: map_of_SomeD)

text \<open>Registering a demand, before the server's limit is looked at.\<close>

lemma pool_ok_put_member:
  assumes "pool_ok p" and "demand_ok n d" and "nextOrder p \<le> n"
    and "\<And>x. x \<in> set (members p) \<Longrightarrow> fst x \<noteq> m \<Longrightarrow> dm_order (snd x) \<noteq> dm_order d"
  defines "ms \<equiv> map_put m d (members p)"
  shows "keys_ascend ms" and "\<forall>x \<in> set ms. demand_ok n (snd x)"
    and "inj_on (\<lambda>x. dm_order (snd x)) (set ms)"
    and "dm_host d \<noteq> h \<Longrightarrow> host_transferring h ms \<le> host_transferring h (members p)"
proof -
  note asc = pool_okD(1) [OF assms(1)]
  show "keys_ascend ms" unfolding ms_def by (rule keys_ascend_map_put [OF asc])
  have old: "\<forall>x \<in> set (members p). demand_ok n (snd x)" "inj_on (\<lambda>x. dm_order (snd x)) (set (members p))"
    using assms(1,3) by (auto simp: pool_ok_def demand_ok_def)
  have set: "set ms = insert (m, d) {x \<in> set (members p). fst x \<noteq> m}"
    unfolding ms_def by (rule set_map_put_eq [OF asc])
  show "\<forall>x \<in> set ms. demand_ok n (snd x)" using assms(2) old(1) set by auto
  show "inj_on (\<lambda>x. dm_order (snd x)) (set ms)"
    unfolding set using old(2) assms(4) by (fastforce simp: inj_on_def)
  show "host_transferring h ms \<le> host_transferring h (members p)" if "dm_host d \<noteq> h"
    using that host_transferring_erase [OF asc pool_okD(6) [OF assms(1)]]
    unfolding ms_def host_transferring_put [OF asc] by simp
qed

lemma pool_ok_update:
  assumes "pool_ok p" and "0 \<le> t"
  shows "pool_ok (pool_update m h w r t p)"
proof -
  define added where "added = (map_of (members p) m = None)"
  define d where "d = (case map_of (members p) m of None \<Rightarrow> new_demand\<lparr>dm_order := nextOrder p\<rparr> | Some d \<Rightarrow> d)"
  define d' where "d' = d\<lparr>dm_host := h, dm_wanted := max 1 w, dm_remaining := r, dm_transferring := t\<rparr>"
  define n where "n = nextOrder p + (if added then 1 else 0)"
  define ms where "ms = map_put m d' (members p)"
  define q where "q = p\<lparr>nextOrder := n, stale := (stale p \<or> added \<or> dm_host d \<noteq> h \<or> dm_wanted d \<noteq> w \<or>
      dm_remaining d \<noteq> r), members := ms\<rparr>"
  note defs = added_def d_def d'_def n_def ms_def q_def
  have eq: "pool_update m h w r t p = (if 0 < host_limit h p \<and> host_limit h p < host_transferring h ms
      then q\<lparr>hosts := map_put h ((the (map_of (hosts p) h))\<lparr>h_limit := host_transferring h ms\<rparr>) (hosts p),
             stale := True\<rparr> else q)"
    by (simp add: pool_update_def defs host_limit_def Let_def split: option.splits)
  have ord: "dm_order d < n"
    using pool_okD(3) [OF assms(1)] by (auto simp: d_def n_def added_def demand_ok_def split: option.splits)
  have "demand_ok n d'" using ord assms(2) by (simp add: demand_ok_def d'_def)
  moreover have "dm_order (snd x) \<noteq> dm_order d'" if x: "x \<in> set (members p)" "fst x \<noteq> m" for x
  proof (cases "map_of (members p) m")
    case None
    then show ?thesis using assms(1) x by (auto simp: pool_ok_def demand_ok_def d'_def d_def)
  next
    case (Some e)
    then have "(m, e) \<in> set (members p)" by (rule map_of_SomeD)
    then show ?thesis using assms(1) x Some by (fastforce simp: pool_ok_def inj_on_def d'_def d_def)
  qed
  ultimately have put: "keys_ascend ms" "\<forall>x \<in> set ms. demand_ok n (snd x)" "inj_on (\<lambda>x. dm_order (snd x)) (set ms)"
    "\<And>k. k \<noteq> h \<Longrightarrow> host_transferring k ms \<le> host_transferring k (members p)"
    using pool_ok_put_member [OF assms(1), of n d' m] by (auto simp: ms_def n_def d'_def)
  have lim: "0 < host_limit k p \<Longrightarrow> host_transferring k ms \<le> host_limit k p" if "k \<noteq> h" for k
    using put(4) [OF that] pool_okD(4) [OF assms(1)] by (meson order_trans)
  have coh: "coherent q"
  proof (cases "stale q")
    case False
    then have same: "map_of (members p) m = Some d" "dm_host d = h" "dm_wanted d = w" "dm_remaining d = r"
      by (auto simp: q_def added_def d_def split: option.splits)
    have "seat_key (m, d') = seat_key (m, d)"
      using same pool_okD(3) [OF assms(1) same(1)] by (simp add: seat_key_def d'_def demand_ok_def)
    from seat_keys_put_same [OF pool_okD(1) [OF assms(1)] same(1) this]
    show ?thesis using False
      by (intro coherent_cong [OF pool_okD(5) [OF assms(1)]]) (auto simp: q_def ms_def host_limit_def)
  qed (simp add: coherent_def)
  show ?thesis
  proof (cases "0 < host_limit h p \<and> host_limit h p < host_transferring h ms")
    case True
    then show ?thesis using put lim pool_okD(2) [OF assms(1)]
      by (auto simp: eq pool_ok_def q_def coherent_def host_limit_def map_of_map_put keys_ascend_map_put)
  next
    case False
    then have "0 < host_limit k p \<Longrightarrow> host_transferring k ms \<le> host_limit k p" for k
      using lim by (cases "k = h") auto
    then show ?thesis using put coh pool_okD(2) [OF assms(1)] False
      by (auto simp: eq pool_ok_def q_def host_limit_def)
  qed
qed

lemma pool_ok_leave:
  assumes "pool_ok p"
  shows "pool_ok (leave m p)"
proof (cases "map_of (members p) m")
  case (Some d)
  let ?ms = "map_erase m (members p)"
  have le: "host_transferring k ?ms \<le> host_transferring k (members p)" for k
    by (rule host_transferring_erase [OF pool_okD(1) [OF assms] pool_okD(6) [OF assms]])
  have lim: "0 < host_limit k p \<Longrightarrow> host_transferring k ?ms \<le> host_limit k p" for k
    using le [of k] pool_okD(4) [OF assms] by (meson order_trans)
  have ms: "keys_ascend ?ms" "\<forall>x \<in> set ?ms. demand_ok (nextOrder p) (snd x)"
    "inj_on (\<lambda>x. dm_order (snd x)) (set ?ms)"
    using assms by (auto simp: pool_ok_def set_map_erase keys_ascend_map_erase intro: inj_on_subset)
  show ?thesis using ms lim pool_okD(2) [OF assms] Some
    by (auto simp: leave_def Let_def pool_ok_def coherent_def host_limit_def map_of_map_erase
        keys_ascend_map_erase)
qed (use assms in \<open>simp add: leave_def\<close>)

lemma pool_ok_allowance:
  assumes "pool_ok p"
  shows "pool_ok (snd (allowance m p))"
proof (cases "map_of (members p) m = None \<or> \<not> stale p")
  case True
  then show ?thesis using assms by (auto simp: allowance_def Let_def split: option.splits)
next
  case False
  let ?q = "p\<lparr>allowances := refresh p, stale := False\<rparr>"
  have "allocation k ?q = allocation k p" for k
    by (rule allocation_cong) (simp_all add: host_limit_def)
  then have "coherent ?q"
    using refresh_correct [OF pool_okD(1) [OF assms]] by (simp add: coherent_def)
  moreover have "snd (allowance m p) = ?q" using False by (auto simp: allowance_def Let_def)
  ultimately show ?thesis using assms by (simp add: pool_ok_def host_limit_def)
qed

lemma pool_ok_overloaded:
  assumes "pool_ok p"
  shows "pool_ok (pool_overloaded m sent now ready p)"
proof (cases "map_of (members p) m")
  case (Some d)
  let ?h = "dm_host d"
  define st where "st = (case map_of (hosts p) ?h of None \<Rightarrow> new_host | Some st \<Rightarrow> st)"
  have limit: "h_limit st = host_limit ?h p"
    by (simp add: st_def host_limit_def new_host_def split: option.splits)
  show ?thesis
  proof (cases "0 < h_limit st \<and> sent < h_dropped st")
    case True
    let ?q = "p\<lparr>hosts := map_put ?h (st\<lparr>h_readyAt := max (h_readyAt st) ready\<rparr>) (hosts p)\<rparr>"
    have eq: "pool_overloaded m sent now ready p = ?q"
      using True Some by (simp add: pool_overloaded_def Let_def flip: st_def)
    have same: "host_limit k ?q = host_limit k p" for k
      using limit by (simp add: host_limit_def map_of_map_put)
    have "coherent ?q" by (rule coherent_cong [OF pool_okD(5) [OF assms]]) (simp_all add: same)
    then show ?thesis using assms unfolding eq by (simp add: pool_ok_def same keys_ascend_map_put)
  next
    case False
    let ?st = "drop_limit now (host_transferring ?h (members p)) (st\<lparr>h_readyAt := max (h_readyAt st) ready\<rparr>)"
    have st': "h_limit ?st = max 1 (host_transferring ?h (members p))"
      by (simp add: drop_limit_def Let_def)
    have eq: "pool_overloaded m sent now ready p = p\<lparr>hosts := map_put ?h ?st (hosts p), stale := True\<rparr>"
      using False Some by (auto simp: pool_overloaded_def Let_def simp flip: st_def)
    show ?thesis using assms st' unfolding eq
      by (simp add: pool_ok_def coherent_def host_limit_def map_of_map_put keys_ascend_map_put)
  qed
qed (use assms in \<open>simp add: pool_overloaded_def\<close>)

lemma tick_limit:
  assumes "pool_ok p"
  shows "map_of (hosts (pool_tick now p)) h =
    (case map_of (hosts p) h of None \<Rightarrow> None | Some st \<Rightarrow> fst (tick_host now (members p) h st))"
  using pool_okD(2) [OF assms] by (simp add: pool_tick_def map_of_map_each)

lemma pool_ok_tick:
  assumes "pool_ok p"
  shows "pool_ok (pool_tick now p)"
proof -
  let ?q = "pool_tick now p"
  have ms: "members ?q = members p" "nextOrder ?q = nextOrder p" "allowances ?q = allowances p"
    by (simp_all add: pool_tick_def)
  have lim: "0 < host_limit h ?q \<Longrightarrow> host_transferring h (members p) \<le> host_limit h ?q" for h
    using pool_okD(4) [OF assms, of h]
    by (auto simp: host_limit_def tick_limit [OF assms] tick_host_def Let_def split: option.splits if_splits)
  have coh: "coherent ?q"
  proof (cases "stale ?q")
    case False
    then have nochange: "\<forall>(h, st) \<in> set (hosts p). \<not> snd (tick_host now (members p) h st)"
      and st: "\<not> stale p" by (auto simp: pool_tick_def list_ex_iff)
    have "host_limit (dm_host (snd x)) ?q = host_limit (dm_host (snd x)) p" if "x \<in> set (members p)" for x
    proof (cases "map_of (hosts p) (dm_host (snd x))")
      case (Some st)
      have "\<not> snd (tick_host now (members p) (dm_host (snd x)) st)"
        using nochange map_of_SomeD [OF Some] by auto
      moreover have "filter (\<lambda>y. dm_host (snd y) = dm_host (snd x)) (members p) \<noteq> []"
        using that by (auto simp: filter_empty_conv)
      ultimately show ?thesis using Some
        by (auto simp: host_limit_def tick_limit [OF assms] tick_host_def Let_def split: if_splits)
    qed (simp add: host_limit_def tick_limit [OF assms])
    then show ?thesis using st False
      by (intro coherent_cong [OF pool_okD(5) [OF assms]]) (auto simp: ms)
  qed (simp add: coherent_def)
  show ?thesis
    using assms lim coh by (auto simp: pool_ok_def ms pool_tick_def keys_ascend_map_each)
qed

section \<open>Every history of calls\<close>

inductive pool_step :: "pool \<Rightarrow> pool \<Rightarrow> bool" where
  step_update: "0 \<le> t \<Longrightarrow> pool_step p (pool_update m h w r t p)"
| step_leave: "pool_step p (leave m p)"
| step_allowance: "pool_step p (snd (allowance m p))"
| step_overloaded: "pool_step p (pool_overloaded m sent now ready p)"
| step_tick: "pool_step p (pool_tick now p)"

inductive pool_reachable :: "pool \<Rightarrow> bool" where
  pool_new: "pool_reachable new_pool"
| pool_next: "pool_reachable p \<Longrightarrow> pool_step p q \<Longrightarrow> pool_reachable q"

lemma pool_reachable_ok: "pool_reachable p \<Longrightarrow> pool_ok p"
proof (induction rule: pool_reachable.induct)
  case pool_new
  then show ?case
    by (simp add: pool_ok_def new_pool_def coherent_def keys_ascend_def host_limit_def)
next
  case (pool_next p q)
  from pool_next(2,3) show ?case
    by cases (simp_all add: pool_ok_update pool_ok_leave pool_ok_allowance pool_ok_overloaded pool_ok_tick)
qed

lemma membersOf_ok:
  assumes "pool_ok p"
  shows "\<forall>x \<in> set (map (\<lambda>x. (dm_wanted (snd x), dm_remaining (snd x))) (membersOf h p)). 1 \<le> fst x"
  using assms by (auto simp: set_membersOf pool_ok_def demand_ok_def)

section \<open>Recovery\<close>

fun spaced :: "time_point \<Rightarrow> time_point list \<Rightarrow> bool" where
  "spaced c [] = True"
| "spaced c (t # ts) = (c + calmPeriod \<le> t \<and> spaced t ts)"

definition host_wanted :: "string \<Rightarrow> pool \<Rightarrow> int" where
  "host_wanted h p = (\<Sum>x \<leftarrow> filter (\<lambda>x. dm_host (snd x) = h) (members p). dm_wanted (snd x))"

lemma tick_unlimited:
  assumes "pool_ok p" and "host_limit h p \<le> 0"
  shows "host_limit h (fold pool_tick ts p) \<le> 0"
  using assms
proof (induction ts arbitrary: p)
  case (Cons t ts)
  have "host_limit h (pool_tick t p) \<le> 0"
    using Cons.prems(2) unfolding host_limit_def tick_limit [OF Cons.prems(1)]
    by (auto simp: tick_host_def Let_def split: option.splits)
  then show ?case using Cons.IH [OF pool_ok_tick [OF Cons.prems(1)]] by simp
qed simp

lemma tick_calm:
  assumes "pool_ok p" and "map_of (hosts p) h = Some st" and "0 < h_limit st"
    and "h_calmSince st + calmPeriod \<le> t" and "filter (\<lambda>x. dm_host (snd x) = h) (members p) \<noteq> []"
  shows "map_of (hosts (pool_tick t p)) h =
    Some (st\<lparr>h_limit := (if h_limit st + 1 \<ge> host_wanted h p then 0 else h_limit st + 1),
             h_strikes := 0, h_calmSince := t\<rparr>)"
  unfolding tick_limit [OF assms(1)] using assms(2-)
  by (auto simp: tick_host_def host_wanted_def Let_def)

lemma recovers:
  assumes "pool_ok p" and "map_of (hosts p) h = Some st" and "0 < h_limit st"
    and "filter (\<lambda>x. dm_host (snd x) = h) (members p) \<noteq> []"
    and "spaced (h_calmSince st) ts" and "ts \<noteq> []" and "host_wanted h p - h_limit st \<le> int (length ts)"
  shows "host_limit h (fold pool_tick ts p) \<le> 0"
  using assms
proof (induction ts arbitrary: p st)
  case (Cons t ts)
  let ?q = "pool_tick t p"
  have t: "h_calmSince st + calmPeriod \<le> t" "spaced t ts" using Cons.prems(5) by auto
  note q = tick_calm [OF Cons.prems(1,2,3) t(1) Cons.prems(4)]
  have same: "members ?q = members p" "host_wanted h ?q = host_wanted h p"
    by (simp_all add: pool_tick_def host_wanted_def)
  show ?case
  proof (cases "h_limit st + 1 \<ge> host_wanted h p")
    case True
    then have "host_limit h ?q \<le> 0" using q by (simp add: host_limit_def)
    then show ?thesis using tick_unlimited [OF pool_ok_tick [OF Cons.prems(1)]] by simp
  next
    case False
    then have "ts \<noteq> []" using Cons.prems(7) by auto
    have "host_limit h (fold pool_tick ts ?q) \<le> 0"
      by (rule Cons.IH [OF pool_ok_tick [OF Cons.prems(1)] q])
        (use False Cons.prems(3,4,7) t \<open>ts \<noteq> []\<close> in \<open>simp_all add: same\<close>)
    then show ?thesis by simp
  qed
qed simp

section \<open>Properties\<close>

text \<open>A server with a limit of three connections and two downloads.\<close>

definition sample_pool :: pool where
  "sample_pool = pool_overloaded 2 90 100 0
     (pool_update 2 ''h'' 4 100 1 (pool_update 1 ''h'' 8 3000 2 new_pool))"

lemma sample_pool_reachable: "pool_reachable sample_pool"
  unfolding sample_pool_def
  by (intro pool_next [OF pool_next [OF pool_next [OF pool_new step_update] step_update] step_overloaded])
    simp_all

lemma sample_pool_eq:
  "sample_pool =
    \<lparr>members = [(1, \<lparr>dm_host = ''h'', dm_wanted = 8, dm_remaining = 3000, dm_transferring = 2, dm_order = 0\<rparr>),
                (2, \<lparr>dm_host = ''h'', dm_wanted = 4, dm_remaining = 100, dm_transferring = 1, dm_order = 1\<rparr>)],
     hosts = [(''h'', \<lparr>h_limit = 3, h_strikes = 1, h_calmSince = 100, h_dropped = 100, h_readyAt = 1000000100\<rparr>)],
     allowances = [], stale = True, nextOrder = 2\<rparr>"
  by (simp add: sample_pool_def pool_overloaded_def pool_update_def new_pool_def new_demand_def new_host_def
      drop_limit_def host_transferring_def Let_def calmPeriod_def maxPause_def)

text \<open>
  C10. The cached allowances never go stale: whatever calls came before, \<open>allowance\<close> answers with
  the share a fresh allocation of the member's server gives now.
\<close>

theorem allowance_is_fresh:
  assumes "pool_reachable p" and "map_of (members p) m = Some d"
  shows "map_of (allocation (dm_host d) p) m = Some (fst (allowance m p))"
proof -
  have ok: "pool_ok p" by (rule pool_reachable_ok [OF assms(1)])
  have mem: "(m, d) \<in> set (members p)" by (rule map_of_SomeD [OF assms(2)])
  have "map_of (allocation (dm_host d) p) m \<noteq> None" using allocation_dom [OF pool_okD(1) [OF ok] mem] by simp
  moreover have "map_of (refresh p) m = map_of (allocation (dm_host d) p) m"
    by (rule refresh_correct [OF pool_okD(1) [OF ok] mem])
  moreover have "\<not> stale p \<Longrightarrow> map_of (allowances p) m = map_of (allocation (dm_host d) p) m"
    using pool_okD(5) [OF ok] mem by (force simp: coherent_def)
  ultimately show ?thesis using assms(2) by (auto simp: allowance_def Let_def)
qed

theorem allowance_is_fresh_witness:
  "map_of (allocation ''h'' sample_pool) 1 = Some (fst (allowance 1 sample_pool))"
  using allowance_is_fresh [OF sample_pool_reachable, of 1] by (simp add: sample_pool_eq)

text \<open>
  C11. The seats of a limited server: together they never exceed the limit, nobody gets more
  than it wants, the earliest downloads get one each, none is left unused while somebody
  wants more, and the distribution is a D'Hondt allocation by remaining bytes.
\<close>

theorem seats_shared_fairly:
  assumes "pool_reachable p" and "0 < host_limit h p"
  shows "let xs = membersOf h p; r = map snd (allocation h p) in
    length r = length xs \<and> sum_list r \<le> host_limit h p \<and>
    (\<forall>i < length xs. 0 \<le> r ! i \<and> r ! i \<le> dm_wanted (snd (xs ! i)) \<and>
       (int i < host_limit h p \<longrightarrow> 1 \<le> r ! i) \<and>
       (sum_list r < host_limit h p \<longrightarrow> r ! i = dm_wanted (snd (xs ! i)))) \<and>
    dhondt (map (\<lambda>x. (dm_wanted (snd x), dm_remaining (snd x))) xs) r"
proof -
  let ?w = "map (\<lambda>x. (dm_wanted (snd x), dm_remaining (snd x))) (membersOf h p)"
  have "map snd (allocation h p) = seats_for ?w (host_limit h p)"
    using assms(2) by (auto simp: allocation_def host_limit_def Let_def length_seats_for split: option.splits)
  moreover note seats_for_correct [OF assms(2) membersOf_ok [OF pool_reachable_ok [OF assms(1)], of h]]
  ultimately show ?thesis by simp
qed

theorem seats_shared_fairly_witness:
  "sum_list (map snd (allocation ''h'' sample_pool)) \<le> 3 \<and>
   dhondt [(8, 3000), (4, 100)] (map snd (allocation ''h'' sample_pool))"
proof -
  have lim: "host_limit ''h'' sample_pool = 3" by (simp add: sample_pool_eq host_limit_def)
  have ms: "map (\<lambda>x. (dm_wanted (snd x), dm_remaining (snd x))) (membersOf ''h'' sample_pool) =
      [(8, 3000), (4, 100)]" by (simp add: sample_pool_eq membersOf_def)
  show ?thesis using seats_shared_fairly [OF sample_pool_reachable, of "''h''"] unfolding lim Let_def ms by simp
qed

text \<open>
  C23. Connections the server serves are proof that it accepts them: a limit is never below
  the number of connections delivering from the server.
\<close>

theorem limit_covers_served:
  assumes "pool_reachable p" and "0 < host_limit h p"
  shows "host_transferring h (members p) \<le> host_limit h p"
  by (rule pool_okD(4) [OF pool_reachable_ok [OF assms(1)] assms(2)])

theorem limit_covers_served_witness: "host_transferring ''h'' (members sample_pool) \<le> 3"
  using limit_covers_served [OF sample_pool_reachable, of "''h''"]
  by (simp add: sample_pool_eq host_limit_def)

text \<open>
  The limit drops once per window: a refusal of a request sent before the last drop only
  postpones the next request. Any other refusal sets the limit to the connections served
  (at least one) and pauses the server for 1 to 8 seconds, 1 second for a first strike and
  twice as long for each strike in a row.
\<close>

theorem overload_window:
  assumes "map_of (members p) m = Some d" and "map_of (hosts p) (dm_host d) = Some st"
  shows "let q = pool_overloaded m sent now ready p;
             strikes = (if now - h_calmSince st < calmPeriod then h_strikes st + 1 else 1) in
    h_readyAt st \<le> readyAt m q \<and> ready \<le> readyAt m q \<and>
    (if 0 < h_limit st \<and> sent < h_dropped st
     then host_limit (dm_host d) q = h_limit st \<and> readyAt m q = max (h_readyAt st) ready
     else host_limit (dm_host d) q = max 1 (host_transferring (dm_host d) (members p)) \<and>
       now + seconds (min 8 (2 ^ nat (min (strikes - 1) 5))) \<le> readyAt m q \<and>
       readyAt m q \<le> max (max (h_readyAt st) ready) (now + seconds 8))"
  using assms
  by (auto simp: pool_overloaded_def Let_def readyAt_def host_limit_def map_of_map_put drop_limit_def
      maxPause_def min_def split: if_splits)


text \<open>
  A limit does not last: while somebody uses the server, calm periods without overload
  lift it after as many ticks as connections are missing (at least one).
\<close>

theorem limit_recovers:
  assumes "pool_reachable p" and "map_of (hosts p) h = Some st" and "0 < h_limit st"
    and "(m, d) \<in> set (members p)" and "dm_host d = h"
    and "spaced (h_calmSince st) ts" and "ts \<noteq> []" and "host_wanted h p - h_limit st \<le> int (length ts)"
  shows "host_limit h (fold pool_tick ts p) \<le> 0"
proof -
  have "filter (\<lambda>x. dm_host (snd x) = h) (members p) \<noteq> []"
    using assms(4,5) by (force simp: filter_empty_conv)
  from recovers [OF pool_reachable_ok [OF assms(1)] assms(2,3) this assms(6-8)] show ?thesis .
qed


end
