(* ===== verification/Speed.thy ===== *)
theory Speed
  imports Prelude
begin

text \<open>
  Transfer rates and speed limits: \<open>SpeedMeter\<close> and \<open>RateLimit\<close> of \<open>core/Speed.h\<close>. Time points and
  durations are nanoseconds; \<open>duration<double>\<close> is their quotient by \<open>10^9\<close>, rounded. The clock is
  steady: the time passed to a call is never before the time of the previous one.
\<close>

section \<open>Model\<close>

subsection \<open>The meter\<close>

record speed_meter =
  slots :: "int list"
  cursor :: nat
  slotStart :: int
  sm_begin :: int
  sm_total :: int

definition meter_slot :: int where
  "meter_slot = 500000000"

definition new_meter :: speed_meter where
  "new_meter = \<lparr>slots = replicate 8 0, cursor = 0, slotStart = 0, sm_begin = 0, sm_total = 0\<rparr>"

definition count_seconds :: "int \<Rightarrow> double" where
  "count_seconds d = ddiv (to_double d) 1000000000"

text \<open>One iteration of the loop of \<open>advance\<close>.\<close>

definition advance_slot :: "int \<Rightarrow> speed_meter \<Rightarrow> speed_meter" where
  "advance_slot now m =
     (let c = (cursor m + 1) mod length (slots m);
          m = m\<lparr>cursor := c, slots := (slots m)[c := 0], slotStart := slotStart m + meter_slot\<rparr>
      in if now - slotStart m > meter_slot * int (length (slots m))
         then m\<lparr>slots := map (\<lambda>_. 0) (slots m), slotStart := now\<rparr> else m)"

function advance_slots :: "int \<Rightarrow> speed_meter \<Rightarrow> speed_meter" where
  "advance_slots now m =
     (if now - slotStart m \<ge> meter_slot then advance_slots now (advance_slot now m) else m)"
  by pat_completeness auto
termination
  by (relation "measure (\<lambda>(now, m). nat (now - slotStart m))")
    (auto simp: advance_slot_def Let_def meter_slot_def)

declare advance_slots.simps [simp del]

definition advance :: "int \<Rightarrow> speed_meter \<Rightarrow> speed_meter" where
  "advance now m =
     advance_slots now (if slotStart m = 0 then m\<lparr>slotStart := now, sm_begin := now\<rparr> else m)"

definition meter_add :: "int \<Rightarrow> int \<Rightarrow> speed_meter \<Rightarrow> speed_meter" where
  "meter_add n now m =
     (let m = advance now m
      in m\<lparr>slots := (slots m)[cursor m := slots m ! cursor m + n], sm_total := sm_total m + n\<rparr>)"

definition meter_rate :: "int \<Rightarrow> speed_meter \<Rightarrow> int \<times> speed_meter" where
  "meter_rate now m =
     (let m = advance now m;
          s = sum_list (slots m);
          window = count_seconds (min (meter_slot * (int (length (slots m)) - 1) + (now - slotStart m))
                                      (now - sm_begin m))
      in (if window > 0 then to_int64 (ddiv (to_double s) window) else 0, m))"

subsection \<open>The token bucket\<close>

record rate_limit =
  rate :: int
  tokens :: int
  stamp :: int

definition new_limit :: "int \<Rightarrow> rate_limit" where
  "new_limit now = \<lparr>rate = 0, tokens = 0, stamp = now\<rparr>"

definition burst :: "rate_limit \<Rightarrow> int" where
  "burst l = max (rate l sdiv 2) 16384"

definition setRate :: "int \<Rightarrow> rate_limit \<Rightarrow> rate_limit" where
  "setRate r l = (let l = l\<lparr>rate := r\<rparr> in l\<lparr>tokens := min (tokens l) (burst l)\<rparr>)"

definition unlimited :: "rate_limit \<Rightarrow> bool" where
  "unlimited l = (rate l \<le> 0)"

definition earned :: "int \<Rightarrow> int \<Rightarrow> int" where
  "earned elapsed r = to_int64 (dmul (count_seconds elapsed) (to_double r))"

definition refill :: "int \<Rightarrow> rate_limit \<Rightarrow> rate_limit" where
  "refill now l =
     l\<lparr>stamp := now, tokens := min (burst l) (tokens l + earned (now - stamp l) (rate l))\<rparr>"

definition take_tokens :: "int \<Rightarrow> int \<Rightarrow> rate_limit \<Rightarrow> int \<times> rate_limit" where
  "take_tokens wanted now l =
     (if unlimited l then (wanted, l)
      else let l = refill now l; granted = min wanted (max (tokens l) 0)
           in (granted, l\<lparr>tokens := tokens l - granted\<rparr>))"

definition charge :: "int \<Rightarrow> int \<Rightarrow> rate_limit \<Rightarrow> rate_limit" where
  "charge n now l =
     (if unlimited l then l else let l = refill now l in l\<lparr>tokens := tokens l - n\<rparr>)"

definition available :: "int \<Rightarrow> rate_limit \<Rightarrow> bool \<times> rate_limit" where
  "available now l = (if unlimited l then (True, l) else let l = refill now l in (tokens l > 0, l))"

section \<open>The meter's window\<close>

definition meter_ok :: "int \<Rightarrow> speed_meter \<Rightarrow> bool" where
  "meter_ok now m =
     (length (slots m) = 8 \<and> cursor m < 8 \<and> (\<forall>v \<in> set (slots m). 0 \<le> v) \<and>
      sum_list (slots m) \<le> sm_total m \<and> slotStart m \<le> now \<and> sm_begin m \<le> slotStart m)"

lemma advance_slot_ok:
  assumes "meter_ok now m" and "meter_slot \<le> now - slotStart m"
  shows "meter_ok now (advance_slot now m)"
proof -
  let ?c = "(cursor m + 1) mod 8"
  have c: "?c < length (slots m)" using assms by (simp add: meter_ok_def)
  then have "slots m ! ?c \<in> set (slots m)" by simp
  then have "0 \<le> slots m ! ?c" "sum_list (slots m) \<le> sm_total m" using assms by (auto simp: meter_ok_def)
  then have "sum_list ((slots m)[?c := 0]) \<le> sm_total m" using c by (simp add: sum_list_update_int)
  moreover have "0 \<le> sm_total m"
    using assms sum_list_nonneg [of "slots m"] by (fastforce simp: meter_ok_def)
  moreover have "\<forall>v \<in> set ((slots m)[?c := 0]). 0 \<le> v"
    using assms set_update_subset_insert [of "slots m" ?c 0] by (auto simp: meter_ok_def)
  ultimately show ?thesis using assms
    by (auto simp: meter_ok_def advance_slot_def Let_def meter_slot_def map_replicate_const sum_list_replicate)
qed

lemma advance_slots_ok:
  "meter_ok now m \<Longrightarrow> meter_ok now (advance_slots now m) \<and> now - slotStart (advance_slots now m) < meter_slot \<and>
     sm_total (advance_slots now m) = sm_total m \<and> sm_begin (advance_slots now m) = sm_begin m"
proof (induction now m rule: advance_slots.induct)
  case (1 now m)
  have keep: "sm_total (advance_slot now m) = sm_total m" "sm_begin (advance_slot now m) = sm_begin m"
    by (simp_all add: advance_slot_def Let_def)
  show ?case
  proof (cases "meter_slot \<le> now - slotStart m")
    case True
    then show ?thesis
      using 1(1) [OF True advance_slot_ok [OF 1(2) True]] keep
      by (simp add: advance_slots.simps [of now m])
  next
    case False
    then show ?thesis using 1(2) by (simp add: advance_slots.simps [of now m])
  qed
qed

lemma advance_ok:
  assumes "meter_ok prev m" and "prev \<le> now"
  shows "meter_ok now (advance now m)" and "now - slotStart (advance now m) < meter_slot"
    and "sm_total (advance now m) = sm_total m"
proof -
  let ?m = "if slotStart m = 0 then m\<lparr>slotStart := now, sm_begin := now\<rparr> else m"
  have "meter_ok now ?m" using assms by (auto simp: meter_ok_def)
  from advance_slots_ok [OF this] show "meter_ok now (advance now m)"
    and "now - slotStart (advance now m) < meter_slot" and "sm_total (advance now m) = sm_total m"
    by (auto simp: advance_def)
qed

text \<open>A meter nobody fed for the whole window reads zero.\<close>

lemma advance_idle:
  assumes "meter_ok prev m" and "slotStart m \<noteq> 0" and "slotStart m + 9 * meter_slot < now"
  shows "sum_list (slots (advance now m)) = 0"
proof -
  let ?m = "advance_slot now m"
  have len: "length (slots m) = 8" using assms(1) by (simp add: meter_ok_def)
  have m': "slotStart ?m = now" "slots ?m = replicate 8 0"
    using assms(3) len by (auto simp: advance_slot_def Let_def meter_slot_def map_replicate_const)
  have "advance now m = advance_slots now m" using assms(2) by (simp add: advance_def)
  also have "\<dots> = advance_slots now ?m"
    using assms(3) by (subst advance_slots.simps) (simp add: meter_slot_def)
  also have "\<dots> = ?m" using m' by (simp add: advance_slots.simps [of now ?m] meter_slot_def)
  finally show ?thesis using m' by (simp add: sum_list_replicate)
qed

section \<open>The bucket\<close>

text \<open>The calls that spend tokens, with the bytes each lets through.\<close>

datatype spend = Take int | Charge int | Available

definition spend_at :: "int \<times> spend \<Rightarrow> rate_limit \<Rightarrow> int \<times> rate_limit" where
  "spend_at x l =
     (case snd x of
        Take w \<Rightarrow> take_tokens w (fst x) l
      | Charge n \<Rightarrow> (n, charge n (fst x) l)
      | Available \<Rightarrow> (0, snd (available (fst x) l)))"

fun spend_all :: "(int \<times> spend) list \<Rightarrow> rate_limit \<Rightarrow> int \<times> rate_limit" where
  "spend_all [] l = (0, l)"
| "spend_all (x # xs) l =
     (let (n, l) = spend_at x l; (k, l) = spend_all xs l in (n + k, l))"

text \<open>The tokens earned over the calls, each rounded down on its own.\<close>

fun earnings :: "int \<Rightarrow> int \<Rightarrow> (int \<times> spend) list \<Rightarrow> int" where
  "earnings r t [] = 0"
| "earnings r t (x # xs) = earned (fst x - t) r + earnings r (fst x) xs"

lemma take_bounds:
  assumes "\<not> unlimited l" and "0 \<le> w"
  shows "0 \<le> fst (take_tokens w now l)" and "fst (take_tokens w now l) \<le> w"
    and "tokens (snd (take_tokens w now l)) \<le> burst l"
  using assms by (simp_all add: take_tokens_def refill_def Let_def min_def max_def burst_def)

lemma spend_at_conserves:
  assumes "\<not> unlimited l" and "spend_at x l = (n, l')"
  shows "rate l' = rate l" and "stamp l' = fst x" and "n + tokens l' \<le> tokens l + earned (fst x - stamp l) (rate l)"
  using assms
  by (auto simp: spend_at_def take_tokens_def charge_def available_def refill_def Let_def unlimited_def
      split: spend.splits)

lemma spend_all_conserves:
  assumes "\<not> unlimited l" and "spend_all xs l = (n, l')"
  shows "n + tokens l' \<le> tokens l + earnings (rate l) (stamp l) xs"
  using assms
proof (induction xs arbitrary: l n)
  case (Cons x xs)
  obtain k m where k: "spend_at x l = (k, m)" by force
  obtain j where j: "spend_all xs m = (j, l')" and n: "n = k + j"
    using Cons.prems(2) k by (auto split: prod.splits)
  note s = spend_at_conserves [OF Cons.prems(1) k]
  have "\<not> unlimited m" using Cons.prems(1) s(1) by (simp add: unlimited_def)
  from Cons.IH [OF this j] show ?case using s(1-3) n by simp
qed simp

section \<open>Properties\<close>

text \<open>
  The meter keeps eight half-second slots of non-negative counts that never hold more than
  was added, its current slot contains the present, and adding counts every byte once in
  the total; after 4.5 seconds without data the rate reads zero.
\<close>

theorem meter_add_window:
  assumes "meter_ok prev m" and "prev \<le> now" and "0 \<le> n"
  shows "meter_ok now (meter_add n now m) \<and> sm_total (meter_add n now m) = sm_total m + n \<and>
    now - slotStart (meter_add n now m) < meter_slot \<and>
    (slotStart m \<noteq> 0 \<and> slotStart m + 9 * meter_slot < now \<longrightarrow> fst (meter_rate now m) = 0)"
proof -
  let ?a = "advance now m"
  note a = advance_ok [OF assms(1,2)]
  have len: "length (slots ?a) = 8" "cursor ?a < 8" and nn: "\<forall>v \<in> set (slots ?a). 0 \<le> v"
    using a(1) by (auto simp: meter_ok_def)
  have sum: "sum_list ((slots ?a)[cursor ?a := slots ?a ! cursor ?a + n]) = sum_list (slots ?a) + n"
    using len by (simp add: sum_list_update_int)
  have "0 \<le> slots ?a ! cursor ?a" using nn len by simp
  then have "\<forall>v \<in> set ((slots ?a)[cursor ?a := slots ?a ! cursor ?a + n]). 0 \<le> v"
    using nn assms(3) set_update_subset_insert [of "slots ?a" "cursor ?a"] by fastforce
  then have "meter_ok now (meter_add n now m)" using a(1) sum by (simp add: meter_ok_def meter_add_def Let_def)
  moreover have "fst (meter_rate now m) = 0" if "slotStart m \<noteq> 0" "slotStart m + 9 * meter_slot < now"
    using advance_idle [OF assms(1) that] by (simp add: meter_rate_def Let_def ddiv_def to_int64_def)
  ultimately show ?thesis using a by (simp add: meter_add_def Let_def)
qed




end
