(* ===== verification/Text.thy ===== *)
theory Text
  imports Prelude
begin

text \<open>
  The text helpers of \<open>base/Text.h\<close> and \<open>base/Text.cc\<close>. A \<open>std::string\<close> is a list of bytes
  (\<open>char\<close>); \<open>of_char\<close> is the conversion to \<open>unsigned char\<close>. The number formats that rest on C++
  streams (\<open>toDouble\<close>, \<open>toSize\<close>, \<open>formatSize\<close>) are not modelled.

  The lemmas show the round trips of the three encodings, that \<open>isUtf8\<close> accepts exactly the
  encodings of Unicode scalar values, and that \<open>repairUtf8\<close> and \<open>latin1ToUtf8\<close> produce such
  text.
\<close>

section \<open>Model\<close>

subsection \<open>Trimming, splitting, joining\<close>

definition is_space :: "char \<Rightarrow> bool" where
  "is_space c = (of_char c \<in> {32, 9, 13, 10, 11, 12 :: nat})"

definition trim :: "string \<Rightarrow> string" where
  "trim s = rev (dropWhile is_space (rev (dropWhile is_space s)))"

text \<open>The loop of \<open>split\<close>: one part up to the next separator, then the rest after it.\<close>

function split_text :: "string \<Rightarrow> char \<Rightarrow> bool \<Rightarrow> string list" where
  "split_text s c keepEmpty =
     (let part = trim (takeWhile (\<lambda>x. x \<noteq> c) s);
          front = (if keepEmpty \<or> part \<noteq> [] then [part] else [])
      in case dropWhile (\<lambda>x. x \<noteq> c) s of
           [] \<Rightarrow> front
         | _ # rest \<Rightarrow> front @ split_text rest c keepEmpty)"
  by pat_completeness auto
termination
proof (relation "measure (\<lambda>(s, c, k). length s)", goal_cases)
  case (2 s c k part front y rest)
  then have "length (y # rest) \<le> length s" using length_dropWhile_le [of "\<lambda>x. x \<noteq> c" s] by simp
  then show ?case by simp
qed simp

declare split_text.simps [simp del]

definition join :: "string list \<Rightarrow> string \<Rightarrow> string" where
  "join vs glue = fold (\<lambda>v r. (if r \<noteq> [] then r @ glue else r) @ v) vs []"

definition lower_char :: "char \<Rightarrow> char" where
  "lower_char c = (if 65 \<le> (of_char c :: nat) \<and> of_char c \<le> (90 :: nat) then char_of (of_char c + 32 :: nat) else c)"

definition lower :: "string \<Rightarrow> string" where
  "lower s = map lower_char s"

definition iequals :: "string \<Rightarrow> string \<Rightarrow> bool" where
  "iequals a b = (length a = length b \<and> lower a = lower b)"

definition istartsWith :: "string \<Rightarrow> string \<Rightarrow> bool" where
  "istartsWith s p = (length p \<le> length s \<and> iequals (take (length p) s) p)"

text \<open>The replacement goes on after the inserted text, so it never finds itself.\<close>

fun replace_from :: "string \<Rightarrow> string \<Rightarrow> string \<Rightarrow> string" where
  "replace_from [] pat to = []"
| "replace_from (c # s) pat to =
     (if pat \<noteq> [] \<and> take (length pat) (c # s) = pat
      then to @ replace_from (drop (length pat) (c # s)) pat to
      else c # replace_from s pat to)"

definition replaceAll :: "string \<Rightarrow> string \<Rightarrow> string \<Rightarrow> string" where
  "replaceAll s pat to = (if pat = [] then s else replace_from s pat to)"

subsection \<open>UTF-8\<close>

definition utf8_length :: "nat \<Rightarrow> nat" where
  "utf8_length c =
     (if c < 0x80 then 1 else if c div 32 = 0x6 then 2 else if c div 16 = 0xe then 3
      else if c div 8 = 0x1e then 4 else 0)"

text \<open>The loop over the continuation bytes.\<close>

fun utf8_code :: "nat \<Rightarrow> nat list \<Rightarrow> nat option" where
  "utf8_code code [] = Some code"
| "utf8_code code (x # xs) = (if x div 64 \<noteq> 2 then None else utf8_code (code * 64 + x mod 64) xs)"

text \<open>\<open>utf8Sequence(value, i)\<close>, on the bytes from position \<open>i\<close>.\<close>

definition utf8Sequence :: "string \<Rightarrow> nat" where
  "utf8Sequence s =
     (let c = of_char (hd s) :: nat; n = utf8_length c
      in if n = 0 \<or> n > length s \<or> (n = 2 \<and> c < 0xc2) \<or> (n = 4 \<and> c > 0xf4) then 0
         else case utf8_code (if n = 1 then c else c mod 2 ^ (7 - n)) (map of_char (take (n - 1) (tl s))) of
                None \<Rightarrow> 0
              | Some code \<Rightarrow>
                  if (n = 3 \<and> (code < 0x800 \<or> 0xd800 \<le> code \<and> code \<le> 0xdfff)) \<or>
                     (n = 4 \<and> (code < 0x10000 \<or> code > 0x10ffff)) then 0 else n)"

fun isUtf8 :: "string \<Rightarrow> bool" where
  "isUtf8 [] = True"
| "isUtf8 (c # s) =
     (let n = utf8Sequence (c # s) in if n = 0 then False else isUtf8 (drop (n - 1) s))"

definition replacement_char :: string where
  "replacement_char = map char_of [0xEF, 0xBF, 0xBD :: nat]"

fun repairUtf8 :: "string \<Rightarrow> string" where
  "repairUtf8 [] = []"
| "repairUtf8 (c # s) =
     (let n = utf8Sequence (c # s)
      in if n \<noteq> 0 then take n (c # s) @ repairUtf8 (drop (n - 1) s)
         else replacement_char @ repairUtf8 s)"

definition latin1ToUtf8 :: "string \<Rightarrow> string" where
  "latin1ToUtf8 s =
     concat (map (\<lambda>ch. let c = of_char ch :: nat
                       in if c < 0x80 then [ch]
                          else [char_of (0xc0 + c div 64), char_of (0x80 + c mod 64)]) s)"

subsection \<open>Hexadecimal and percent encoding\<close>

definition hexValue :: "char \<Rightarrow> int" where
  "hexValue ch =
     (let c = of_char ch :: int
      in if 48 \<le> c \<and> c \<le> 57 then c - 48
         else if 97 \<le> c \<and> c \<le> 102 then c - 97 + 10
         else if 65 \<le> c \<and> c \<le> 70 then c - 65 + 10
         else - 1)"

definition hex_byte :: "char \<Rightarrow> char \<Rightarrow> char" where
  "hex_byte h l = char_of (nat (16 * hexValue h + hexValue l))"

fun percentDecode :: "string \<Rightarrow> string" where
  "percentDecode (c # h # l # s) =
     (if c = CHR ''%'' \<and> hexValue h \<ge> 0 \<and> hexValue l \<ge> 0
      then hex_byte h l # percentDecode s
      else c # percentDecode (h # l # s))"
| "percentDecode s = s"

definition unreserved :: "char \<Rightarrow> bool" where
  "unreserved ch =
     (let c = of_char ch :: nat
      in (65 \<le> c \<and> c \<le> 90) \<or> (97 \<le> c \<and> c \<le> 122) \<or> (48 \<le> c \<and> c \<le> 57) \<or>
         ch = CHR ''-'' \<or> ch = CHR ''.'' \<or> ch = CHR ''_'' \<or> ch = CHR ''~'')"

definition percentEncode :: "string \<Rightarrow> string" where
  "percentEncode s =
     concat (map (\<lambda>ch. if unreserved ch then [ch]
                       else [CHR ''%'', ''0123456789ABCDEF'' ! (of_char ch div 16),
                             ''0123456789ABCDEF'' ! (of_char ch mod 16)]) s)"

definition hex_digit :: "nat \<Rightarrow> char" where
  "hex_digit n = ''0123456789abcdef'' ! n"

definition toHex :: "string \<Rightarrow> string" where
  "toHex s = concat (map (\<lambda>ch. [hex_digit (of_char ch div 16), hex_digit (of_char ch mod 16)]) s)"

text \<open>The loop of \<open>fromHex\<close>; the length is tested first.\<close>

fun from_hex_pairs :: "string \<Rightarrow> string option" where
  "from_hex_pairs (h # l # s) =
     (if hexValue h < 0 \<or> hexValue l < 0 then None
      else map_option (\<lambda>r. hex_byte h l # r) (from_hex_pairs s))"
| "from_hex_pairs s = Some []"

definition fromHex :: "string \<Rightarrow> string option" where
  "fromHex s = (if length s mod 2 \<noteq> 0 then None else from_hex_pairs s)"

subsection \<open>Base64\<close>

definition alphabet :: string where
  "alphabet = ''ABCDEFGHIJKLMNOPQRSTUVWXYZabcdefghijklmnopqrstuvwxyz0123456789+/''"

fun base64Encode :: "string \<Rightarrow> string" where
  "base64Encode [] = []"
| "base64Encode [a] =
     (let block = of_char a * 65536 :: nat
      in [alphabet ! (block div 2 ^ 18 mod 64), alphabet ! (block div 2 ^ 12 mod 64), CHR ''='', CHR ''=''])"
| "base64Encode [a, b] =
     (let block = of_char a * 65536 + of_char b * 256 :: nat
      in [alphabet ! (block div 2 ^ 18 mod 64), alphabet ! (block div 2 ^ 12 mod 64),
          alphabet ! (block div 2 ^ 6 mod 64), CHR ''=''])"
| "base64Encode (a # b # c # s) =
     (let block = of_char a * 65536 + of_char b * 256 + of_char c :: nat
      in alphabet ! (block div 2 ^ 18 mod 64) # alphabet ! (block div 2 ^ 12 mod 64) #
         alphabet ! (block div 2 ^ 6 mod 64) # alphabet ! (block mod 64) # base64Encode s)"

definition base64_value :: "char \<Rightarrow> nat option" where
  "base64_value c =
     (if c = CHR ''-'' then Some 62 else if c = CHR ''_'' then Some 63
      else if c \<in> set alphabet then Some (length (takeWhile (\<lambda>x. x \<noteq> c) alphabet)) else None)"

text \<open>\<open>block\<close> is a \<open>uint32_t\<close>: shifting left drops the bits beyond 32.\<close>

fun base64_decode :: "nat \<Rightarrow> nat \<Rightarrow> string \<Rightarrow> string option" where
  "base64_decode block bits [] = Some []"
| "base64_decode block bits (ch # s) =
     (if ch = CHR ''='' \<or> of_char ch \<in> {13, 10, 32 :: nat} then base64_decode block bits s
      else case base64_value ch of
             None \<Rightarrow> None
           | Some v \<Rightarrow>
               (let block = (block * 64 + v) mod 2 ^ 32; bits = bits + 6
                in if bits \<ge> 8
                   then map_option (\<lambda>r. char_of (block div 2 ^ (bits - 8) mod 256) # r)
                          (base64_decode block (bits - 8) s)
                   else base64_decode block bits s))"

definition base64Decode :: "string \<Rightarrow> string option" where
  "base64Decode s = base64_decode 0 0 s"

subsection \<open>Numbers\<close>

definition is_digit :: "char \<Rightarrow> bool" where
  "is_digit c = (48 \<le> (of_char c :: nat) \<and> of_char c \<le> (57 :: nat))"

definition digits_value :: "string \<Rightarrow> int" where
  "digits_value s = fold (\<lambda>c v. v * 10 + (of_char c - 48)) s 0"

text \<open>
  \<open>std::from_chars\<close> for \<open>int64_t\<close> on the whole text: an optional minus and decimal digits, a
  result out of range is an error. The caller also refuses negative results.
\<close>

definition toInt :: "string \<Rightarrow> int option" where
  "toInt s =
     (let neg = (s \<noteq> [] \<and> hd s = CHR ''-''); ds = (if neg then tl s else s);
          v = (if neg then - digits_value ds else digits_value ds)
      in if ds = [] \<or> \<not> list_all is_digit ds \<or> v < - (2 ^ 63) \<or> v > 2 ^ 63 - 1 \<or> v < 0
         then None else Some v)"

text \<open>\<open>fmt::format("{}", n)\<close> for a non-negative number.\<close>

fun decimal :: "nat \<Rightarrow> string" where
  "decimal n = (if n < 10 then [char_of (48 + n)] else decimal (n div 10) @ [char_of (48 + n mod 10)])"

declare decimal.simps [simp del]

definition formatDuration :: "int \<Rightarrow> string" where
  "formatDuration s =
     (let show = (\<lambda>i. if i < 0 then CHR ''-'' # decimal (nat (- i)) else decimal (nat i))
      in if s \<ge> 3600 then show (s sdiv 3600) @ ''h'' @ show (s smod 3600 sdiv 60) @ ''m'' @ show (s smod 60) @ ''s''
         else if s \<ge> 60 then show (s sdiv 60) @ ''m'' @ show (s smod 60) @ ''s''
         else show s @ ''s'')"

section \<open>Round trips\<close>

lemma of_char_less [simp]: "(of_char c :: nat) < 256"
  by (rule nat_of_char_less_256)

lemma hexValue_hex_digit: "n < 16 \<Longrightarrow> hexValue (hex_digit n) = int n"
  and hexValue_upper_digit: "n < 16 \<Longrightarrow> hexValue (''0123456789ABCDEF'' ! n) = int n"
proof -
  have "\<forall>n \<in> set [0..<16]. hexValue (hex_digit n) = int n \<and> hexValue (''0123456789ABCDEF'' ! n) = int n"
    by code_simp
  then show "n < 16 \<Longrightarrow> hexValue (hex_digit n) = int n"
    and "n < 16 \<Longrightarrow> hexValue (''0123456789ABCDEF'' ! n) = int n" by auto
qed

lemma hex_byte_parts:
  assumes "hexValue h = int (of_char c div 16)" and "hexValue l = int (of_char c mod 16)"
  shows "hex_byte h l = c"
proof -
  have "16 * int (of_char c div 16) + int (of_char c mod 16) = int (16 * (of_char c div 16) + of_char c mod 16)"
    by (simp only: of_nat_add of_nat_mult of_nat_numeral)
  also have "16 * (of_char c div 16) + of_char c mod 16 = (of_char c :: nat)" by (rule mult_div_mod_eq)
  finally show ?thesis by (simp add: hex_byte_def assms)
qed

lemma from_hex_pairs_toHex: "from_hex_pairs (toHex s) = Some s"
proof (induction s)
  case (Cons c s)
  have d: "of_char c div 16 < (16::nat)" using of_char_less [of c] by linarith
  then have "hex_byte (hex_digit (of_char c div 16)) (hex_digit (of_char c mod 16)) = c"
    by (intro hex_byte_parts) (simp_all add: hexValue_hex_digit)
  with d Cons show ?case by (simp add: toHex_def hexValue_hex_digit)
qed (simp add: toHex_def)

lemma length_toHex: "length (toHex s) = 2 * length s"
  by (induction s) (auto simp: toHex_def)

lemma percentDecode_other: "c \<noteq> CHR ''%'' \<Longrightarrow> percentDecode (c # s) = c # percentDecode s"
  by (cases s; cases "tl s") auto

lemma percentDecode_Encode: "percentDecode (percentEncode s) = s"
proof (induction s)
  case (Cons c s)
  show ?case
  proof (cases "unreserved c")
    case True
    then have "c \<noteq> CHR ''%''" by (auto simp: unreserved_def)
    then show ?thesis using True Cons by (simp add: percentEncode_def percentDecode_other)
  next
    case False
    let ?h = "''0123456789ABCDEF'' ! (of_char c div 16)" and ?l = "''0123456789ABCDEF'' ! (of_char c mod 16)"
    have d: "of_char c div 16 < (16::nat)" using of_char_less [of c] by linarith
    have e: "percentEncode (c # s) = CHR ''%'' # ?h # ?l # percentEncode s"
      using False by (simp add: percentEncode_def)
    have "hexValue ?h = int (of_char c div 16)" "hexValue ?l = int (of_char c mod 16)"
      using d hexValue_upper_digit by (simp_all only: mod_less_divisor zero_less_numeral)
    with hex_byte_parts [OF this] show ?thesis unfolding e by (simp only: percentDecode.simps Cons) simp
  qed
qed (simp add: percentEncode_def)

lemma base64_value_alphabet:
  assumes "n < 64"
  shows "base64_value (alphabet ! n) = Some n" and "alphabet ! n \<noteq> CHR ''=''"
    and "(of_char (alphabet ! n) :: nat) \<notin> {13, 10, 32}"
proof -
  have len: "length alphabet = 64" and dist: "distinct alphabet"
    and none: "\<forall>c \<in> set alphabet. c \<noteq> CHR ''='' \<and> c \<noteq> CHR ''-'' \<and> c \<noteq> CHR ''_'' \<and>
      (of_char c :: nat) \<notin> {13, 10, 32}"
    by (simp_all add: alphabet_def)
  have mem: "alphabet ! n \<in> set alphabet" using assms len by simp
  have "takeWhile (\<lambda>x. x \<noteq> alphabet ! n) alphabet = take n alphabet"
    using assms len dist by (intro takeWhile_eq_take_P_nth) (auto simp: nth_eq_iff_index_eq)
  then show "base64_value (alphabet ! n) = Some n"
    using mem none assms len by (simp add: base64_value_def)
  show "alphabet ! n \<noteq> CHR ''=''" and "(of_char (alphabet ! n) :: nat) \<notin> {13, 10, 32}"
    using mem none by auto
qed

lemma base64_step:
  assumes "n < 64"
  shows "base64_decode block bits (alphabet ! n # s) =
    (let block = (block * 64 + n) mod 2 ^ 32; bits = bits + 6
     in if bits \<ge> 8
        then map_option (\<lambda>r. char_of (block div 2 ^ (bits - 8) mod 256) # r) (base64_decode block (bits - 8) s)
        else base64_decode block bits s)"
  using base64_value_alphabet [OF assms] by simp

lemma base64_pad: "base64_decode block bits (CHR ''='' # s) = base64_decode block bits s"
  by simp

declare base64_decode.simps(2) [simp del]

text \<open>Only the low bits of \<open>block\<close> are read, so its earlier contents do not matter.\<close>

lemma low_byte: "k \<le> 24 \<Longrightarrow> x mod 2 ^ 32 div 2 ^ k mod 256 = x div 2 ^ k mod (256::nat)"
proof -
  assume "k \<le> 24"
  then have "min 8 (32 - k) = 8" by simp
  then have "take_bit 8 (drop_bit k (take_bit 32 x)) = take_bit 8 (drop_bit k x)"
    by (simp add: drop_bit_take_bit)
  then show ?thesis by (simp only: take_bit_eq_mod drop_bit_eq_div) simp
qed

lemma div_digit: "r < n \<Longrightarrow> (n * q + r) div n = (q::nat)"
  by simp

lemma mod_digit: "r < n \<Longrightarrow> (n * q + r) mod n = (r::nat)"
  by simp

lemma base64_block:
  assumes "a < 256" and "b < 256" and "c < (256::nat)"
  defines "block \<equiv> a * 65536 + b * 256 + c"
  shows "block div 2 ^ 18 mod 64 = a div 4" and "block div 2 ^ 12 mod 64 = a mod 4 * 16 + b div 16"
    and "block div 2 ^ 6 mod 64 = b mod 16 * 4 + c div 64"
proof -
  define q r t u where "q = a div 4" and "r = a mod 4" and "t = b div 16" and "u = b mod 16"
  have ab: "a = 4 * q + r" "b = 16 * t + u" "r < 4" "u < 16" "q < 64" "t < 16"
    using assms(1,2) unfolding q_def r_def t_def u_def by (simp_all add: less_mult_imp_div_less)
  define v w where "v = c div 64" and "w = c mod 64"
  have c: "c = 64 * v + w" "w < 64" "v < 4" using assms(3) unfolding v_def w_def by (simp_all add: less_mult_imp_div_less)
  have block: "block = 262144 * q + 4096 * (16 * r + t) + 64 * (4 * u + v) + w"
    by (simp add: block_def ab c)
  have ab': "16 * r + t \<le> 63" "4 * u + v \<le> 63" "w \<le> 63" using ab(3,4,6) c(2,3) by linarith+
  have "4096 * (16 * r + t) + (64 * (4 * u + v) + w) < 262144" and "64 * (4 * u + v) + w < 4096"
    using mult_le_mono2 [OF ab'(1), of 4096] mult_le_mono2 [OF ab'(2), of 64] ab'(3) by simp_all
  then have div1: "block div 262144 = q" and div2: "block div 4096 = 64 * q + (16 * r + t)"
    and div3: "block div 64 = 64 * (64 * q + (16 * r + t)) + (4 * u + v)"
    using div_digit [of "4096 * (16 * r + t) + (64 * (4 * u + v) + w)" 262144 q]
      div_digit [of "64 * (4 * u + v) + w" 4096 "64 * q + (16 * r + t)"]
      div_digit [OF c(2), of "64 * (64 * q + (16 * r + t)) + (4 * u + v)"]
    by (simp_all add: block algebra_simps)
  show "block div 2 ^ 18 mod 64 = a div 4" using ab(5) div1 by (simp add: q_def)
  have "(64 * q + (16 * r + t)) mod 64 = 16 * r + t" using ab' by simp
  then show "block div 2 ^ 12 mod 64 = a mod 4 * 16 + b div 16" using div2 by (simp add: r_def t_def)
  have "(64 * (64 * q + (16 * r + t)) + (4 * u + v)) mod 64 = 4 * u + v"
    using ab'(2) by (subst mod_mult_self4) simp
  then show "block div 2 ^ 6 mod 64 = b mod 16 * 4 + c div 64" using div3 by (simp add: u_def v_def)
qed

lemma base64_shift: "((x mod M) * 64 + n) mod M = (x * 64 + n) mod (M::nat)"
  by (metis mod_add_left_eq mod_mult_left_eq)

lemma char_of_low: "k \<le> 24 \<Longrightarrow> char_of (x mod 2 ^ 32 div 2 ^ k) = char_of (x div 2 ^ k :: nat)"
  using low_byte [of k x] by (metis char_of_mod_256)

lemma base64_two:
  assumes "m < 64" and "n < 64"
  shows "base64_decode B 0 (alphabet ! m # alphabet ! n # s) =
    map_option (\<lambda>r. char_of (((B * 64 + m) * 64 + n) div 2 ^ 4) # r)
      (base64_decode (((B * 64 + m) * 64 + n) mod 2 ^ 32) 4 s)"
proof -
  let ?Y = "(B * 64 + m) * 64 + n"
  have "base64_decode B 0 (alphabet ! m # alphabet ! n # s) =
      map_option (\<lambda>r. char_of (?Y mod 2 ^ 32 div 2 ^ 4) # r) (base64_decode (?Y mod 2 ^ 32) 4 s)"
    using base64_shift [of "B * 64 + m" "2 ^ 32" n] by (simp add: base64_step assms Let_def)
  moreover have "char_of (?Y mod 2 ^ 32 div 2 ^ 4) = char_of (?Y div 2 ^ 4 :: nat)" by (rule char_of_low) simp
  ultimately show ?thesis by (simp only:)
qed

lemma base64_three:
  assumes "n < 64"
  shows "base64_decode (X mod 2 ^ 32) 4 (alphabet ! n # s) =
    map_option (\<lambda>r. char_of ((X * 64 + n) div 2 ^ 2) # r) (base64_decode ((X * 64 + n) mod 2 ^ 32) 2 s)"
proof -
  have "base64_decode (X mod 2 ^ 32) 4 (alphabet ! n # s) =
      map_option (\<lambda>r. char_of ((X * 64 + n) mod 2 ^ 32 div 2 ^ 2) # r) (base64_decode ((X * 64 + n) mod 2 ^ 32) 2 s)"
    using base64_shift [of X "2 ^ 32" n] by (simp add: base64_step assms Let_def)
  moreover have "char_of ((X * 64 + n) mod 2 ^ 32 div 2 ^ 2) = char_of ((X * 64 + n) div 2 ^ 2 :: nat)"
    by (rule char_of_low) simp
  ultimately show ?thesis by (simp only:)
qed

lemma base64_four:
  assumes "n < 64"
  shows "base64_decode (X mod 2 ^ 32) 2 (alphabet ! n # s) =
    map_option (\<lambda>r. char_of (X * 64 + n) # r) (base64_decode ((X * 64 + n) mod 2 ^ 32) 0 s)"
proof -
  have "base64_decode (X mod 2 ^ 32) 2 (alphabet ! n # s) =
      map_option (\<lambda>r. char_of ((X * 64 + n) mod 2 ^ 32 div 2 ^ 0) # r) (base64_decode ((X * 64 + n) mod 2 ^ 32) 0 s)"
    using base64_shift [of X "2 ^ 32" n] by (simp add: base64_step assms Let_def)
  moreover have "char_of ((X * 64 + n) mod 2 ^ 32 div 2 ^ 0) = char_of ((X * 64 + n) div 2 ^ 0 :: nat)"
    by (rule char_of_low) simp
  ultimately show ?thesis by (simp only: power_0 div_by_1)
qed

lemma base64_bytes:
  assumes "b < 256" and "c < (256::nat)"
  shows "((B * 64 + a div 4) * 64 + (a mod 4 * 16 + b div 16)) div 2 ^ 4 = B * 256 + a"
    and "(((B * 64 + a div 4) * 64 + (a mod 4 * 16 + b div 16)) * 64 + (b mod 16 * 4 + c div 64)) div 2 ^ 2
      = (B * 256 + a) * 256 + b"
    and "(((B * 64 + a div 4) * 64 + (a mod 4 * 16 + b div 16)) * 64 + (b mod 16 * 4 + c div 64)) * 64 + c mod 64
      = ((B * 256 + a) * 256 + b) * 256 + c"
proof -
  have a: "(B * 64 + a div 4) * 64 + (a mod 4 * 16 + b div 16) = (B * 256 + a) * 16 + b div 16"
    by presburger
  then show "((B * 64 + a div 4) * 64 + (a mod 4 * 16 + b div 16)) div 2 ^ 4 = B * 256 + a"
    using assms(1) by simp
  have b: "((B * 256 + a) * 16 + b div 16) * 64 + (b mod 16 * 4 + c div 64) = ((B * 256 + a) * 256 + b) * 4 + c div 64"
    by presburger
  have "c div 64 < 4" using assms(2) by linarith
  then show "(((B * 64 + a div 4) * 64 + (a mod 4 * 16 + b div 16)) * 64 + (b mod 16 * 4 + c div 64)) div 2 ^ 2
      = (B * 256 + a) * 256 + b" unfolding a b by (intro div_nat_eqI) simp_all
  show "(((B * 64 + a div 4) * 64 + (a mod 4 * 16 + b div 16)) * 64 + (b mod 16 * 4 + c div 64)) * 64 + c mod 64
      = ((B * 256 + a) * 256 + b) * 256 + c" unfolding a b by presburger
qed

lemma char_of_add_256: "char_of (x * 256 + of_char c :: nat) = c"
  by (metis char_of_char char_of_mod_256 mod_mult_self3)

lemma base64_indices:
  "of_char a div 4 < (64::nat)" "of_char a mod 4 * 16 + of_char b div 16 < (64::nat)"
  "of_char b mod 16 * 4 + of_char c div 64 < (64::nat)" "of_char c mod 64 < (64::nat)"
  using of_char_less [of a] of_char_less [of b] of_char_less [of c] by linarith+

lemma base64_bytes_chars:
  "char_of (((B * 64 + of_char a div 4 :: nat) * 64 + (of_char a mod 4 * 16 + of_char b div 16)) div 2 ^ 4) = a"
  "char_of ((((B * 64 + of_char a div 4 :: nat) * 64 + (of_char a mod 4 * 16 + of_char b div 16)) * 64 +
     (of_char b mod 16 * 4 + of_char c div 64)) div 2 ^ 2) = b"
  "char_of ((((B * 64 + of_char a div 4 :: nat) * 64 + (of_char a mod 4 * 16 + of_char b div 16)) * 64 +
     (of_char b mod 16 * 4 + of_char c div 64)) * 64 + of_char c mod 64) = c"
  unfolding base64_bytes [OF of_char_less of_char_less] by (rule char_of_add_256)+

lemma of_char_0: "(of_char CHR 0x00 :: nat) = 0"
  by simp

lemma base64Encode_eqs:
  "base64Encode [a] = [alphabet ! (of_char a div 4), alphabet ! (of_char a mod 4 * 16 + of_char CHR 0x00 div 16),
     CHR ''='', CHR ''='']"
  "base64Encode [a, b] = [alphabet ! (of_char a div 4), alphabet ! (of_char a mod 4 * 16 + of_char b div 16),
     alphabet ! (of_char b mod 16 * 4 + of_char CHR 0x00 div 64), CHR ''='']"
  "base64Encode (a # b # c # s) = alphabet ! (of_char a div 4) # alphabet ! (of_char a mod 4 * 16 + of_char b div 16) #
     alphabet ! (of_char b mod 16 * 4 + of_char c div 64) # alphabet ! (of_char c mod 64) # base64Encode s"
proof -
  note block = base64_block [OF of_char_less of_char_less of_char_less]
  show "base64Encode [a] = [alphabet ! (of_char a div 4), alphabet ! (of_char a mod 4 * 16 + of_char CHR 0x00 div 16),
     CHR ''='', CHR ''='']"
    using block [of a "CHR 0x00" "CHR 0x00"] unfolding base64Encode.simps Let_def of_char_0 by simp
  show "base64Encode [a, b] = [alphabet ! (of_char a div 4), alphabet ! (of_char a mod 4 * 16 + of_char b div 16),
     alphabet ! (of_char b mod 16 * 4 + of_char CHR 0x00 div 64), CHR ''='']"
    using block [of a b "CHR 0x00"] unfolding base64Encode.simps Let_def of_char_0 add_0_right by (simp only:)
  have "(of_char a * 65536 + of_char b * 256 + of_char c) mod 64 = (64 * (1024 * of_char a + 4 * of_char b) + of_char c) mod (64::nat)"
    by (simp add: algebra_simps)
  also have "\<dots> = of_char c mod 64" by (simp only: mod_mult_self4)
  finally show "base64Encode (a # b # c # s) = alphabet ! (of_char a div 4) # alphabet ! (of_char a mod 4 * 16 + of_char b div 16) #
     alphabet ! (of_char b mod 16 * 4 + of_char c div 64) # alphabet ! (of_char c mod 64) # base64Encode s"
    using block [of a b c] unfolding base64Encode.simps Let_def by (simp only:)
qed

lemma base64_roundtrip: "base64_decode B 0 (base64Encode s) = Some s"
proof (induction s arbitrary: B rule: base64Encode.induct)
  case (2 a)
  show ?case
    unfolding base64Encode_eqs base64_two [OF base64_indices(1,2)] base64_pad base64_bytes_chars by simp
next
  case (3 a b)
  show ?case
    unfolding base64Encode_eqs base64_two [OF base64_indices(1,2)] base64_three [OF base64_indices(3)]
      base64_pad base64_bytes_chars by simp
next
  case (4 a b c s)
  show ?case
    unfolding base64Encode_eqs base64_two [OF base64_indices(1,2)] base64_three [OF base64_indices(3)]
      base64_four [OF base64_indices(4)] base64_bytes_chars 4 [OF refl] by simp
qed simp

section \<open>UTF-8\<close>

text \<open>The reference: the encoding of a Unicode scalar value.\<close>

definition scalar :: "nat \<Rightarrow> bool" where
  "scalar cp = (cp \<le> 0x10ffff \<and> \<not> (0xd800 \<le> cp \<and> cp \<le> 0xdfff))"

definition utf8_bytes :: "nat \<Rightarrow> nat list" where
  "utf8_bytes cp =
     (if cp < 0x80 then [cp]
      else if cp < 0x800 then [0xc0 + cp div 64, 0x80 + cp mod 64]
      else if cp < 0x10000 then [0xe0 + cp div 4096, 0x80 + cp div 64 mod 64, 0x80 + cp mod 64]
      else [0xf0 + cp div 262144, 0x80 + cp div 4096 mod 64, 0x80 + cp div 64 mod 64, 0x80 + cp mod 64])"

definition utf8_encode :: "nat \<Rightarrow> string" where
  "utf8_encode cp = map char_of (utf8_bytes cp)"

text \<open>\<open>utf8Sequence\<close> on numbers, with the decoded value.\<close>

definition utf8_decode1 :: "nat list \<Rightarrow> (nat \<times> nat) option" where
  "utf8_decode1 bs =
     (let c = hd bs; n = utf8_length c
      in if n = 0 \<or> n > length bs \<or> (n = 2 \<and> c < 0xc2) \<or> (n = 4 \<and> c > 0xf4) then None
         else case utf8_code (if n = 1 then c else c mod 2 ^ (7 - n)) (take (n - 1) (tl bs)) of
                None \<Rightarrow> None
              | Some code \<Rightarrow>
                  if (n = 3 \<and> (code < 0x800 \<or> 0xd800 \<le> code \<and> code \<le> 0xdfff)) \<or>
                     (n = 4 \<and> (code < 0x10000 \<or> code > 0x10ffff)) then None else Some (n, code))"

lemma utf8Sequence_decode1:
  "s \<noteq> [] \<Longrightarrow> utf8Sequence s = (case utf8_decode1 (map of_char s) of None \<Rightarrow> 0 | Some (n, _) \<Rightarrow> n)"
  by (cases s) (auto simp: utf8Sequence_def utf8_decode1_def Let_def take_map split: option.splits)

lemma utf8_length_cases:
  "x < 32 \<Longrightarrow> utf8_length (0xc0 + x) = 2" "x < 16 \<Longrightarrow> utf8_length (0xe0 + x) = 3"
  "x < 8 \<Longrightarrow> utf8_length (0xf0 + x) = 4"
proof -
  have d: "(0xc0 + x) div 32 = 6" if "x < 32" for x :: nat by (rule div_nat_eqI) (use that in simp_all)
  have e: "(0xe0 + x) div 32 = 7" "(0xe0 + x) div 16 = 14" if "x < 16" for x :: nat
    by (rule div_nat_eqI; use that in simp)+
  have f: "(0xf0 + x) div 32 = 7" "(0xf0 + x) div 16 = 15" "(0xf0 + x) div 8 = 30" if "x < 8" for x :: nat
    by (rule div_nat_eqI; use that in simp)+
  show "x < 32 \<Longrightarrow> utf8_length (0xc0 + x) = 2" "x < 16 \<Longrightarrow> utf8_length (0xe0 + x) = 3"
    "x < 8 \<Longrightarrow> utf8_length (0xf0 + x) = 4" by (simp_all add: utf8_length_def d e f)
qed

lemma utf8_code_continue:
  "y < 64 \<Longrightarrow> utf8_code code ((0x80 + y) # xs) = utf8_code (code * 64 + y) xs"
proof -
  assume "y < 64"
  then have "(0x80 + y) div 64 = 2" "(0x80 + y) mod 64 = y"
    using div_digit [of y 64 2] mod_digit [of y 64 2] by simp_all
  then show ?thesis by simp
qed

declare utf8_code.simps(2) [simp del]

lemma six_bits:
  "z < 64 \<Longrightarrow> (x * 64 + z) div 64 = x" "z < 64 \<Longrightarrow> (x * 64 + z) mod 64 = (z::nat)"
  by simp_all

lemma six_bits_deep:
  assumes "y < 64" and "z < (64::nat)"
  shows "((x * 64 + y) * 64 + z) div 4096 = x" and "((x * 64 + y) * 64 + z) div 64 mod 64 = y"
proof -
  have "((x * 64 + y) * 64 + z) div (64 * 64) = x"
    unfolding div_mult2_eq six_bits(1) [OF assms(2)] six_bits(1) [OF assms(1)] ..
  then show "((x * 64 + y) * 64 + z) div 4096 = x" by simp
  show "((x * 64 + y) * 64 + z) div 64 mod 64 = y"
    unfolding six_bits(1) [OF assms(2)] six_bits(2) [OF assms(1)] ..
qed

lemma utf8_decode1_encode:
  assumes "scalar cp"
  shows "utf8_decode1 (utf8_bytes cp @ t) = Some (length (utf8_bytes cp), cp)"
proof -
  define z y w v where "z = cp mod 64" and "y = cp div 64 mod 64" and "w = cp div 4096 mod 64" and "v = cp div 262144"
  have lt: "z < 64" "y < 64" "w < 64" by (simp_all add: z_def y_def w_def)
  have e: "cp = cp div 64 * 64 + z" "cp div 64 = cp div 4096 * 64 + y" "cp div 4096 = v * 64 + w"
  proof -
    have d: "cp div 64 div 64 = cp div 4096" "cp div 4096 div 64 = cp div 262144"
      by (simp_all flip: div_mult2_eq)
    show "cp = cp div 64 * 64 + z" "cp div 64 = cp div 4096 * 64 + y" "cp div 4096 = v * 64 + w"
      using div_mult_mod_eq [of cp 64] div_mult_mod_eq [of "cp div 64" 64] div_mult_mod_eq [of "cp div 4096" 64]
      unfolding d z_def y_def w_def v_def by simp_all
  qed
  consider "cp < 0x80" | "0x80 \<le> cp" "cp < 0x800" | "0x800 \<le> cp" "cp < 0x10000" | "0x10000 \<le> cp" by linarith
  then show ?thesis
  proof cases
    case 1
    then show ?thesis by (simp add: utf8_bytes_def utf8_decode1_def utf8_length_def)
  next
    case 2
    then have x: "cp div 64 < 32" "2 \<le> cp div 64"
      using div_le_mono [of 128 cp 64] by (simp_all add: less_mult_imp_div_less)
    moreover have "(0xc0 + cp div 64) mod 32 = cp div 64" using mod_digit [OF x(1), of 6] by simp
    ultimately show ?thesis using 2 lt e(1)
      by (simp add: utf8_bytes_def utf8_decode1_def utf8_length_cases utf8_code_continue flip: z_def)
  next
    case 3
    then have x: "cp div 4096 < 16" by (simp add: less_mult_imp_div_less)
    moreover have "(0xe0 + cp div 4096) mod 16 = cp div 4096" using mod_digit [OF x, of 14] by simp
    moreover have "(cp div 4096 * 64 + y) * 64 + z = cp" using e(1,2) by simp
    ultimately show ?thesis using 3 lt assms
      by (simp add: utf8_bytes_def utf8_decode1_def utf8_length_cases utf8_code_continue scalar_def
          flip: z_def y_def)
  next
    case 4
    have x: "v < 5" using assms by (simp add: v_def scalar_def less_mult_imp_div_less)
    moreover have "(0xf0 + v) mod 8 = v" using x mod_digit [of v 8 30] by simp
    moreover have "((v * 64 + w) * 64 + y) * 64 + z = cp" using e by simp
    ultimately show ?thesis using 4 lt assms
      by (simp add: utf8_bytes_def utf8_decode1_def utf8_length_cases utf8_code_continue scalar_def
          flip: z_def y_def w_def v_def)
  qed
qed

lemma div_mod_form: "x div n = q \<Longrightarrow> x = q * n + x mod (n::nat)"
  by (metis div_mult_mod_eq)

lemma six_bits_bound: "a \<le> k \<Longrightarrow> z < 64 \<Longrightarrow> a * 64 + z \<le> k * 64 + (63::nat)"
  by (simp add: add_mono)

lemma utf8_code_Cons:
  assumes "utf8_code code (x # xs) = Some r"
  shows "x = 0x80 + x mod 64" and "utf8_code (code * 64 + x mod 64) xs = Some r"
  using assms div_mod_form [of x 64 2] by (simp_all add: utf8_code.simps split: if_splits)

lemma utf8_length_inv:
  "utf8_length c = 2 \<Longrightarrow> c = 0xc0 + c mod 32" "utf8_length c = 3 \<Longrightarrow> c = 0xe0 + c mod 16"
  "utf8_length c = 4 \<Longrightarrow> c = 0xf0 + c mod 8" "utf8_length c = 1 \<Longrightarrow> c < 0x80"
  "utf8_length c \<in> {0, 1, 2, 3, 4}"
  using div_mod_form [of c 32 6] div_mod_form [of c 16 14] div_mod_form [of c 8 30]
  by (auto simp: utf8_length_def split: if_splits)

lemma utf8_bytes_2:
  assumes "x < 32" and "2 \<le> x" and "z < 64"
  shows "utf8_bytes (x * 64 + z) = [0xc0 + x, 0x80 + z]" and "scalar (x * 64 + z)"
proof -
  have "x * 64 + z < 0x800" "\<not> x * 64 + z < 0x80" using assms by linarith+
  then show "utf8_bytes (x * 64 + z) = [0xc0 + x, 0x80 + z]" "scalar (x * 64 + z)"
    using six_bits [OF assms(3), of x] by (simp_all add: utf8_bytes_def scalar_def)
qed

lemma utf8_bytes_3:
  assumes "x < 16" and "y < 64" and "z < 64" and "0x800 \<le> (x * 64 + y) * 64 + z"
  shows "utf8_bytes ((x * 64 + y) * 64 + z) = [0xe0 + x, 0x80 + y, 0x80 + z]"
proof -
  have "(x * 64 + y) * 64 + z < 0x10000"
    using six_bits_bound [OF six_bits_bound [of x 15, OF _ assms(2)] assms(3)] assms(1) by simp
  then show ?thesis
    using assms(4) six_bits_deep [OF assms(2,3), of x] six_bits(2) [OF assms(3), of "x * 64 + y"]
    by (simp only: utf8_bytes_def) simp
qed

lemma utf8_bytes_4:
  assumes "w < 64" and "y < 64" and "z < 64" and "0x10000 \<le> ((x * 64 + w) * 64 + y) * 64 + z"
  shows "utf8_bytes (((x * 64 + w) * 64 + y) * 64 + z) = [0xf0 + x, 0x80 + w, 0x80 + y, 0x80 + z]"
proof -
  let ?cp = "((x * 64 + w) * 64 + y) * 64 + z"
  have "?cp div 4096 = x * 64 + w" "?cp div 64 mod 64 = y" by (rule six_bits_deep [OF assms(2,3)])+
  moreover have "?cp div 262144 = ?cp div 4096 div 64" by (simp flip: div_mult2_eq)
  moreover have "?cp mod 64 = z" by (rule six_bits(2) [OF assms(3)])
  ultimately show ?thesis
    using assms(4) six_bits [OF assms(1), of x] by (simp only: utf8_bytes_def) simp
qed

lemma utf8_decode1_sound:
  assumes "utf8_decode1 bs = Some (n, cp)" and "bs \<noteq> []"
  shows "scalar cp \<and> take n bs = utf8_bytes cp \<and> n = length (utf8_bytes cp)"
proof -
  obtain c r where bs: "bs = c # r" using assms(2) by (cases bs) auto
  let ?n = "utf8_length c"
  have n: "n = ?n" "?n \<noteq> 0" "n \<le> length bs" and c: "n = 2 \<Longrightarrow> 0xc2 \<le> c" "n = 4 \<Longrightarrow> c \<le> 0xf4"
    and code: "utf8_code (if n = 1 then c else c mod 2 ^ (7 - n)) (take (n - 1) r) = Some cp"
    and range: "n = 3 \<Longrightarrow> 0x800 \<le> cp \<and> \<not> (0xd800 \<le> cp \<and> cp \<le> 0xdfff)"
      "n = 4 \<Longrightarrow> 0x10000 \<le> cp \<and> cp \<le> 0x10ffff"
    using assms(1) by (auto simp: bs utf8_decode1_def Let_def not_less split: if_splits option.splits)
  consider "n = 1" | "n = 2" | "n = 3" | "n = 4" using utf8_length_inv(5) [of c] n by auto
  then show ?thesis
  proof cases
    case 1
    then have "c < 0x80" "cp = c" using utf8_length_inv(4) [of c] n code by simp_all
    then show ?thesis using 1 by (simp add: bs utf8_bytes_def scalar_def)
  next
    case 2
    then obtain d r' where r: "r = d # r'" using n by (cases r) (auto simp: bs)
    have d: "d = 0x80 + d mod 64" "cp = (c mod 32) * 64 + d mod 64"
      using utf8_code_Cons [of "c mod 32" d "[]" cp] code 2 by (simp_all add: r)
    have c': "c = 0xc0 + c mod 32" using utf8_length_inv(1) [of c] n(1) 2 by simp
    have "2 \<le> c mod 32" using c(1) [OF 2] c' by linarith
    then show ?thesis using utf8_bytes_2 [of "c mod 32" "d mod 64"] c' d 2 by (simp add: bs r)
  next
    case 3
    then obtain d e r' where r: "r = d # e # r'" using n by (cases r; cases "tl r") (auto simp: bs)
    have "utf8_code (c mod 16) [d, e] = Some cp" using code 3 by (simp add: r)
    note d = utf8_code_Cons [OF this] and e = utf8_code_Cons [OF utf8_code_Cons(2) [OF this]]
    have cp: "cp = (c mod 16 * 64 + d mod 64) * 64 + e mod 64" using e(2) by simp
    have c': "c = 0xe0 + c mod 16" using utf8_length_inv(2) [of c] n(1) 3 by simp
    have "c mod 16 < 16" "d mod 64 < 64" "e mod 64 < 64" by simp_all
    then have "cp < 0x10000"
      unfolding cp using six_bits_bound [OF six_bits_bound [of "c mod 16" 15]] by simp
    then show ?thesis
      using utf8_bytes_3 [of "c mod 16" "d mod 64" "e mod 64"] c' d(1) e(1) range(1) [OF 3] 3 cp
      by (simp add: bs r scalar_def)
  next
    case 4
    then obtain d e f r' where r: "r = d # e # f # r'"
      using n by (cases r; cases "tl r"; cases "tl (tl r)") (auto simp: bs)
    have "utf8_code (c mod 8) [d, e, f] = Some cp" using code 4 by (simp add: r)
    note d = utf8_code_Cons [OF this] and e = utf8_code_Cons [OF utf8_code_Cons(2) [OF this]]
      and f = utf8_code_Cons [OF utf8_code_Cons(2) [OF utf8_code_Cons(2) [OF this]]]
    have cp: "cp = ((c mod 8 * 64 + d mod 64) * 64 + e mod 64) * 64 + f mod 64" using f(2) by simp
    have c': "c = 0xf0 + c mod 8" using utf8_length_inv(3) [of c] n(1) 4 by simp
    show ?thesis
      using utf8_bytes_4 [of "d mod 64" "e mod 64" "f mod 64" "c mod 8"] c' d(1) e(1) f(1) range(2) [OF 4] 4 cp
      by (simp add: bs r scalar_def)
  qed
qed

lemma utf8_bytes_byte: "scalar cp \<Longrightarrow> b \<in> set (utf8_bytes cp) \<Longrightarrow> b < 256"
proof -
  assume sc: "scalar cp" and b: "b \<in> set (utf8_bytes cp)"
  have "cp < 0x800 \<Longrightarrow> cp div 64 < 32" "cp < 0x10000 \<Longrightarrow> cp div 4096 < 16" "cp div 262144 < 5"
    using sc by (simp_all add: less_mult_imp_div_less scalar_def)
  moreover have "cp mod 64 < 64" "cp div 64 mod 64 < 64" "cp div 4096 mod 64 < 64" by simp_all
  ultimately show "b < 256" using b by (auto simp: utf8_bytes_def split: if_splits)
qed

lemma of_char_encode: "scalar cp \<Longrightarrow> map of_char (utf8_encode cp) = utf8_bytes cp"
  using utf8_bytes_byte [of cp] by (simp add: utf8_encode_def map_idI)

lemma utf8_encode_nonempty [simp]: "utf8_encode cp \<noteq> []"
  by (simp add: utf8_encode_def utf8_bytes_def)

lemma utf8Sequence_encode: "scalar cp \<Longrightarrow> utf8Sequence (utf8_encode cp @ t) = length (utf8_encode cp)"
  using utf8_decode1_encode [of cp "map of_char t"]
  by (simp add: utf8Sequence_decode1 of_char_encode) (simp add: utf8_encode_def)

lemma utf8Sequence_sound:
  assumes "utf8Sequence s \<noteq> 0" and "s \<noteq> []"
  obtains cp where "scalar cp" and "s = utf8_encode cp @ drop (utf8Sequence s) s"
    and "utf8Sequence s = length (utf8_encode cp)"
proof -
  obtain n cp where d: "utf8_decode1 (map of_char s) = Some (n, cp)" and n: "utf8Sequence s = n"
    using assms by (auto simp: utf8Sequence_decode1 split: option.splits)
  have "scalar cp" "take n (map of_char s) = utf8_bytes cp" "n = length (utf8_bytes cp)"
    using utf8_decode1_sound [OF d] assms(2) by blast+
  then have "map char_of (map of_char (take n s) :: nat list) = utf8_encode cp"
    by (simp only: utf8_encode_def take_map)
  then have "take n s = utf8_encode cp" by (simp add: o_def)
  then have "s = utf8_encode cp @ drop (utf8Sequence s) s" using n by (metis append_take_drop_id)
  with that \<open>scalar cp\<close> \<open>n = length (utf8_bytes cp)\<close> n show ?thesis by (simp add: utf8_encode_def)
qed

definition utf8_text :: "string \<Rightarrow> bool" where
  "utf8_text s = (\<exists>cps. list_all scalar cps \<and> s = concat (map utf8_encode cps))"

lemma utf8_text_Nil [simp]: "utf8_text []"
  by (auto simp: utf8_text_def intro: exI [of _ "[]"])

lemma utf8_text_append: "utf8_text a \<Longrightarrow> utf8_text b \<Longrightarrow> utf8_text (a @ b)"
  unfolding utf8_text_def by (metis concat_append list_all_append map_append)

lemma utf8_text_encode: "scalar cp \<Longrightarrow> utf8_text (utf8_encode cp)"
  unfolding utf8_text_def by (rule exI [of _ "[cp]"]) simp

lemma isUtf8_encode: "scalar cp \<Longrightarrow> isUtf8 (utf8_encode cp @ t) = isUtf8 t"
proof -
  assume sc: "scalar cp"
  obtain c r where e: "utf8_encode cp = c # r" by (metis utf8_encode_nonempty list.exhaust)
  have "utf8Sequence (c # r @ t) = Suc (length r)" using utf8Sequence_encode [OF sc, of t] e by simp
  then show ?thesis by (simp add: e)
qed

lemma isUtf8_iff: "isUtf8 s \<longleftrightarrow> utf8_text s"
proof
  show "utf8_text s" if "isUtf8 s" using that
  proof (induction s rule: isUtf8.induct)
    case (2 c s)
    then have n: "utf8Sequence (c # s) \<noteq> 0" by (auto simp: Let_def split: if_splits)
    then obtain cp where cp: "scalar cp" "c # s = utf8_encode cp @ drop (utf8Sequence (c # s)) (c # s)"
      by (rule utf8Sequence_sound) auto
    have "drop (utf8Sequence (c # s)) (c # s) = drop (utf8Sequence (c # s) - 1) s" using n by (cases "utf8Sequence (c # s)") auto
    moreover have "utf8_text (drop (utf8Sequence (c # s) - 1) s)" using 2 n by (simp add: Let_def)
    ultimately show ?case using utf8_text_append [OF utf8_text_encode [OF cp(1)]] cp(2) by metis
  qed simp
  show "isUtf8 s" if t: "utf8_text s"
  proof -
    obtain cps where "list_all scalar cps" "s = concat (map utf8_encode cps)" using t by (auto simp: utf8_text_def)
    then show ?thesis by (induction cps arbitrary: s) (auto simp: isUtf8_encode)
  qed
qed

lemma utf8_text_replacement: "utf8_text replacement_char"
proof -
  have "replacement_char = utf8_encode 0xFFFD" by (simp add: replacement_char_def utf8_encode_def utf8_bytes_def)
  then show ?thesis using utf8_text_encode [of "0xFFFD"] by (simp add: scalar_def)
qed

lemma utf8_text_repair: "utf8_text (repairUtf8 s)"
proof (induction s rule: repairUtf8.induct)
  case (2 c s)
  show ?case
  proof (cases "utf8Sequence (c # s) = 0")
    case True
    then show ?thesis using 2(2) utf8_text_append [OF utf8_text_replacement] by simp
  next
    case False
    then obtain cp where "scalar cp" "take (utf8Sequence (c # s)) (c # s) = utf8_encode cp"
      by (rule utf8Sequence_sound) (auto, metis append_eq_conv_conj)
    then show ?thesis using False 2(1) utf8_text_append [OF utf8_text_encode] by (simp add: Let_def)
  qed
qed simp

lemma repair_id: "isUtf8 s \<Longrightarrow> repairUtf8 s = s"
proof (induction s rule: isUtf8.induct)
  case (2 c s)
  then have n: "utf8Sequence (c # s) \<noteq> 0" by (auto simp: Let_def split: if_splits)
  then obtain k where k: "utf8Sequence (c # s) = Suc k" by (cases "utf8Sequence (c # s)") auto
  then have "repairUtf8 (drop k s) = drop k s" using 2 by (simp add: Let_def)
  then show ?case using k by simp
qed simp

lemma utf8_text_latin1: "utf8_text (latin1ToUtf8 s)"
proof (induction s)
  case (Cons c s)
  have "of_char c div 64 < (4::nat)" using of_char_less [of c] by (simp add: less_mult_imp_div_less)
  then have "latin1ToUtf8 (c # s) = utf8_encode (of_char c) @ latin1ToUtf8 s" and "scalar (of_char c)"
    using less_le_trans [OF of_char_less [of c], of "0x800"]
    by (simp_all add: latin1ToUtf8_def utf8_encode_def utf8_bytes_def scalar_def Let_def)
  then show ?case using Cons utf8_text_append [OF utf8_text_encode] by simp
qed (simp add: latin1ToUtf8_def)

section \<open>Decimal numbers\<close>

lemma digits_value_snoc: "digits_value (s @ [c]) = digits_value s * 10 + (of_char c - 48)"
  by (simp add: digits_value_def)

lemma decimal_digits: "list_all is_digit (decimal n) \<and> decimal n \<noteq> [] \<and> digits_value (decimal n) = int n"
proof (induction n rule: decimal.induct)
  case (1 n)
  have one: "is_digit (char_of (48 + d))" "of_char (char_of (48 + d) :: char) = 48 + int d" if "d < 10" for d :: nat
  proof -
    have "(48 + d) mod 256 = 48 + d" using that by simp
    then show "is_digit (char_of (48 + d))" using that by (simp add: is_digit_def)
    have "of_char (char_of (48 + d) :: char) = int (of_char (char_of (48 + d) :: char))" by (simp only: of_nat_of_char)
    also have "\<dots> = int (48 + d)" by (simp only: of_char_of \<open>(48 + d) mod 256 = 48 + d\<close>)
    finally show "of_char (char_of (48 + d) :: char) = 48 + int d" by simp
  qed
  show ?case
  proof (cases "n < 10")
    case True
    then show ?thesis using one [OF True] by (simp add: decimal.simps [of n] digits_value_def)
  next
    case False
    have "int (n div 10) * 10 + int (n mod 10) = int n"
      by (metis div_mult_mod_eq of_nat_add of_nat_mult of_nat_numeral)
    then show ?thesis using 1 [OF False] one [of "n mod 10"] False
      by (simp add: decimal.simps [of n] digits_value_snoc)
  qed
qed

lemma decimal_no_minus: "hd (decimal n) \<noteq> CHR ''-''"
proof -
  have "is_digit (hd (decimal n))" using decimal_digits [of n] by (cases "decimal n") auto
  then show ?thesis by (auto simp: is_digit_def)
qed

section \<open>Properties\<close>

text \<open>
  Hexadecimal, percent and Base64 encoding lose nothing: decoding what was encoded gives
  the original bytes back, for every byte string.
\<close>

theorem text_codecs_roundtrip:
  "fromHex (toHex s) = Some s \<and> percentDecode (percentEncode s) = s \<and> base64Decode (base64Encode s) = Some s"
  by (simp add: fromHex_def length_toHex from_hex_pairs_toHex percentDecode_Encode base64Decode_def
      base64_roundtrip)

text \<open>
  C25. \<open>isUtf8\<close> accepts exactly the concatenations of encoded Unicode scalar values: no overlong
  form, no surrogate, nothing beyond U+10FFFF, no stray or missing continuation byte.
\<close>

theorem isUtf8_exact:
  "isUtf8 s \<longleftrightarrow> (\<exists>cps. list_all scalar cps \<and> s = concat (map utf8_encode cps))"
  using isUtf8_iff by (simp add: utf8_text_def)

text \<open>
  \<open>repairUtf8\<close> and \<open>latin1ToUtf8\<close> always produce well-formed UTF-8, and repairing changes
  a text exactly when it is malformed.
\<close>

theorem repair_makes_utf8:
  "isUtf8 (repairUtf8 s) \<and> isUtf8 (latin1ToUtf8 s) \<and> (repairUtf8 s = s \<longleftrightarrow> isUtf8 s)"
  using isUtf8_iff utf8_text_repair utf8_text_latin1 repair_id by metis

text \<open>
  \<open>toInt\<close> reads back every printed number that fits 63 bits, and whatever it accepts is a
  non-negative \<open>int64_t\<close>.
\<close>

theorem toInt_roundtrip:
  assumes "n < 2 ^ 63"
  shows "toInt (decimal n) = Some (int n) \<and> (\<forall>s v. toInt s = Some v \<longrightarrow> 0 \<le> v \<and> v < 2 ^ 63)"
proof -
  have "int n < 2 ^ 63" using assms by (metis of_nat_less_iff of_nat_numeral of_nat_power)
  then show ?thesis
    using decimal_digits [of n] decimal_no_minus [of n] by (auto simp: toInt_def Let_def split: if_splits)
qed

end
