(* ===== verification/Gid.thy ===== *)
theory Gid
  imports Text
begin

text \<open>
  Task identifiers (\<open>core/Gid.h\<close>, \<open>core/Gid.cc\<close>): non-zero 64-bit values, printed as 16 hexadecimal
  digits. \<open>newGid\<close> takes the outputs of its random engine as an argument.

  The lemmas show that printing and parsing are inverse to each other and what the parser accepts.
\<close>

section \<open>Model\<close>

type_synonym gid = "64 word"

text \<open>The loop of \<open>newGid\<close> over the outputs of the random engine; the unused ones are returned.\<close>

fun newGid :: "64 word list \<Rightarrow> (gid \<times> 64 word list) option" where
  "newGid [] = None"
| "newGid (r # rs) = (if r = 0 then newGid rs else Some (r, rs))"

definition gidText :: "gid \<Rightarrow> string" where
  "gidText g = map (\<lambda>i. hex_digit (unat g div 16 ^ i mod 16)) (rev [0..<16])"

text \<open>\<open>std::from_chars\<close> in base 16 on a \<open>uint64_t\<close>: the longest run of digits, with the text after
  it; nothing when there is no digit or the number does not fit.\<close>

definition hex_number :: "string \<Rightarrow> nat" where
  "hex_number s = foldl (\<lambda>n c. 16 * n + nat (hexValue c)) 0 s"

definition from_chars_16 :: "string \<Rightarrow> (gid \<times> string) option" where
  "from_chars_16 s =
     (let digits = takeWhile (\<lambda>c. hexValue c \<ge> 0) s
      in if digits = [] \<or> hex_number digits \<ge> 2 ^ 64 then None
         else Some (word_of_nat (hex_number digits), drop (length digits) s))"

definition parseGid :: "string \<Rightarrow> gid option" where
  "parseGid s =
     (case from_chars_16 s of
        None \<Rightarrow> None
      | Some (gid, rest) \<Rightarrow> if length s \<noteq> 16 \<or> rest \<noteq> [] \<or> gid = 0 then None else Some gid)"

section \<open>Printing and parsing\<close>

lemma length_gidText [simp]: "length (gidText g) = 16"
  by (simp add: gidText_def)

lemma hexValue_bounds: "hexValue c < 16"
  by (auto simp: hexValue_def Let_def)

lemma hex_number_snoc: "hex_number (s @ [c]) = 16 * hex_number s + nat (hexValue c)"
  by (simp add: hex_number_def)

lemma hex_number_less: "hex_number s < 16 ^ length s"
proof (induction s rule: rev_induct)
  case (snoc c s)
  moreover have "nat (hexValue c) < 16" using hexValue_bounds [of c] by linarith
  ultimately show ?case by (simp add: hex_number_snoc)
qed (simp add: hex_number_def)

lemma hex_number_digits: "hex_number (map (\<lambda>i. hex_digit (n div 16 ^ i mod 16)) (rev [0..<k])) = n mod 16 ^ k"
proof (induction k arbitrary: n)
  case (Suc k)
  have split: "rev [0..<Suc k] = map Suc (rev [0..<k]) @ [0]"
    by (simp only: upt_conv_Cons map_Suc_upt [symmetric] rev_map rev.simps zero_less_Suc)
  have "map (\<lambda>i. hex_digit (n div 16 ^ i mod 16)) (map Suc (rev [0..<k]))
      = map (\<lambda>i. hex_digit (n div 16 div 16 ^ i mod 16)) (rev [0..<k])"
    by (simp add: div_mult2_eq)
  then have "hex_number (map (\<lambda>i. hex_digit (n div 16 ^ i mod 16)) (rev [0..<Suc k]))
      = 16 * (n div 16 mod 16 ^ k) + n mod 16"
    by (simp only: split map_append hex_number_snoc Suc.IH list.map power_0 div_by_1)
      (simp add: hexValue_hex_digit)
  also have "\<dots> = n mod 16 ^ Suc k" by (simp add: mod_mult2_eq)
  finally show ?case .
qed (simp add: hex_number_def)

lemma hex_number_gidText: "hex_number (gidText g) = unat g"
proof -
  have "unat g < 16 ^ 16" using unsigned_less [of g, where 'a = nat] by simp
  then show ?thesis by (simp add: gidText_def hex_number_digits del: upt_rec_numeral)
qed

lemma hexValue_gidText: "c \<in> set (gidText g) \<Longrightarrow> hexValue c \<ge> 0"
  by (auto simp: gidText_def hexValue_hex_digit simp del: upt_rec_numeral)

lemma from_chars_16_gidText: "from_chars_16 (gidText g) = Some (g, [])"
proof -
  have "takeWhile (\<lambda>c. hexValue c \<ge> 0) (gidText g) = gidText g"
    using hexValue_gidText by (simp add: takeWhile_eq_all_conv)
  moreover have "gidText g \<noteq> []" using length_gidText [of g] by force
  moreover have "unat g < 2 ^ 64" using unsigned_less [of g, where 'a = nat] by simp
  ultimately show ?thesis by (simp only: from_chars_16_def Let_def) (simp add: hex_number_gidText)
qed

lemma parseGid_gidText: "parseGid (gidText g) = (if g = 0 then None else Some g)"
  by (simp add: parseGid_def from_chars_16_gidText)

lemma gidText_inject: "gidText g = gidText h \<longleftrightarrow> g = h"
  by (metis from_chars_16_gidText option.inject prod.inject)

lemma parseGid_iff:
  "parseGid s = Some g \<longleftrightarrow>
     length s = 16 \<and> (\<forall>c \<in> set s. hexValue c \<ge> 0) \<and> g \<noteq> 0 \<and> unat g = hex_number s"
proof (cases "length s = 16")
  case True
  have small: "hex_number s < 2 ^ 64" using hex_number_less [of s] True by simp
  have all: "drop (length (takeWhile (\<lambda>c. hexValue c \<ge> 0) s)) s = [] \<longleftrightarrow> (\<forall>c \<in> set s. hexValue c \<ge> 0)"
    by (metis append_Nil2 drop_eq_Nil length_takeWhile_le le_antisym takeWhile_eq_all_conv
        takeWhile_eq_take take_all_iff)
  show ?thesis
  proof (cases "\<forall>c \<in> set s. hexValue c \<ge> 0")
    case digits: True
    have "takeWhile (\<lambda>c. hexValue c \<ge> 0) s = s" using digits by (simp add: takeWhile_eq_all_conv)
    moreover have "s \<noteq> []" using True by force
    ultimately have "parseGid s = (if word_of_nat (hex_number s) = (0 :: gid) then None else Some (word_of_nat (hex_number s)))"
      using True small by (simp only: parseGid_def from_chars_16_def Let_def) simp
    moreover have "word_of_nat (hex_number s) = g \<longleftrightarrow> unat g = hex_number s"
      using small by (auto simp: unat_of_nat word_unat_eq_iff)
    ultimately show ?thesis using True digits by auto
  next
    case False
    then show ?thesis using True all by (auto simp: parseGid_def from_chars_16_def Let_def split: if_splits)
  qed
qed (auto simp: parseGid_def split: option.splits)

text \<open>
  Every identifier that \<open>newGid\<close> draws is non-zero and reads back from its text; two identifiers
  never share a text; and \<open>parseGid\<close> accepts exactly the texts of 16 hexadecimal digits, in either
  case, that denote a non-zero number, with that number as the result.
\<close>

theorem gid_roundtrip:
  "(newGid rs = Some (g, rest) \<longrightarrow> g \<noteq> 0 \<and> parseGid (gidText g) = Some g) \<and>
   (gidText g = gidText h \<longleftrightarrow> g = h) \<and>
   (parseGid s = Some h \<longleftrightarrow>
      length s = 16 \<and> (\<forall>c \<in> set s. hexValue c \<ge> 0) \<and> h \<noteq> 0 \<and> unat h = hex_number s)"
proof -
  have "newGid rs = Some (g, rest) \<Longrightarrow> g \<noteq> 0"
    by (induction rs rule: newGid.induct) (auto split: if_splits)
  then show ?thesis using gidText_inject parseGid_iff by (simp add: parseGid_gidText)
qed


end
