(* ===== verification/Engine.thy ===== *)
theory Engine
  imports Gid Speed
begin

text \<open>
  The engine of \<open>core/Engine.cc\<close> and the base task of \<open>core/Task.cc\<close>: the queues, starting and
  stopping tasks, moving their files, results, and shutdown.

  Task objects have addresses (\<open>nat\<close>); the queues hold addresses, as the code's queues hold
  \<open>shared_ptr\<close>s. The virtual operations of \<open>Task\<close> that the engine calls are fields of \<open>virtual\<close>: what
  \<open>start()\<close> does (it returns or throws), whether \<open>stop()\<close> calls back at once, later or instead of an
  earlier call, and the answer of \<open>relocation()\<close>. Handlers posted to the event loop are the list \<open>jobs\<close>,
  run in order; stops that have not called back are \<open>stops\<close>; file moves that run on the disk threads
  are \<open>disk_work\<close>. What the engine tells others (events, checkpoints, discarded state, answers) is
  appended to \<open>effects\<close>.
\<close>

section \<open>Model\<close>

subsection \<open>Tasks\<close>

datatype task_state = Waiting | Active | Paused | Complete | Failed | Removed

fun stateName :: "task_state \<Rightarrow> string" where
  "stateName Waiting = ''waiting''"
| "stateName Active = ''active''"
| "stateName Paused = ''paused''"
| "stateName Complete = ''complete''"
| "stateName Failed = ''error''"
| "stateName Removed = ''removed''"

abbreviation finished_code :: int where "finished_code \<equiv> 0"
abbreviation unknown_code :: int where "unknown_code \<equiv> 1"
abbreviation removed_code :: int where "removed_code \<equiv> 31"

record task =
  t_gid :: gid
  t_state :: task_state
  t_stopping :: bool
  t_errorCode :: int
  t_errorMessage :: string
  t_pause :: bool
  t_dir :: string
  t_counts :: bool
  t_following :: gid
  t_belongsTo :: gid

definition new_task :: "gid \<Rightarrow> bool \<Rightarrow> string \<Rightarrow> task" where
  "new_task gid pause dir =
     \<lparr>t_gid = gid, t_state = Waiting, t_stopping = False, t_errorCode = finished_code, t_errorMessage = [],
      t_pause = pause, t_dir = dir, t_counts = True, t_following = 0, t_belongsTo = 0\<rparr>"

definition want :: "string list \<Rightarrow> string \<Rightarrow> bool" where
  "want keys key = (keys = [] \<or> key \<in> set keys)"

subsection \<open>The engine\<close>

datatype event = Start | Pause | Stop | CompleteEvent | ErrorEvent | BtComplete

fun eventMethod :: "event \<Rightarrow> string" where
  "eventMethod Start = ''aria2.onDownloadStart''"
| "eventMethod Pause = ''aria2.onDownloadPause''"
| "eventMethod Stop = ''aria2.onDownloadStop''"
| "eventMethod CompleteEvent = ''aria2.onDownloadComplete''"
| "eventMethod ErrorEvent = ''aria2.onDownloadError''"
| "eventMethod BtComplete = ''aria2.onBtDownloadComplete''"

datatype position = Set | Current | End

type_synonym moves = "(string \<times> string) list"

record move =
  m_dir :: string
  m_resume :: bool
  m_started :: bool

datatype job = Fill | Retire nat task_state | FinishShutdown

datatype effect =
    Emitted event nat
  | LoadedProgress nat
  | Checkpointed nat
  | Discarded nat
  | Relocated nat string
  | MoveAnswered gid string
  | OptionChanged nat string
  | SessionSaved "nat list"
  | HttpChanged | BtChanged | Ed2kChanged
  | BtClosed | Ed2kClosed | HttpClosed

record settings =
  max_concurrent :: int
  enable_rpc :: bool
  max_result :: int
  keep_unfinished :: bool
  state_interval :: int
  session_interval :: int
  stop_after :: int
  stop_process :: int
  save_session :: string

record engine =
  objs :: "nat \<Rightarrow> task"
  global :: settings
  tasks :: "(gid \<times> nat) list"
  active :: "nat list"
  waiting :: "nat list"
  moving :: "(gid \<times> move) list"
  stopped :: "nat list"
  stoppedTotal :: nat
  scheduled :: bool
  shuttingDown :: bool
  forceShutdown :: bool
  finished :: bool
  exitStatus :: int
  started :: int
  lastSessionSave :: int
  lastCheckpoint :: int
  has_disk :: bool
  has_http :: bool
  has_bt :: bool
  has_ed2k :: bool
  jobs :: "job list"
  stops :: "(nat \<times> task_state) list"
  disk_work :: "(nat \<times> moves \<times> string) list"
  loop_stopped :: bool
  crashed :: bool
  effects :: "effect list"

datatype start_result = Started | Threw int string
datatype stop_result = Done_now | Done_later | Done_instead

record virtual =
  v_start :: "nat \<Rightarrow> start_result"
  v_stop :: "nat \<Rightarrow> bool \<Rightarrow> stop_result"
  v_relocation :: "nat \<Rightarrow> string \<Rightarrow> moves option"

definition new_engine :: "(nat \<Rightarrow> task) \<Rightarrow> settings \<Rightarrow> int \<Rightarrow> engine" where
  "new_engine objects options now =
     \<lparr>objs = objects, global = options, tasks = [], active = [], waiting = [], moving = [],
      stopped = [], stoppedTotal = 0, scheduled = False, shuttingDown = False, forceShutdown = False,
      finished = False, exitStatus = 0, started = now, lastSessionSave = now, lastCheckpoint = now,
      has_disk = False, has_http = False, has_bt = False, has_ed2k = False, jobs = [], stops = [],
      disk_work = [], loop_stopped = False, crashed = False, effects = []\<rparr>"

text \<open>\<open>static_cast<size_t>\<close> of an option value.\<close>

definition size_t_of :: "int \<Rightarrow> nat" where
  "size_t_of v = nat (v mod 2 ^ 64)"

definition on_task :: "nat \<Rightarrow> (task \<Rightarrow> task) \<Rightarrow> engine \<Rightarrow> engine" where
  "on_task t f e = e\<lparr>objs := (objs e)(t := f (objs e t))\<rparr>"

definition tell :: "effect \<Rightarrow> engine \<Rightarrow> engine" where
  "tell x e = e\<lparr>effects := effects e @ [x]\<rparr>"

definition emit :: "event \<Rightarrow> nat \<Rightarrow> engine \<Rightarrow> engine" where
  "emit v t e = tell (Emitted v t) e"

abbreviation set_state :: "nat \<Rightarrow> task_state \<Rightarrow> engine \<Rightarrow> engine" where
  "set_state t s \<equiv> on_task t (\<lambda>k. k\<lparr>t_state := s\<rparr>)"

abbreviation state_of :: "engine \<Rightarrow> nat \<Rightarrow> task_state" where
  "state_of e t \<equiv> t_state (objs e t)"

abbreviation gid_of :: "engine \<Rightarrow> nat \<Rightarrow> gid" where
  "gid_of e t \<equiv> t_gid (objs e t)"

abbreviation post :: "job \<Rightarrow> engine \<Rightarrow> engine" where
  "post j e \<equiv> e\<lparr>jobs := jobs e @ [j]\<rparr>"

definition schedule :: "engine \<Rightarrow> engine" where
  "schedule e = (if scheduled e then e else post Fill (e\<lparr>scheduled := True\<rparr>))"

definition activeCount :: "engine \<Rightarrow> nat" where
  "activeCount e = length (filter (\<lambda>t. t_counts (objs e t)) (active e))"

definition queued :: "engine \<Rightarrow> bool" where
  "queued e = (\<exists>t \<in> set (waiting e). state_of e t = Waiting)"

definition engine_disk :: "engine \<Rightarrow> engine" where
  "engine_disk e = e\<lparr>has_disk := True\<rparr>"

definition engine_http :: "engine \<Rightarrow> engine" where
  "engine_http e = e\<lparr>has_http := True\<rparr>"

definition engine_bt :: "engine \<Rightarrow> engine" where
  "engine_bt e = e\<lparr>has_bt := True\<rparr>"

definition engine_ed2k :: "engine \<Rightarrow> engine" where
  "engine_ed2k e = e\<lparr>has_ed2k := True\<rparr>"

subsection \<open>Adding and finding tasks\<close>

definition add :: "nat \<Rightarrow> nat option \<Rightarrow> engine \<Rightarrow> engine" where
  "add t position e =
     (let e = e\<lparr>tasks := map_put (gid_of e t) t (tasks e)\<rparr>;
          e = on_task t (\<lambda>k. k\<lparr>t_state := (if t_pause k then Paused else Waiting), t_pause := False\<rparr>) e;
          e = tell (LoadedProgress t) e;
          place = min (case position of None \<Rightarrow> length (waiting e) | Some p \<Rightarrow> p) (length (waiting e))
      in schedule (e\<lparr>waiting := take place (waiting e) @ t # drop place (waiting e)\<rparr>))"

definition find_gid :: "engine \<Rightarrow> gid \<Rightarrow> nat option" where
  "find_gid e g = map_of (tasks e) g"

text \<open>The loop over the tasks: \<open>match\<close> is the task found so far; a second one makes it ambiguous.\<close>

fun find_prefix :: "string \<Rightarrow> (gid \<times> nat) list \<Rightarrow> nat option \<Rightarrow> nat option" where
  "find_prefix text [] match = match"
| "find_prefix text ((g, t) # rest) match =
     (if take (length text) (gidText g) = text
      then (if match \<noteq> None then None else find_prefix text rest (Some t))
      else find_prefix text rest match)"

definition find_text :: "engine \<Rightarrow> string \<Rightarrow> nat option" where
  "find_text e text =
     (case parseGid text of
        Some g \<Rightarrow> find_gid e g
      | None \<Rightarrow>
          if text = [] \<or> length text > 16 \<or> (\<exists>c \<in> set text. c \<notin> set ''0123456789abcdefABCDEF'') then None
          else find_prefix text (tasks e) None)"

subsection \<open>Outcomes, starting tasks\<close>

definition taskCompleted :: "(nat \<times> nat option) list \<Rightarrow> nat \<Rightarrow> engine \<Rightarrow> engine" where
  "taskCompleted followers t e =
     post (Retire t Complete) (fold (\<lambda>(u, p). add u p) followers (tell (Checkpointed t) e))"

definition complete :: "(nat \<times> nat option) list \<Rightarrow> nat \<Rightarrow> engine \<Rightarrow> engine" where
  "complete followers t e =
     taskCompleted followers t (on_task t (\<lambda>k. k\<lparr>t_errorCode := finished_code, t_errorMessage := []\<rparr>) e)"

definition taskFailed :: "nat \<Rightarrow> engine \<Rightarrow> engine" where
  "taskFailed t e = post (Retire t Failed) ((tell (Checkpointed t) e)\<lparr>exitStatus := t_errorCode (objs e t)\<rparr>)"

definition failed :: "int \<Rightarrow> string \<Rightarrow> nat \<Rightarrow> engine \<Rightarrow> engine" where
  "failed code message t e =
     taskFailed t (on_task t (\<lambda>k. k\<lparr>t_errorCode := code, t_errorMessage := message\<rparr>) e)"

definition run_start :: "virtual \<Rightarrow> nat \<Rightarrow> engine \<Rightarrow> engine" where
  "run_start v t e = (case v_start v t of Started \<Rightarrow> e | Threw code message \<Rightarrow> failed code message t e)"

definition startTask :: "virtual \<Rightarrow> nat \<Rightarrow> engine \<Rightarrow> engine" where
  "startTask v t e =
     (let e = set_state t Active e;
          e = e\<lparr>active := active e @ [t]\<rparr>;
          e = emit Start t e
      in run_start v t e)"

subsection \<open>Results\<close>

text \<open>The trimming loop of \<open>retire\<close> with the current size of the list: the results that stay and those
  that go.\<close>

fun trim_results :: "nat \<Rightarrow> (nat \<Rightarrow> bool) \<Rightarrow> nat \<Rightarrow> nat list \<Rightarrow> nat list \<times> nat list" where
  "trim_results limit keeps n [] = ([], [])"
| "trim_results limit keeps n (t # ts) =
     (if n \<le> limit then (t # ts, [])
      else if keeps t then (let (kept, gone) = trim_results limit keeps n ts in (t # kept, gone))
      else (let (kept, gone) = trim_results limit keeps (n - 1) ts in (kept, t # gone)))"

definition retire :: "nat \<Rightarrow> task_state \<Rightarrow> engine \<Rightarrow> engine" where
  "retire t s e =
     (let e = set_state t s e;
          e = e\<lparr>active := removeAll t (active e)\<rparr>;
          e = e\<lparr>stopped := stopped e @ [t], stoppedTotal := stoppedTotal e + 1\<rparr>;
          e = (if s = Removed then tell (Discarded t) e else e);
          e = emit (if s = Complete then CompleteEvent else if s = Failed then ErrorEvent else Stop) t e;
          limit = size_t_of (max_result (global e));
          keeps = (\<lambda>u. keep_unfinished (global e) \<and> state_of e u \<noteq> Complete);
          (kept, gone) = trim_results limit keeps (length (stopped e)) (stopped e)
      in schedule (e\<lparr>stopped := kept, tasks := fold (\<lambda>u. map_erase (gid_of e u)) gone (tasks e)\<rparr>))"

definition removeResult :: "gid \<Rightarrow> engine \<Rightarrow> bool \<times> engine" where
  "removeResult g e =
     (case find (\<lambda>t. gid_of e t = g) (stopped e) of
        None \<Rightarrow> (False, e)
      | Some t \<Rightarrow>
          let e = tell (Discarded t) e
          in (True, e\<lparr>tasks := map_erase g (tasks e), stopped := remove1 t (stopped e)\<rparr>))"

definition purgeResults :: "engine \<Rightarrow> engine" where
  "purgeResults e =
     (fold (\<lambda>t e. (tell (Discarded t) e)\<lparr>tasks := map_erase (gid_of e t) (tasks e)\<rparr>) (stopped e) e)\<lparr>stopped := []\<rparr>"

definition requeue :: "nat \<Rightarrow> engine \<Rightarrow> string + engine" where
  "requeue t e =
     (if t \<notin> set (stopped e) then Inl (''GID '' @ gidText (gid_of e t) @ '' is not a stopped task'')
      else
        let e = e\<lparr>stopped := remove1 t (stopped e)\<rparr>;
            e = on_task t (\<lambda>k. k\<lparr>t_state := Waiting, t_errorCode := finished_code, t_errorMessage := []\<rparr>) e;
            e = e\<lparr>waiting := waiting e @ [t]\<rparr>
        in Inr (schedule e))"

subsection \<open>Shutdown\<close>

definition saveSession :: "engine \<Rightarrow> engine" where
  "saveSession e =
     (if save_session (global e) = [] then e
      else tell (SessionSaved (active e @ waiting e @ stopped e)) e)"

definition stopLoop :: "engine \<Rightarrow> engine" where
  "stopLoop e = (if has_http e then tell HttpClosed e else e)\<lparr>loop_stopped := True\<rparr>"

text \<open>The ED2K network calls \<open>stopLoop\<close> back once its port mappings are gone.\<close>

definition finishShutdown :: "engine \<Rightarrow> engine" where
  "finishShutdown e =
     (if finished e then e
      else
        let e = saveSession (e\<lparr>finished := True\<rparr>);
            e = (if has_bt e then tell BtClosed e else e)
        in if has_ed2k e then tell Ed2kClosed e else stopLoop e)"

subsection \<open>Moving files\<close>

text \<open>\<open>moveFilesOf\<close> dereferences \<open>disk_\<close>, which is null until something has called \<open>disk()\<close>: the state
  after that is \<open>crashed\<close>.\<close>

definition moveFilesOf :: "virtual \<Rightarrow> nat \<Rightarrow> engine \<Rightarrow> engine" where
  "moveFilesOf v t e =
     (case map_of (moving e) (gid_of e t) of
        None \<Rightarrow> e\<lparr>crashed := True\<rparr>
      | Some m \<Rightarrow>
          let e = e\<lparr>moving := map_put (gid_of e t) (m\<lparr>m_started := True\<rparr>) (moving e)\<rparr>;
              ms = (case v_relocation v t (m_dir m) of None \<Rightarrow> [] | Some ms \<Rightarrow> ms);
              e = (if has_disk e then e else e\<lparr>crashed := True\<rparr>)
          in e\<lparr>disk_work := disk_work e @ [(t, ms, t_dir (objs e t))]\<rparr>)"

subsection \<open>Pausing, removing, stopping\<close>

text \<open>The callback that \<open>stopTask\<close> hands to the task: the task leaves the active queue, a move that
  waited for this goes on or ends, and a shutdown that waited for the last task finishes.\<close>

definition stop_leave :: "nat \<Rightarrow> task_state \<Rightarrow> engine \<Rightarrow> engine" where
  "stop_leave t next e =
     (let e = on_task t (\<lambda>k. k\<lparr>t_stopping := False\<rparr>) e;
          e = tell (Checkpointed t) e;
          e = e\<lparr>active := removeAll t (active e)\<rparr>
      in if next = Paused \<or> next = Waiting
         then
           let e = set_state t next e;
               e = e\<lparr>waiting := t # waiting e\<rparr>
           in if next = Paused then emit Pause t e else e
         else
           retire t Removed
             (on_task t (\<lambda>k. k\<lparr>t_errorCode := removed_code, t_errorMessage := ''Removed''\<rparr>) e))"

definition stop_move :: "virtual \<Rightarrow> nat \<Rightarrow> engine \<Rightarrow> engine" where
  "stop_move v t e =
     (case map_of (moving e) (gid_of e t) of
        None \<Rightarrow> e
      | Some m \<Rightarrow>
          if m_started m then e
          else if state_of e t = Paused \<and> \<not> shuttingDown e then moveFilesOf v t e
          else
            tell (MoveAnswered (gid_of e t) ''The download stopped before it could be moved'')
              (e\<lparr>moving := map_erase (gid_of e t) (moving e)\<rparr>))"

definition stop_done :: "virtual \<Rightarrow> nat \<Rightarrow> task_state \<Rightarrow> engine \<Rightarrow> engine" where
  "stop_done v t next e =
     (let e = stop_move v t (stop_leave t next e);
          e = (if shuttingDown e \<and> active e = [] then finishShutdown e else e)
      in schedule e)"

definition stopTask :: "virtual \<Rightarrow> nat \<Rightarrow> bool \<Rightarrow> task_state \<Rightarrow> engine \<Rightarrow> engine" where
  "stopTask v t force next e =
     (let e = on_task t (\<lambda>k. k\<lparr>t_stopping := True\<rparr>) e
      in case v_stop v t force of
           Done_now \<Rightarrow> stop_done v t next e
         | Done_later \<Rightarrow> e\<lparr>stops := stops e @ [(t, next)]\<rparr>
         | Done_instead \<Rightarrow> e\<lparr>stops := filter (\<lambda>p. fst p \<noteq> t) (stops e) @ [(t, next)]\<rparr>)"

definition set_resume :: "gid \<Rightarrow> bool \<Rightarrow> engine \<Rightarrow> engine" where
  "set_resume g b e =
     (case map_of (moving e) g of
        None \<Rightarrow> e
      | Some m \<Rightarrow> e\<lparr>moving := map_put g (m\<lparr>m_resume := b\<rparr>) (moving e)\<rparr>)"

definition pause :: "virtual \<Rightarrow> nat \<Rightarrow> bool \<Rightarrow> engine \<Rightarrow> engine" where
  "pause v t force e =
     (let e = set_resume (gid_of e t) False e
      in case state_of e t of
           Waiting \<Rightarrow> emit Pause t (set_state t Paused e)
         | Active \<Rightarrow> if t_stopping (objs e t) then e else stopTask v t force Paused e
         | _ \<Rightarrow> e)"

definition unpause :: "nat \<Rightarrow> engine \<Rightarrow> engine" where
  "unpause t e =
     (if map_of (moving e) (gid_of e t) \<noteq> None then set_resume (gid_of e t) True e
      else if state_of e t = Paused then schedule (set_state t Waiting e)
      else e)"

definition remove :: "virtual \<Rightarrow> nat \<Rightarrow> bool \<Rightarrow> engine \<Rightarrow> string + engine" where
  "remove v t force e =
     (if map_of (moving e) (gid_of e t) \<noteq> None then Inl ''Wait until the download has been moved''
      else Inr
        (case state_of e t of
           Active \<Rightarrow> if \<not> t_stopping (objs e t) \<or> force then stopTask v t force Removed e else e
         | Complete \<Rightarrow> e
         | Failed \<Rightarrow> e
         | Removed \<Rightarrow> e
         | _ \<Rightarrow>
             retire t Removed
               (on_task t (\<lambda>k. k\<lparr>t_errorCode := removed_code, t_errorMessage := ''Removed''\<rparr>)
                 (e\<lparr>waiting := removeAll t (waiting e)\<rparr>))))"

definition resume_all :: "bool \<Rightarrow> engine \<Rightarrow> engine" where
  "resume_all b e = e\<lparr>moving := map (\<lambda>(g, m). (g, m\<lparr>m_resume := b\<rparr>)) (moving e)\<rparr>"

definition pauseAll :: "virtual \<Rightarrow> bool \<Rightarrow> engine \<Rightarrow> engine" where
  "pauseAll v force e =
     (let e = resume_all False e;
          e = fold (\<lambda>t. pause v t force) (active e) e
      in fold (\<lambda>t e. if state_of e t = Waiting then emit Pause t (set_state t Paused e) else e) (waiting e) e)"

definition unpauseAll :: "engine \<Rightarrow> engine" where
  "unpauseAll e =
     (let e = resume_all True e
      in schedule
           (fold
             (\<lambda>t e. if state_of e t = Paused \<and> map_of (moving e) (gid_of e t) = None
                    then set_state t Waiting e else e)
             (waiting e) e))"

definition relocate :: "virtual \<Rightarrow> nat \<Rightarrow> string \<Rightarrow> engine \<Rightarrow> string + engine" where
  "relocate v t dir e =
     (if map_of (moving e) (gid_of e t) \<noteq> None then Inl ''This download is already being moved''
      else if v_relocation v t dir = None then Inl ''This download cannot be moved''
      else
        let moves_to = (\<lambda>r. e\<lparr>moving := map_put (gid_of e t) \<lparr>m_dir = dir, m_resume = r, m_started = False\<rparr> (moving e)\<rparr>)
        in case state_of e t of
             Waiting \<Rightarrow> Inr (moveFilesOf v t (set_state t Paused (moves_to True)))
           | Paused \<Rightarrow> Inr (moveFilesOf v t (moves_to False))
           | Active \<Rightarrow>
               Inr (if t_stopping (objs e t) then moves_to True else stopTask v t True Paused (moves_to True))
           | _ \<Rightarrow> Inl ''Only unfinished downloads can be moved'')"

text \<open>What \<open>moveFilesOf\<close> does when the disk threads answer.\<close>

definition files_moved :: "nat \<Rightarrow> string \<Rightarrow> engine \<Rightarrow> engine" where
  "files_moved t error e =
     (case map_of (moving e) (gid_of e t) of
        None \<Rightarrow> e\<lparr>crashed := True\<rparr>
      | Some m \<Rightarrow>
          let e = e\<lparr>moving := map_erase (gid_of e t) (moving e)\<rparr>;
              e = (if error = [] then tell (Relocated t (m_dir m)) (on_task t (\<lambda>k. k\<lparr>t_dir := m_dir m\<rparr>) e) else e);
              e = (if m_resume m then unpause t e else e)
          in tell (MoveAnswered (gid_of e t) error) e)"

text \<open>Two's complement arithmetic on \<open>int64_t\<close>.\<close>

definition wrap64 :: "int \<Rightarrow> int" where
  "wrap64 i = (i + 2 ^ 63) mod 2 ^ 64 - 2 ^ 63"

fun index_of :: "'a \<Rightarrow> 'a list \<Rightarrow> nat" where
  "index_of x [] = 0"
| "index_of x (y # ys) = (if x = y then 0 else Suc (index_of x ys))"

definition move_task :: "nat \<Rightarrow> int \<Rightarrow> position \<Rightarrow> engine \<Rightarrow> string + (nat \<times> engine)" where
  "move_task t offset how e =
     (if t \<notin> set (waiting e) then Inl (''GID '' @ gidText (gid_of e t) @ '' is not in the waiting queue'')
      else
        let current = int (index_of t (waiting e));
            rest = remove1 t (waiting e);
            size = int (length rest);
            target = (case how of Set \<Rightarrow> offset | Current \<Rightarrow> wrap64 (current + offset) | End \<Rightarrow> wrap64 (size + offset));
            target = nat (clamp target 0 size)
        in Inr (target, e\<lparr>waiting := take target rest @ t # drop target rest\<rparr>))"

fun replace_first :: "'a \<Rightarrow> 'a \<Rightarrow> 'a list \<Rightarrow> 'a list" where
  "replace_first x y [] = []"
| "replace_first x y (z # zs) = (if x = z then y # zs else z # replace_first x y zs)"

definition handOver :: "virtual \<Rightarrow> nat \<Rightarrow> nat \<Rightarrow> engine \<Rightarrow> engine" where
  "handOver v current next e =
     (if current \<notin> set (active e) \<or> gid_of e next \<noteq> gid_of e current then e
      else
        let e = e\<lparr>active := replace_first current next (active e), tasks := map_put (gid_of e next) next (tasks e)\<rparr>;
            e = on_task next
                  (\<lambda>k. k\<lparr>t_state := Active, t_following := t_following (objs e current),
                         t_belongsTo := t_belongsTo (objs e current)\<rparr>) e;
            e = set_state current Removed e
        in run_start v next e)"

subsection \<open>Filling the slots, shutting down\<close>

definition shutdown :: "virtual \<Rightarrow> bool \<Rightarrow> engine \<Rightarrow> engine" where
  "shutdown v force e =
     (if shuttingDown e \<and> \<not> (force \<and> \<not> forceShutdown e) then e
      else
        let e = e\<lparr>shuttingDown := True, forceShutdown := forceShutdown e \<or> force\<rparr>
        in if active e = [] then post FinishShutdown e
           else
             fold (\<lambda>t e. if \<not> t_stopping (objs e t) \<or> force then stopTask v t force Waiting e else e)
               (active e) e)"

text \<open>The loop of \<open>fill\<close>: \<open>passed\<close> are the waiting tasks the iterator has gone by.\<close>

fun fill_loop :: "virtual \<Rightarrow> nat \<Rightarrow> nat list \<Rightarrow> nat list \<Rightarrow> engine \<Rightarrow> engine" where
  "fill_loop v limit passed [] e = e"
| "fill_loop v limit passed (t # rest) e =
     (if activeCount e \<ge> limit then e
      else if state_of e t \<noteq> Waiting then fill_loop v limit (passed @ [t]) rest e
      else fill_loop v limit passed rest (startTask v t (e\<lparr>waiting := passed @ rest\<rparr>)))"

definition fill :: "virtual \<Rightarrow> engine \<Rightarrow> engine" where
  "fill v e =
     (if shuttingDown e then e
      else
        let e = fill_loop v (size_t_of (max_concurrent (global e))) [] (waiting e) e
        in if active e = [] \<and> \<not> queued e \<and> \<not> enable_rpc (global e) then shutdown v False e else e)"

text \<open>One handler of the event loop.\<close>

fun run_job :: "virtual \<Rightarrow> job \<Rightarrow> engine \<Rightarrow> engine" where
  "run_job v Fill e = fill v (e\<lparr>scheduled := False\<rparr>)"
| "run_job v (Retire t s) e = retire t s e"
| "run_job v FinishShutdown e = finishShutdown e"

text \<open>The timer: checkpoints and the session file when they are due, then the two ways to end the
  program; \<open>alive\<close> tells whether the watched process runs.\<close>

definition seconds :: "int \<Rightarrow> int" where
  "seconds s = s * 1000000000"

definition tick_checkpoint :: "int \<Rightarrow> engine \<Rightarrow> engine" where
  "tick_checkpoint now e =
     (if now - lastCheckpoint e \<ge> seconds (state_interval (global e))
      then fold (\<lambda>t. tell (Checkpointed t)) (active e) (e\<lparr>lastCheckpoint := now\<rparr>) else e)"

definition tick_session :: "int \<Rightarrow> engine \<Rightarrow> engine" where
  "tick_session now e =
     (if session_interval (global e) > 0 \<and> now - lastSessionSave e \<ge> seconds (session_interval (global e))
      then saveSession (e\<lparr>lastSessionSave := now\<rparr>) else e)"

definition tick_stop :: "virtual \<Rightarrow> int \<Rightarrow> engine \<Rightarrow> engine" where
  "tick_stop v now e =
     (if stop_after (global e) > 0 \<and> now - started e \<ge> seconds (stop_after (global e)) then shutdown v False e else e)"

definition tick_process :: "virtual \<Rightarrow> (int \<Rightarrow> bool) \<Rightarrow> engine \<Rightarrow> engine" where
  "tick_process v alive e =
     (if stop_process (global e) > 0 \<and> \<not> alive (stop_process (global e)) then shutdown v False e else e)"

definition tick :: "virtual \<Rightarrow> (int \<Rightarrow> bool) \<Rightarrow> int \<Rightarrow> engine \<Rightarrow> engine" where
  "tick v alive now e = tick_process v alive (tick_stop v now (tick_session now (tick_checkpoint now e)))"

definition engine_run :: "virtual \<Rightarrow> (int \<Rightarrow> bool) \<Rightarrow> int \<Rightarrow> engine \<Rightarrow> engine" where
  "engine_run v alive now e = schedule (tick v alive now e)"

definition globalOptionsChanged ::
  "(string \<Rightarrow> bool) \<Rightarrow> (nat \<Rightarrow> string \<Rightarrow> bool) \<Rightarrow> string list \<Rightarrow> engine \<Rightarrow> engine" where
  "globalOptionsChanged live hasOwn names e =
     (let e = fold (\<lambda>name e. if name = ''max-concurrent-downloads'' then schedule e else e) names e;
          e = fold (\<lambda>name e.
                if live name
                then fold (\<lambda>t e. if hasOwn t name then e else tell (OptionChanged t name) e) (active e) e
                else e) names e;
          e = (if has_http e then tell HttpChanged e else e);
          e = (if has_bt e then tell BtChanged e else e)
      in if has_ed2k e then tell Ed2kChanged e else e)"

subsection \<open>Views\<close>

definition writing :: "(nat \<Rightarrow> string list) \<Rightarrow> (string \<Rightarrow> string \<Rightarrow> bool) \<Rightarrow> engine \<Rightarrow> string \<Rightarrow> gid \<Rightarrow> bool" where
  "writing files samePath e path except =
     (\<exists>(g, t) \<in> set (tasks e).
        g \<noteq> except \<and> state_of e t \<notin> {Complete, Failed, Removed} \<and>
        (\<exists>f \<in> set (files t). f \<noteq> [] \<and> samePath f path))"

record stat =
  downloadSpeed :: int
  uploadSpeed :: int
  numActive :: nat
  numWaiting :: nat
  numStopped :: nat
  numStoppedTotal :: nat

definition engine_stat :: "(nat \<Rightarrow> int) \<Rightarrow> (nat \<Rightarrow> int) \<Rightarrow> engine \<Rightarrow> stat" where
  "engine_stat down up e =
     \<lparr>downloadSpeed = sum_list (map down (active e)), uploadSpeed = sum_list (map up (active e)),
      numActive = length (active e), numWaiting = length (waiting e), numStopped = length (stopped e),
      numStoppedTotal = stoppedTotal e\<rparr>"

end
