(* ===== verification/Engine_Queues.thy ===== *)
theory Engine_Queues
  imports Engine
begin

text \<open>
  The invariant of the engine's queues, and what the small moves between the queues keep of it. A task
  that a handler has taken out of one queue and not yet put into another is \<^emph>\<open>held\<close>: the invariant
  \<open>core_ok held e\<close> covers the states in the middle of a handler too.
\<close>

section \<open>The invariant\<close>

definition members :: "nat list \<Rightarrow> engine \<Rightarrow> nat list" where
  "members held e = held @ active e @ waiting e @ stopped e"

definition retiring :: "job list \<Rightarrow> nat list" where
  "retiring js = concat (map (\<lambda>j. case j of Retire t s \<Rightarrow> [t] | _ \<Rightarrow> []) js)"

definition queues_ok :: "nat list \<Rightarrow> engine \<Rightarrow> bool" where
  "queues_ok held e \<longleftrightarrow>
     distinct (members held e) \<and>
     (\<forall>t \<in> set (active e). state_of e t = Active) \<and>
     (\<forall>t \<in> set (waiting e). state_of e t = Waiting \<or> state_of e t = Paused) \<and>
     (\<forall>t \<in> set (stopped e). state_of e t = Complete \<or> state_of e t = Failed \<or> state_of e t = Removed)"

definition table_ok :: "nat list \<Rightarrow> engine \<Rightarrow> bool" where
  "table_ok held e \<longleftrightarrow>
     keys_ascend (tasks e) \<and>
     (\<forall>g t. map_of (tasks e) g = Some t \<longleftrightarrow> t \<in> set (members held e) \<and> gid_of e t = g)"

definition stops_ok :: "nat list \<Rightarrow> engine \<Rightarrow> bool" where
  "stops_ok held e \<longleftrightarrow>
     distinct (map fst (stops e)) \<and>
     snd ` set (stops e) \<subseteq> {Waiting, Paused, Removed} \<and>
     fst ` set (stops e) \<subseteq> set (active e) \<and>
     (\<forall>t \<in> set (members held e). t_stopping (objs e t) \<longleftrightarrow> t \<in> fst ` set (stops e))"

definition jobs_ok :: "engine \<Rightarrow> bool" where
  "jobs_ok e \<longleftrightarrow>
     length (filter (\<lambda>j. j = Fill) (jobs e)) = (if scheduled e then 1 else 0) \<and>
     distinct (retiring (jobs e)) \<and>
     (\<forall>t s. Retire t s \<in> set (jobs e) \<longrightarrow>
        t \<in> set (active e) \<and> \<not> t_stopping (objs e t) \<and> (s = Complete \<or> s = Failed))"

definition move_ok :: "nat list \<Rightarrow> engine \<Rightarrow> nat \<Rightarrow> move \<Rightarrow> bool" where
  "move_ok held e t m \<longleftrightarrow>
     (if m_started m then t \<in> set held \<union> set (waiting e) \<and> state_of e t = Paused \<and> t \<in> fst ` set (disk_work e)
      else t \<in> set held \<or> t \<in> set (active e) \<and> t_stopping (objs e t))"

definition moving_ok :: "nat list \<Rightarrow> engine \<Rightarrow> bool" where
  "moving_ok held e \<longleftrightarrow>
     keys_ascend (moving e) \<and>
     (\<forall>g m. map_of (moving e) g = Some m \<longrightarrow> (\<exists>t. map_of (tasks e) g = Some t \<and> move_ok held e t m)) \<and>
     distinct (map fst (disk_work e)) \<and>
     (\<forall>t \<in> fst ` set (disk_work e).
        t \<in> set held \<union> set (waiting e) \<and> (\<exists>m. map_of (moving e) (gid_of e t) = Some m \<and> m_started m))"

definition core_ok :: "nat list \<Rightarrow> engine \<Rightarrow> bool" where
  "core_ok held e \<longleftrightarrow> queues_ok held e \<and> table_ok held e \<and> stops_ok held e \<and> jobs_ok e \<and> moving_ok held e"

lemmas core_defs = core_ok_def queues_ok_def table_ok_def stops_ok_def jobs_ok_def moving_ok_def move_ok_def

section \<open>Changes the invariant does not see\<close>

lemma members_simps [simp]:
  "members held (e\<lparr>objs := x1\<rparr>) = members held e"
  "members held (e\<lparr>tasks := x2\<rparr>) = members held e"
  "members held (e\<lparr>moving := x3\<rparr>) = members held e"
  "members held (e\<lparr>stops := x4\<rparr>) = members held e"
  "members held (e\<lparr>jobs := x5\<rparr>) = members held e"
  "members held (e\<lparr>disk_work := x6\<rparr>) = members held e"
  "members held (e\<lparr>effects := x7\<rparr>) = members held e"
  "members held (e\<lparr>scheduled := x8\<rparr>) = members held e"
  by (simp_all add: members_def)

lemma core_ok_unseen [simp]:
  "core_ok held (e\<lparr>effects := x1\<rparr>) = core_ok held e"
  "core_ok held (e\<lparr>global := x2\<rparr>) = core_ok held e"
  "core_ok held (e\<lparr>exitStatus := x3\<rparr>) = core_ok held e"
  "core_ok held (e\<lparr>stoppedTotal := x4\<rparr>) = core_ok held e"
  "core_ok held (e\<lparr>shuttingDown := x5\<rparr>) = core_ok held e"
  "core_ok held (e\<lparr>forceShutdown := x6\<rparr>) = core_ok held e"
  "core_ok held (e\<lparr>finished := x7\<rparr>) = core_ok held e"
  "core_ok held (e\<lparr>loop_stopped := x8\<rparr>) = core_ok held e"
  "core_ok held (e\<lparr>has_disk := x9\<rparr>) = core_ok held e"
  "core_ok held (e\<lparr>has_http := x10\<rparr>) = core_ok held e"
  "core_ok held (e\<lparr>has_bt := x11\<rparr>) = core_ok held e"
  "core_ok held (e\<lparr>has_ed2k := x12\<rparr>) = core_ok held e"
  "core_ok held (e\<lparr>lastCheckpoint := x13\<rparr>) = core_ok held e"
  "core_ok held (e\<lparr>lastSessionSave := x14\<rparr>) = core_ok held e"
  "core_ok held (e\<lparr>crashed := x15\<rparr>) = core_ok held e"
  by (simp_all add: core_defs members_def)

lemma core_ok_tell [simp]: "core_ok held (tell x e) = core_ok held e"
  by (simp add: tell_def)

lemma core_ok_emit [simp]: "core_ok held (emit v t e) = core_ok held e"
  by (simp add: emit_def)

lemma core_ok_on_task:
  assumes "\<And>k. t_gid (f k) = t_gid k \<and> t_state (f k) = t_state k \<and> t_stopping (f k) = t_stopping k"
  shows "core_ok held (on_task t f e) = core_ok held e"
proof -
  have "gid_of (on_task t f e) u = gid_of e u \<and> state_of (on_task t f e) u = state_of e u \<and>
    t_stopping (objs (on_task t f e) u) = t_stopping (objs e u)" for u
    using assms by (simp add: on_task_def)
  moreover have "tasks (on_task t f e) = tasks e" "active (on_task t f e) = active e"
    "waiting (on_task t f e) = waiting e" "stopped (on_task t f e) = stopped e"
    "moving (on_task t f e) = moving e" "jobs (on_task t f e) = jobs e" "stops (on_task t f e) = stops e"
    "scheduled (on_task t f e) = scheduled e" "disk_work (on_task t f e) = disk_work e"
    by (simp_all add: on_task_def)
  ultimately show ?thesis by (simp add: core_defs members_def)
qed

lemma retiring_append [simp]: "retiring (xs @ ys) = retiring xs @ retiring ys"
  by (simp add: retiring_def)

lemma retiring_simps [simp]:
  "retiring [] = []"
  "retiring (Fill # js) = retiring js"
  "retiring (FinishShutdown # js) = retiring js"
  "retiring (Retire t s # js) = t # retiring js"
  by (simp_all add: retiring_def)

lemma in_retiring: "t \<in> set (retiring js) \<longleftrightarrow> (\<exists>s. Retire t s \<in> set js)"
  by (induction js) (auto simp: retiring_def split: job.splits)

lemma core_ok_schedule [simp]: "core_ok held (schedule e) = core_ok held e"
proof (cases "scheduled e")
  case False
  have "jobs_ok (post Fill (e\<lparr>scheduled := True\<rparr>)) = jobs_ok e" using False by (simp add: jobs_ok_def)
  moreover have "core_ok held (post Fill (e\<lparr>scheduled := True\<rparr>)) =
      (queues_ok held e \<and> table_ok held e \<and> stops_ok held e \<and> jobs_ok (post Fill (e\<lparr>scheduled := True\<rparr>)) \<and> moving_ok held e)"
    by (simp add: core_ok_def queues_ok_def table_ok_def stops_ok_def moving_ok_def move_ok_def members_def)
  ultimately show ?thesis using False by (simp add: schedule_def core_ok_def)
qed (simp add: schedule_def)

lemma core_ok_finish [simp]: "core_ok held (post FinishShutdown e) = core_ok held e"
  by (simp add: core_defs members_def)

section \<open>Moves between the queues\<close>

lemma core_okE:
  assumes "core_ok held e"
  shows "queues_ok held e" and "table_ok held e" and "stops_ok held e" and "jobs_ok e" and "moving_ok held e"
  using assms by (simp_all add: core_ok_def)

text \<open>Two states with the same members and the same tables differ at most in how tasks sit in the
  queues.\<close>

lemma table_ok_cong:
  assumes "table_ok held e" and "tasks e' = tasks e" and "set (members held' e') = set (members held e)"
    and "\<And>t. gid_of e' t = gid_of e t"
  shows "table_ok held' e'"
  using assms by (simp add: table_ok_def)

lemma moving_ok_cong:
  assumes "moving_ok held e" and "tasks e' = tasks e" and "moving e' = moving e" and "disk_work e' = disk_work e"
    and "\<And>t. gid_of e' t = gid_of e t"
    and "\<And>g m t. map_of (moving e) g = Some m \<Longrightarrow> map_of (tasks e) g = Some t \<Longrightarrow> move_ok held e t m \<Longrightarrow> move_ok held' e' t m"
    and "set held \<union> set (waiting e) \<subseteq> set held' \<union> set (waiting e')"
  shows "moving_ok held' e'"
proof -
  have "\<exists>t. map_of (tasks e') g = Some t \<and> move_ok held' e' t m" if m: "map_of (moving e') g = Some m" for g m
  proof -
    obtain t where "map_of (tasks e) g = Some t" "move_ok held e t m"
      using assms(1) m unfolding moving_ok_def assms(3) by blast
    then show ?thesis using assms(6) [of g m t] m unfolding assms(2,3) by blast
  qed
  moreover have "t \<in> set held' \<union> set (waiting e') \<and> (\<exists>m. map_of (moving e') (gid_of e' t) = Some m \<and> m_started m)"
    if "t \<in> fst ` set (disk_work e')" for t
    using assms(1,7) that unfolding moving_ok_def assms(3,4,5) by blast
  ultimately show ?thesis using assms(1) unfolding moving_ok_def assms(3,4) by blast
qed

lemma held_gid:
  assumes "core_ok held e" and "t \<in> set (members held e)"
  shows "map_of (tasks e) (gid_of e t) = Some t"
  using assms by (simp add: core_ok_def table_ok_def)

lemma same_gid:
  assumes "core_ok held e" and "t \<in> set (members held e)" and "u \<in> set (members held e)"
  shows "gid_of e t = gid_of e u \<longleftrightarrow> t = u"
  using held_gid [OF assms(1,2)] held_gid [OF assms(1,3)] by (metis option.inject)

lemma take_active:
  assumes ok: "core_ok [] e" and t: "t \<in> set (active e)" "\<not> t_stopping (objs e t)" "t \<notin> set (retiring (jobs e))"
  shows "core_ok [t] (e\<lparr>active := removeAll t (active e)\<rparr>)"
proof -
  have "queues_ok [t] (e\<lparr>active := removeAll t (active e)\<rparr>)"
    using core_okE(1) [OF ok] t by (auto simp: queues_ok_def members_def distinct_removeAll)
  moreover have "table_ok [t] (e\<lparr>active := removeAll t (active e)\<rparr>)"
    using t by (intro table_ok_cong [OF core_okE(2) [OF ok]]) (auto simp: members_def)
  moreover have "stops_ok [t] (e\<lparr>active := removeAll t (active e)\<rparr>)"
    using core_okE(3) [OF ok] t by (auto simp: stops_ok_def members_def)
  moreover have "jobs_ok (e\<lparr>active := removeAll t (active e)\<rparr>)"
    using core_okE(4) [OF ok] t by (auto simp: jobs_ok_def in_retiring)
  moreover have "moving_ok [t] (e\<lparr>active := removeAll t (active e)\<rparr>)"
    by (rule moving_ok_cong [OF core_okE(5) [OF ok]]) (auto simp: move_ok_def split: if_splits)
  ultimately show ?thesis by (simp add: core_ok_def)
qed

text \<open>A task whose stop calls back leaves the active queue.\<close>

lemma take_stopping:
  assumes ok: "core_ok [] (e\<lparr>stops := (t, n) # stops e\<rparr>)"
  shows "core_ok [t] (on_task t (\<lambda>k. k\<lparr>t_stopping := False\<rparr>) (e\<lparr>active := removeAll t (active e)\<rparr>))"
    (is "core_ok _ ?e")
proof -
  have t: "t \<in> set (active e)" "t_stopping (objs e t)" "t \<notin> fst ` set (stops e)"
    using core_okE(3) [OF ok] by (auto simp: stops_ok_def members_def)
  have "queues_ok [t] ?e"
    using core_okE(1) [OF ok] t by (auto simp: queues_ok_def members_def distinct_removeAll on_task_def)
  moreover have "table_ok [t] ?e"
    using t by (intro table_ok_cong [OF core_okE(2) [OF ok]]) (auto simp: members_def on_task_def)
  moreover have "stops_ok [t] ?e"
    using core_okE(3) [OF ok] t by (auto simp: stops_ok_def members_def on_task_def)
  moreover have "jobs_ok ?e"
    using core_okE(4) [OF ok] t by (auto simp: jobs_ok_def on_task_def)
  moreover have "moving_ok [t] ?e"
    by (rule moving_ok_cong [OF core_okE(5) [OF ok]]) (auto simp: move_ok_def on_task_def split: if_splits)
  ultimately show ?thesis by (simp add: core_ok_def)
qed

lemma take_waiting:
  assumes ok: "core_ok [] e" and t: "t \<in> set (waiting e)"
  shows "core_ok [t] (e\<lparr>waiting := removeAll t (waiting e)\<rparr>)" (is "core_ok _ ?e")
proof -
  have "queues_ok [t] ?e"
    using core_okE(1) [OF ok] t by (auto simp: queues_ok_def members_def distinct_removeAll)
  moreover have "table_ok [t] ?e"
    using t by (intro table_ok_cong [OF core_okE(2) [OF ok]]) (auto simp: members_def)
  moreover have "stops_ok [t] ?e"
    using core_okE(3) [OF ok] t by (auto simp: stops_ok_def members_def)
  moreover have "jobs_ok ?e"
    using core_okE(4) [OF ok] by (simp add: jobs_ok_def)
  moreover have "moving_ok [t] ?e"
    by (rule moving_ok_cong [OF core_okE(5) [OF ok]]) (auto simp: move_ok_def split: if_splits)
  ultimately show ?thesis by (simp add: core_ok_def)
qed

lemma take_stopped:
  assumes ok: "core_ok [] e" and t: "t \<in> set (stopped e)"
  shows "core_ok [t] (e\<lparr>stopped := remove1 t (stopped e)\<rparr>)" (is "core_ok _ ?e")
proof -
  have same: "set (remove1 t (stopped e)) = set (stopped e) - {t}"
    using core_okE(1) [OF ok] by (simp add: queues_ok_def members_def)
  have "queues_ok [t] ?e"
    using core_okE(1) [OF ok] t same by (auto simp: queues_ok_def members_def)
  moreover have "table_ok [t] ?e"
    using t same by (intro table_ok_cong [OF core_okE(2) [OF ok]]) (auto simp: members_def)
  moreover have "stops_ok [t] ?e"
    using core_okE(3) [OF ok] t same by (auto simp: stops_ok_def members_def)
  moreover have "jobs_ok ?e"
    using core_okE(4) [OF ok] by (simp add: jobs_ok_def)
  moreover have "moving_ok [t] ?e"
    by (rule moving_ok_cong [OF core_okE(5) [OF ok]]) (auto simp: move_ok_def split: if_splits)
  ultimately show ?thesis by (simp add: core_ok_def)
qed

text \<open>A held task can be changed and put anywhere its state allows.\<close>

definition still :: "engine \<Rightarrow> nat \<Rightarrow> bool" where
  "still e t \<longleftrightarrow> map_of (moving e) (gid_of e t) = None"

lemma still_no_work:
  assumes "core_ok held e" and "still e t"
  shows "t \<notin> fst ` set (disk_work e)"
  using core_okE(5) [OF assms(1)] assms(2) by (auto simp: moving_ok_def still_def)

lemma still_move:
  assumes "core_ok held e" and "still e t" and "t \<in> set (members held e)"
    and "map_of (moving e) g = Some m" and "map_of (tasks e) g = Some u"
  shows "u \<noteq> t"
proof
  assume "u = t"
  then have "gid_of e t = g" using core_okE(2) [OF assms(1)] assms(5) by (simp add: table_ok_def)
  then show False using assms(2,4) by (simp add: still_def)
qed

lemma held_not:
  assumes "core_ok [t] e"
  shows "t \<notin> set (active e)" and "t \<notin> set (waiting e)" and "t \<notin> set (stopped e)"
    and "t \<notin> fst ` set (stops e)" and "\<not> t_stopping (objs e t)" and "t \<in> set (members [t] e)"
proof -
  show t: "t \<notin> set (active e)" "t \<notin> set (waiting e)" "t \<notin> set (stopped e)" "t \<in> set (members [t] e)"
    using core_okE(1) [OF assms] by (auto simp: queues_ok_def members_def)
  show "t \<notin> fst ` set (stops e)" "\<not> t_stopping (objs e t)"
    using core_okE(3) [OF assms] t by (auto simp: stops_ok_def)
qed

text \<open>A task that is not being moved leaves the moves alone.\<close>

lemma moving_ok_release:
  assumes ok: "core_ok [t] e" and "still e t"
    and e': "tasks e' = tasks e" "moving e' = moving e" "disk_work e' = disk_work e" "objs e' = objs e"
      "waiting e' = waiting e" "set (active e) \<subseteq> set (active e')"
  shows "moving_ok [] e'"
proof -
  have "\<exists>u. map_of (tasks e) g = Some u \<and> move_ok [] e' u m" if g: "map_of (moving e) g = Some m" for g m
  proof -
    obtain u where u: "map_of (tasks e) g = Some u" "move_ok [t] e u m"
      using core_okE(5) [OF ok] g unfolding moving_ok_def by blast
    moreover have "u \<noteq> t" using still_move [OF ok assms(2) held_not(6) [OF ok] g u(1)] .
    ultimately show ?thesis using e' by (auto simp: move_ok_def split: if_splits)
  qed
  moreover have "u \<noteq> t" if "u \<in> fst ` set (disk_work e)" for u
    using still_no_work [OF ok assms(2)] that by blast
  ultimately show ?thesis using core_okE(5) [OF ok] by (auto simp: moving_ok_def e')
qed

lemma change_held:
  assumes ok: "core_ok [t] e" and loose: "\<And>m. map_of (moving e) (gid_of e t) = Some m \<Longrightarrow> \<not> m_started m"
    and f: "t_gid (f (objs e t)) = t_gid (objs e t)" "t_stopping (f (objs e t)) = t_stopping (objs e t)"
  shows "core_ok [t] (on_task t f e)"
proof -
  note held = held_not [OF ok]
  have "queues_ok [t] (on_task t f e)"
    using core_okE(1) [OF ok] held by (auto simp: queues_ok_def members_def on_task_def)
  moreover have "table_ok [t] (on_task t f e)"
    using f by (intro table_ok_cong [OF core_okE(2) [OF ok]]) (auto simp: members_def on_task_def)
  moreover have "stops_ok [t] (on_task t f e)"
    using core_okE(3) [OF ok] f by (auto simp: stops_ok_def members_def on_task_def)
  moreover have "jobs_ok (on_task t f e)"
    using core_okE(4) [OF ok] f by (auto simp: jobs_ok_def on_task_def)
  moreover have "moving_ok [t] (on_task t f e)"
  proof (rule moving_ok_cong [OF core_okE(5) [OF ok]])
    fix g m u assume g: "map_of (moving e) g = Some m" "map_of (tasks e) g = Some u" and m: "move_ok [t] e u m"
    have "gid_of e u = g" using core_okE(2) [OF ok] g by (simp add: table_ok_def)
    then have "u = t \<Longrightarrow> \<not> m_started m" using loose g by auto
    then show "move_ok [t] (on_task t f e) u m" using m by (auto simp: move_ok_def on_task_def split: if_splits)
  qed (use f in \<open>auto simp: on_task_def\<close>)
  ultimately show ?thesis by (simp add: core_ok_def)
qed

lemma put_waiting:
  assumes ok: "core_ok [t] e" and state: "state_of e t = Waiting \<or> state_of e t = Paused"
    and w: "waiting e = xs @ ys" and moving: "\<And>m. map_of (moving e) (gid_of e t) = Some m \<Longrightarrow> m_started m"
  shows "core_ok [] (e\<lparr>waiting := xs @ t # ys\<rparr>)" (is "core_ok _ ?e")
proof -
  note held = held_not [OF ok]
  have "queues_ok [] ?e"
    using core_okE(1) [OF ok] held state w by (auto simp: queues_ok_def members_def)
  moreover have "table_ok [] ?e"
    using w by (intro table_ok_cong [OF core_okE(2) [OF ok]]) (auto simp: members_def)
  moreover have "stops_ok [] ?e"
    using core_okE(3) [OF ok] w by (auto simp: stops_ok_def members_def)
  moreover have "jobs_ok ?e"
    using core_okE(4) [OF ok] by (simp add: jobs_ok_def)
  moreover have "moving_ok [] ?e"
  proof (rule moving_ok_cong [OF core_okE(5) [OF ok]])
    fix g m u assume g: "map_of (moving e) g = Some m" "map_of (tasks e) g = Some u" and m: "move_ok [t] e u m"
    have "gid_of e u = g" using core_okE(2) [OF ok] g by (simp add: table_ok_def)
    then have "u = t \<Longrightarrow> m_started m" using moving g by auto
    then show "move_ok [] ?e u m" using m w by (auto simp: move_ok_def split: if_splits)
  qed (use w in auto)
  ultimately show ?thesis by (simp add: core_ok_def)
qed

lemma put_active:
  assumes ok: "core_ok [t] e" and state: "state_of e t = Active" and w: "active e = xs @ ys" and "still e t"
  shows "core_ok [] (e\<lparr>active := xs @ t # ys\<rparr>)" (is "core_ok _ ?e")
proof -
  note held = held_not [OF ok]
  have "queues_ok [] ?e"
    using core_okE(1) [OF ok] held state w by (auto simp: queues_ok_def members_def)
  moreover have "table_ok [] ?e"
    using w by (intro table_ok_cong [OF core_okE(2) [OF ok]]) (auto simp: members_def)
  moreover have "stops_ok [] ?e"
    using core_okE(3) [OF ok] w by (auto simp: stops_ok_def members_def)
  moreover have "jobs_ok ?e"
    using core_okE(4) [OF ok] w by (auto simp: jobs_ok_def)
  moreover have "moving_ok [] ?e"
    by (rule moving_ok_release [OF ok assms(4)]) (auto simp: w)
  ultimately show ?thesis by (simp add: core_ok_def)
qed

lemma put_stopped:
  assumes ok: "core_ok [t] e" and state: "state_of e t = Complete \<or> state_of e t = Failed \<or> state_of e t = Removed"
    and "still e t"
  shows "core_ok [] (e\<lparr>stopped := stopped e @ [t]\<rparr>)" (is "core_ok _ ?e")
proof -
  note held = held_not [OF ok]
  have "queues_ok [] ?e"
    using core_okE(1) [OF ok] held state by (auto simp: queues_ok_def members_def)
  moreover have "table_ok [] ?e"
    by (intro table_ok_cong [OF core_okE(2) [OF ok]]) (auto simp: members_def)
  moreover have "stops_ok [] ?e"
    using core_okE(3) [OF ok] by (auto simp: stops_ok_def members_def)
  moreover have "jobs_ok ?e"
    using core_okE(4) [OF ok] by (simp add: jobs_ok_def)
  moreover have "moving_ok [] ?e"
    by (rule moving_ok_release [OF ok assms(3)]) simp_all
  ultimately show ?thesis by (simp add: core_ok_def)
qed

text \<open>Entering and leaving the table.\<close>

definition fresh :: "engine \<Rightarrow> nat \<Rightarrow> bool" where
  "fresh e t \<longleftrightarrow> t \<notin> set (members [] e) \<and> map_of (tasks e) (gid_of e t) = None \<and> \<not> t_stopping (objs e t)"

lemma add_fresh:
  assumes ok: "core_ok [] e" and t: "fresh e t"
  shows "core_ok [t] (e\<lparr>tasks := map_put (gid_of e t) t (tasks e)\<rparr>)" (is "core_ok _ ?e")
    and "still e t"
proof -
  have new: "t \<notin> set (members [] e)" "map_of (tasks e) (gid_of e t) = None" "\<not> t_stopping (objs e t)"
    using t by (auto simp: fresh_def)
  have no: "map_of (moving e) (gid_of e t) = None"
  proof (rule ccontr)
    assume "map_of (moving e) (gid_of e t) \<noteq> None"
    then show False using core_okE(5) [OF ok] new(2) unfolding moving_ok_def by fastforce
  qed
  then show "still e t" by (simp add: still_def)
  have "queues_ok [t] ?e"
    using core_okE(1) [OF ok] new by (auto simp: queues_ok_def members_def)
  moreover have "table_ok [t] ?e"
  proof -
    have "gid_of e u \<noteq> gid_of e t" if "u \<in> set (members [] e)" for u
      using held_gid [OF ok that] new(2) by auto
    then show ?thesis
      using core_okE(2) [OF ok] new(1) by (auto simp: table_ok_def map_simps members_def keys_ascend_map_put)
  qed
  moreover have "stops_ok [t] ?e"
    using core_okE(3) [OF ok] new by (auto simp: stops_ok_def members_def)
  moreover have "jobs_ok ?e"
    using core_okE(4) [OF ok] by (simp add: jobs_ok_def)
  moreover have "moving_ok [t] ?e"
  proof -
    have "\<exists>u. map_of (map_put (gid_of e t) t (tasks e)) g = Some u \<and> move_ok [t] ?e u m"
      if g: "map_of (moving e) g = Some m" for g m
    proof -
      obtain u where u: "map_of (tasks e) g = Some u" "move_ok [] e u m"
        using core_okE(5) [OF ok] g unfolding moving_ok_def by blast
      moreover have "g \<noteq> gid_of e t" using g no by auto
      ultimately show ?thesis by (auto simp: map_simps move_ok_def split: if_splits)
    qed
    then show ?thesis using core_okE(5) [OF ok] by (auto simp: moving_ok_def)
  qed
  ultimately show "core_ok [t] ?e" by (simp add: core_ok_def)
qed

lemma drop_held:
  assumes ok: "core_ok [t] e" and "still e t"
  shows "core_ok [] (e\<lparr>tasks := map_erase (gid_of e t) (tasks e)\<rparr>)" (is "core_ok _ ?e")
proof -
  note held = held_not [OF ok]
  have "queues_ok [] ?e"
    using core_okE(1) [OF ok] by (auto simp: queues_ok_def members_def)
  moreover have "table_ok [] ?e"
  proof -
    have "map_of (map_erase (gid_of e t) (tasks e)) g = Some u \<longleftrightarrow> u \<in> set (members [] e) \<and> gid_of e u = g" for g u
    proof (cases "u \<in> set (members [] e)")
      case True
      then have u: "u \<in> set (members [t] e)" and "u \<noteq> t" using held by (auto simp: members_def)
      then have "gid_of e u \<noteq> gid_of e t" using same_gid [OF ok held(6) u] by auto
      then show ?thesis
        using True u core_okE(2) [OF ok] by (auto simp: table_ok_def map_simps)
    next
      case False
      then show ?thesis using core_okE(2) [OF ok] by (auto simp: table_ok_def map_simps members_def)
    qed
    then show ?thesis using core_okE(2) [OF ok] by (simp add: table_ok_def keys_ascend_map_erase)
  qed
  moreover have "stops_ok [] ?e"
    using core_okE(3) [OF ok] by (auto simp: stops_ok_def members_def)
  moreover have "jobs_ok ?e"
    using core_okE(4) [OF ok] by (simp add: jobs_ok_def)
  moreover have "moving_ok [] ?e"
  proof -
    have "\<exists>u. map_of (map_erase (gid_of e t) (tasks e)) g = Some u \<and> move_ok [] ?e u m"
      if g: "map_of (moving e) g = Some m" for g m
    proof -
      obtain u where u: "map_of (tasks e) g = Some u" "move_ok [t] e u m"
        using core_okE(5) [OF ok] g unfolding moving_ok_def by blast
      moreover have "g \<noteq> gid_of e t" using g assms(2) by (auto simp: still_def)
      moreover have "u \<noteq> t" using still_move [OF ok assms(2) held(6) g u(1)] .
      ultimately show ?thesis by (auto simp: map_simps move_ok_def split: if_splits)
    qed
    moreover have "\<And>u. u \<in> fst ` set (disk_work e) \<Longrightarrow> u \<noteq> t" using still_no_work [OF ok assms(2)] by blast
    ultimately show ?thesis using core_okE(5) [OF ok] by (auto simp: moving_ok_def)
  qed
  ultimately show ?thesis by (simp add: core_ok_def)
qed

section \<open>File moves\<close>

text \<open>Rewriting the entry of one task in the table of moves.\<close>

lemma moving_okI:
  assumes ok: "core_ok held e" and t: "t \<in> set (members held e)"
    and e': "tasks e' = tasks e" "objs e' = objs e" "waiting e' = waiting e" "active e' = active e"
    and keys: "keys_ascend (moving e')"
    and others: "\<And>g. g \<noteq> gid_of e t \<Longrightarrow> map_of (moving e') g = map_of (moving e) g"
    and work: "\<And>u. u \<noteq> t \<Longrightarrow> u \<in> fst ` set (disk_work e') \<longleftrightarrow> u \<in> fst ` set (disk_work e)"
      "distinct (map fst (disk_work e'))"
    and own: "\<And>m. map_of (moving e') (gid_of e t) = Some m \<Longrightarrow> move_ok held e' t m"
      "t \<in> fst ` set (disk_work e') \<Longrightarrow>
         t \<in> set held \<union> set (waiting e) \<and> (\<exists>m. map_of (moving e') (gid_of e t) = Some m \<and> m_started m)"
  shows "moving_ok held e'"
proof -
  have "\<exists>u. map_of (tasks e) g = Some u \<and> move_ok held e' u m" if g: "map_of (moving e') g = Some m" for g m
  proof (cases "g = gid_of e t")
    case True
    then show ?thesis using own(1) g held_gid [OF ok t] by auto
  next
    case False
    then have "map_of (moving e) g = Some m" using others g by simp
    then obtain u where u: "map_of (tasks e) g = Some u" "move_ok held e u m"
      using core_okE(5) [OF ok] unfolding moving_ok_def by blast
    then have "u \<noteq> t" using False core_okE(2) [OF ok] by (auto simp: table_ok_def)
    then show ?thesis using u work(1) [of u] e' by (auto simp: move_ok_def split: if_splits)
  qed
  moreover have "u \<in> set held \<union> set (waiting e') \<and> (\<exists>m. map_of (moving e') (gid_of e' u) = Some m \<and> m_started m)"
    if u: "u \<in> fst ` set (disk_work e')" for u
  proof (cases "u = t")
    case False
    then have old: "u \<in> fst ` set (disk_work e)" using work u by blast
    then have w: "u \<in> set held \<union> set (waiting e)" "\<exists>m. map_of (moving e) (gid_of e u) = Some m \<and> m_started m"
      using core_okE(5) [OF ok] unfolding moving_ok_def by blast+
    then have "gid_of e u \<noteq> gid_of e t" using same_gid [OF ok _ t, of u] False by (auto simp: members_def)
    then show ?thesis using w others [of "gid_of e u"] e' by simp
  qed (use own(2) u e' in auto)
  ultimately show ?thesis using keys work(2) e' by (simp add: moving_ok_def)
qed

lemma moving_unseen:
  "queues_ok held (e\<lparr>moving := mv, disk_work := w\<rparr>) = queues_ok held e"
  "table_ok held (e\<lparr>moving := mv, disk_work := w\<rparr>) = table_ok held e"
  "stops_ok held (e\<lparr>moving := mv, disk_work := w\<rparr>) = stops_ok held e"
  "jobs_ok (e\<lparr>moving := mv, disk_work := w\<rparr>) = jobs_ok e"
  by (simp_all add: queues_ok_def table_ok_def stops_ok_def jobs_ok_def)

lemma core_ok_moving:
  assumes "core_ok held e" and "moving_ok held (e\<lparr>moving := mv, disk_work := w\<rparr>)"
  shows "core_ok held (e\<lparr>moving := mv, disk_work := w\<rparr>)"
  using assms by (simp only: core_ok_def moving_unseen)

lemma core_ok_moving_only:
  assumes "core_ok held e" and "moving_ok held (e\<lparr>moving := mv\<rparr>)"
  shows "core_ok held (e\<lparr>moving := mv\<rparr>)"
  using core_ok_moving [OF assms(1), where mv = mv and w = "disk_work e"] assms(2) by simp

lemma keys_moving: "core_ok held e \<Longrightarrow> keys_ascend (moving e)"
  by (simp add: core_ok_def moving_ok_def)

lemma work_distinct: "core_ok held e \<Longrightarrow> distinct (map fst (disk_work e))"
  by (simp add: core_ok_def moving_ok_def)

lemma started_iff_work:
  assumes "core_ok held e" and "t \<in> set (members held e)"
  shows "t \<in> fst ` set (disk_work e) \<longleftrightarrow> (\<exists>m. map_of (moving e) (gid_of e t) = Some m \<and> m_started m)"
proof
  assume "t \<in> fst ` set (disk_work e)"
  then show "\<exists>m. map_of (moving e) (gid_of e t) = Some m \<and> m_started m"
    using core_okE(5) [OF assms(1)] unfolding moving_ok_def by blast
next
  assume "\<exists>m. map_of (moving e) (gid_of e t) = Some m \<and> m_started m"
  then obtain m where m: "map_of (moving e) (gid_of e t) = Some m" "m_started m" by blast
  then obtain u where "map_of (tasks e) (gid_of e t) = Some u" "move_ok held e u m"
    using core_okE(5) [OF assms(1)] unfolding moving_ok_def by blast
  then show "t \<in> fst ` set (disk_work e)" using held_gid [OF assms] m by (simp add: move_ok_def)
qed

lemma cancel_move:
  assumes ok: "core_ok [t] e" and "map_of (moving e) (gid_of e t) = Some m" and "\<not> m_started m"
  shows "core_ok [t] (e\<lparr>moving := map_erase (gid_of e t) (moving e)\<rparr>)"
proof (rule core_ok_moving_only [OF ok], rule moving_okI [OF ok held_not(6) [OF ok]])
  have "t \<notin> fst ` set (disk_work e)" using started_iff_work [OF ok held_not(6) [OF ok]] assms(2,3) by auto
  then show "t \<in> set [t] \<union> set (waiting e) \<and>
      (\<exists>m. map_of (moving (e\<lparr>moving := map_erase (gid_of e t) (moving e)\<rparr>)) (gid_of e t) = Some m \<and> m_started m)"
    if "t \<in> fst ` set (disk_work (e\<lparr>moving := map_erase (gid_of e t) (moving e)\<rparr>))"
    using that by simp
qed (use keys_moving [OF ok] work_distinct [OF ok] in \<open>auto simp: map_simps keys_ascend_map_erase\<close>)

lemma begin_move:
  assumes ok: "core_ok [t] e" and "state_of e t = Paused" and "t \<notin> fst ` set (disk_work e)" and "m_started m"
  shows "core_ok [t] (e\<lparr>moving := map_put (gid_of e t) m (moving e), disk_work := disk_work e @ [(t, w)]\<rparr>)"
  by (rule core_ok_moving [OF ok], rule moving_okI [OF ok held_not(6) [OF ok]])
    (use assms keys_moving [OF ok] work_distinct [OF ok] in \<open>auto simp: map_simps keys_ascend_map_put move_ok_def\<close>)

lemma plan_move:
  assumes ok: "core_ok [] e" and "t \<in> set (active e)" and "t_stopping (objs e t)" and "still e t" and "\<not> m_started m"
  shows "core_ok [] (e\<lparr>moving := map_put (gid_of e t) m (moving e)\<rparr>)"
proof -
  have t: "t \<in> set (members [] e)" using assms(2) by (simp add: members_def)
  show ?thesis
    by (rule core_ok_moving_only [OF ok], rule moving_okI [OF ok t])
      (use assms keys_moving [OF ok] work_distinct [OF ok] started_iff_work [OF ok t] in
        \<open>auto simp: map_simps keys_ascend_map_put move_ok_def still_def\<close>)
qed

lemma finish_move:
  assumes ok: "core_ok [] e" and t: "t \<in> set (members [] e)"
  shows "core_ok [] (e\<lparr>moving := map_erase (gid_of e t) (moving e), disk_work := filter (\<lambda>x. fst x \<noteq> t) (disk_work e)\<rparr>)"
  by (rule core_ok_moving [OF ok], rule moving_okI [OF ok t])
    (use keys_moving [OF ok] work_distinct [OF ok] in
      \<open>auto simp: map_simps keys_ascend_map_erase distinct_map_filter intro: rev_image_eqI\<close>)

lemma core_ok_set_resume [simp]:
  assumes "core_ok held e"
  shows "core_ok held (set_resume g b e)"
proof (cases "map_of (moving e) g")
  case (Some m)
  then obtain t where t: "map_of (tasks e) g = Some t" "move_ok held e t m"
    using core_okE(5) [OF assms] unfolding moving_ok_def by blast
  then have g: "gid_of e t = g" "t \<in> set (members held e)" using core_okE(2) [OF assms] by (auto simp: table_ok_def)
  have work: "t \<in> fst ` set (disk_work e) \<Longrightarrow> t \<in> set held \<union> set (waiting e) \<and> m_started m"
    using core_okE(5) [OF assms] Some g by (auto simp: moving_ok_def)
  have "core_ok held (e\<lparr>moving := map_put g (m\<lparr>m_resume := b\<rparr>) (moving e)\<rparr>)"
    by (rule core_ok_moving_only [OF assms], rule moving_okI [OF assms g(2)])
      (use t g work keys_moving [OF assms] work_distinct [OF assms] in
        \<open>auto simp: map_simps keys_ascend_map_put move_ok_def split: if_splits\<close>)
  then show ?thesis using Some by (simp add: set_resume_def)
qed (simp add: set_resume_def assms)

lemma core_ok_resume_all [simp]:
  assumes "core_ok held e"
  shows "core_ok held (resume_all b e)"
proof -
  have key: "map_of (map (\<lambda>(g, m). (g, m\<lparr>m_resume := b\<rparr>)) xs) g = map_option (\<lambda>m. m\<lparr>m_resume := b\<rparr>) (map_of xs g)" for xs g
    by (induction xs) auto
  have "keys_ascend (map (\<lambda>(g, m). (g, m\<lparr>m_resume := b\<rparr>)) (moving e))"
    using keys_moving [OF assms] by (simp add: keys_ascend_def comp_def case_prod_beta')
  moreover have "\<exists>t. map_of (tasks e) g = Some t \<and> move_ok held (resume_all b e) t m"
    if "map_of (moving (resume_all b e)) g = Some m" for g m
  proof -
    obtain n where n: "map_of (moving e) g = Some n" "m = n\<lparr>m_resume := b\<rparr>"
      using \<open>map_of (moving (resume_all b e)) g = Some m\<close> by (auto simp: resume_all_def key)
    then obtain t where "map_of (tasks e) g = Some t" "move_ok held e t n"
      using core_okE(5) [OF assms] unfolding moving_ok_def by blast
    then show ?thesis using n by (auto simp: move_ok_def resume_all_def split: if_splits)
  qed
  moreover have "t \<in> set held \<union> set (waiting e) \<and> (\<exists>m. map_of (moving (resume_all b e)) (gid_of e t) = Some m \<and> m_started m)"
    if "t \<in> fst ` set (disk_work e)" for t
    using core_okE(5) [OF assms] that unfolding moving_ok_def by (auto simp: resume_all_def key)
  ultimately have "moving_ok held (resume_all b e)"
    using work_distinct [OF assms] by (simp add: moving_ok_def resume_all_def)
  then show ?thesis unfolding resume_all_def by (rule core_ok_moving_only [OF assms])
qed

section \<open>Stops, jobs and states of waiting tasks\<close>

lemma core_ok_stops_order:
  assumes "core_ok held (e\<lparr>stops := xs\<rparr>)" and "mset ys = mset xs"
  shows "core_ok held (e\<lparr>stops := ys\<rparr>)"
proof -
  have "set ys = set xs" using assms(2) by (metis set_mset_mset)
  moreover have "distinct (map fst ys) = distinct (map fst xs)"
    using assms(2) by (metis mset_map mset_eq_imp_distinct_iff)
  ultimately have "stops_ok held (e\<lparr>stops := ys\<rparr>) = stops_ok held (e\<lparr>stops := xs\<rparr>)"
    by (simp add: stops_ok_def)
  moreover have "queues_ok held (e\<lparr>stops := zs\<rparr>) = queues_ok held e" "table_ok held (e\<lparr>stops := zs\<rparr>) = table_ok held e"
    "jobs_ok (e\<lparr>stops := zs\<rparr>) = jobs_ok e" "moving_ok held (e\<lparr>stops := zs\<rparr>) = moving_ok held e" for zs
    by (simp_all add: queues_ok_def table_ok_def jobs_ok_def moving_ok_def move_ok_def)
  ultimately show ?thesis using assms(1) by (simp add: core_ok_def)
qed

text \<open>\<open>stop()\<close> is called on a running task, or again on a stopping one.\<close>

lemma begin_stop:
  assumes ok: "core_ok [] e" and t: "t \<in> set (active e)" "t \<notin> set (retiring (jobs e))"
    and n: "n = Waiting \<or> n = Paused \<or> n = Removed"
  shows "core_ok [] (on_task t (\<lambda>k. k\<lparr>t_stopping := True\<rparr>) (e\<lparr>stops := (t, n) # filter (\<lambda>p. fst p \<noteq> t) (stops e)\<rparr>))"
    (is "core_ok _ ?e")
proof -
  have "queues_ok [] ?e"
    using core_okE(1) [OF ok] by (auto simp: queues_ok_def members_def on_task_def)
  moreover have "table_ok [] ?e"
    by (intro table_ok_cong [OF core_okE(2) [OF ok]]) (auto simp: members_def on_task_def)
  moreover have "stops_ok [] ?e"
  proof -
    have "fst ` {x \<in> set (stops e). fst x \<noteq> t} = fst ` set (stops e) - {t}" by force
    moreover have "snd ` {x \<in> set (stops e). fst x \<noteq> t} \<subseteq> {Waiting, Paused, Removed}"
      using core_okE(3) [OF ok] by (auto simp: stops_ok_def)
    ultimately show ?thesis
      using core_okE(3) [OF ok] t n by (auto simp: stops_ok_def members_def on_task_def distinct_map_filter)
  qed
  moreover have "jobs_ok ?e"
    using core_okE(4) [OF ok] t by (auto simp: jobs_ok_def on_task_def in_retiring)
  moreover have "moving_ok [] ?e"
    by (rule moving_ok_cong [OF core_okE(5) [OF ok]]) (auto simp: move_ok_def on_task_def split: if_splits)
  ultimately show ?thesis by (simp add: core_ok_def)
qed

lemma flip_waiting:
  assumes ok: "core_ok [] e" and t: "t \<in> set (waiting e)" "still e t" and s: "s = Waiting \<or> s = Paused"
  shows "core_ok [] (set_state t s e)"
proof -
  have t': "t \<in> set (members [] e)" "t \<notin> set (active e)" "t \<notin> set (stopped e)"
    using core_okE(1) [OF ok] t by (auto simp: queues_ok_def members_def)
  have "queues_ok [] (set_state t s e)"
    using core_okE(1) [OF ok] t' s by (auto simp: queues_ok_def members_def on_task_def)
  moreover have "table_ok [] (set_state t s e)"
    by (intro table_ok_cong [OF core_okE(2) [OF ok]]) (auto simp: members_def on_task_def)
  moreover have "stops_ok [] (set_state t s e)"
    using core_okE(3) [OF ok] by (auto simp: stops_ok_def members_def on_task_def)
  moreover have "jobs_ok (set_state t s e)"
    using core_okE(4) [OF ok] by (auto simp: jobs_ok_def on_task_def)
  moreover have "moving_ok [] (set_state t s e)"
    using still_move [OF ok t(2) t'(1)]
    by (intro moving_ok_cong [OF core_okE(5) [OF ok]]) (auto simp: move_ok_def on_task_def split: if_splits)
  ultimately show ?thesis by (simp add: core_ok_def)
qed

text \<open>A task that is not paused, or whose stop has not begun, is not being moved.\<close>

lemma waiting_still:
  assumes ok: "core_ok [] e" and "t \<in> set (waiting e)" and "state_of e t = Waiting"
  shows "still e t"
proof (rule ccontr)
  have t: "t \<in> set (members [] e)" "t \<notin> set (active e)"
    using core_okE(1) [OF ok] assms(2) by (auto simp: queues_ok_def members_def)
  assume "\<not> still e t"
  then obtain m where "map_of (moving e) (gid_of e t) = Some m" by (auto simp: still_def)
  then obtain u where "map_of (tasks e) (gid_of e t) = Some u" "move_ok [] e u m"
    using core_okE(5) [OF ok] unfolding moving_ok_def by blast
  then show False using held_gid [OF ok t(1)] assms t(2) by (auto simp: move_ok_def split: if_splits)
qed

lemma running_still:
  assumes ok: "core_ok [] e" and "t \<in> set (active e)" and "\<not> t_stopping (objs e t)"
  shows "still e t"
proof (rule ccontr)
  have t: "t \<in> set (members [] e)" "t \<notin> set (waiting e)"
    using core_okE(1) [OF ok] assms(2) by (auto simp: queues_ok_def members_def)
  assume "\<not> still e t"
  then obtain m where "map_of (moving e) (gid_of e t) = Some m" by (auto simp: still_def)
  then obtain u where "map_of (tasks e) (gid_of e t) = Some u" "move_ok [] e u m"
    using core_okE(5) [OF ok] unfolding moving_ok_def by blast
  then show False using held_gid [OF ok t(1)] assms t(2) by (auto simp: move_ok_def split: if_splits)
qed

lemma stopped_still:
  assumes ok: "core_ok [] e" and "t \<in> set (stopped e)"
  shows "still e t"
proof (rule ccontr)
  have t: "t \<in> set (members [] e)" "t \<notin> set (waiting e)" "t \<notin> set (active e)"
    using core_okE(1) [OF ok] assms(2) by (auto simp: queues_ok_def members_def)
  assume "\<not> still e t"
  then obtain m where "map_of (moving e) (gid_of e t) = Some m" by (auto simp: still_def)
  then obtain u where "map_of (tasks e) (gid_of e t) = Some u" "move_ok [] e u m"
    using core_okE(5) [OF ok] unfolding moving_ok_def by blast
  then show False using held_gid [OF ok t(1)] t(2,3) by (auto simp: move_ok_def split: if_splits)
qed

lemma jobs_unseen:
  "queues_ok held (e\<lparr>jobs := js, scheduled := b\<rparr>) = queues_ok held e"
  "table_ok held (e\<lparr>jobs := js, scheduled := b\<rparr>) = table_ok held e"
  "stops_ok held (e\<lparr>jobs := js, scheduled := b\<rparr>) = stops_ok held e"
  "moving_ok held (e\<lparr>jobs := js, scheduled := b\<rparr>) = moving_ok held e"
  by (simp_all add: queues_ok_def table_ok_def stops_ok_def moving_ok_def move_ok_def)

lemma post_retire:
  assumes ok: "core_ok [] e" and t: "t \<in> set (active e)" "\<not> t_stopping (objs e t)" "t \<notin> set (retiring (jobs e))"
    and s: "s = Complete \<or> s = Failed"
  shows "core_ok [] (post (Retire t s) e)"
proof -
  have "jobs_ok (post (Retire t s) e)"
    using core_okE(4) [OF ok] t s by (auto simp: jobs_ok_def in_retiring)
  then have "core_ok [] (e\<lparr>jobs := jobs e @ [Retire t s], scheduled := scheduled e\<rparr>)"
    using ok by (simp only: core_ok_def jobs_unseen) simp
  then show ?thesis by simp
qed

lemma next_job:
  assumes ok: "core_ok [] e" and "jobs e = j # js"
  shows "core_ok [] (e\<lparr>jobs := js, scheduled := scheduled e \<and> j \<noteq> Fill\<rparr>)"
proof -
  have "jobs_ok (e\<lparr>jobs := js, scheduled := scheduled e \<and> j \<noteq> Fill\<rparr>)"
    using core_okE(4) [OF ok] assms(2) by (cases j) (auto simp: jobs_ok_def split: if_splits)
  then show ?thesis using ok by (simp only: core_ok_def jobs_unseen)
qed

lemma core_ok_tasks_cong:
  assumes ok: "core_ok held (e\<lparr>tasks := m\<rparr>)" and m: "map_of m' = map_of m" "keys_ascend m'"
  shows "core_ok held (e\<lparr>tasks := m'\<rparr>)"
proof -
  have "table_ok held (e\<lparr>tasks := m'\<rparr>) = table_ok held (e\<lparr>tasks := m\<rparr>)"
    using core_okE(2) [OF ok] m by (simp add: table_ok_def)
  moreover have "moving_ok held (e\<lparr>tasks := m'\<rparr>) = moving_ok held (e\<lparr>tasks := m\<rparr>)"
    using m(1) by (simp add: moving_ok_def move_ok_def)
  moreover have "queues_ok held (e\<lparr>tasks := x\<rparr>) = queues_ok held e" "stops_ok held (e\<lparr>tasks := x\<rparr>) = stops_ok held e"
    "jobs_ok (e\<lparr>tasks := x\<rparr>) = jobs_ok e" for x
    by (simp_all add: queues_ok_def stops_ok_def jobs_ok_def)
  ultimately show ?thesis using ok by (simp add: core_ok_def)
qed

lemma keys_tasks: "core_ok held e \<Longrightarrow> keys_ascend (tasks e)"
  by (simp add: core_ok_def table_ok_def)

end
