(* ===== verification/Engine_Safety.thy ===== *)
theory Engine_Safety
  imports Engine_Queues
begin

text \<open>
  Every operation of the engine keeps the queue invariant; the engine as a transition system, with
  what its reachable states satisfy.
\<close>

section \<open>The fields that matter\<close>

lemma core_ok_cong:
  assumes "objs e' = objs e" "tasks e' = tasks e" "active e' = active e" "waiting e' = waiting e"
    "stopped e' = stopped e" "moving e' = moving e" "scheduled e' = scheduled e" "jobs e' = jobs e"
    "stops e' = stops e" "disk_work e' = disk_work e" "core_ok held e"
  shows "core_ok held e'"
  using assms(11) unfolding core_defs members_def assms(1-10) .

lemma schedule_fields [simp]:
  "objs (schedule e) = objs e" "tasks (schedule e) = tasks e" "active (schedule e) = active e"
  "waiting (schedule e) = waiting e" "stopped (schedule e) = stopped e" "moving (schedule e) = moving e"
  "stops (schedule e) = stops e" "disk_work (schedule e) = disk_work e" "scheduled (schedule e)"
  "retiring (jobs (schedule e)) = retiring (jobs e)" "shuttingDown (schedule e) = shuttingDown e"
  "forceShutdown (schedule e) = forceShutdown e" "finished (schedule e) = finished e"
  "global (schedule e) = global e" "set (jobs e) \<subseteq> set (jobs (schedule e))" "effects (schedule e) = effects e"
  "has_disk (schedule e) = has_disk e" "crashed (schedule e) = crashed e" "stoppedTotal (schedule e) = stoppedTotal e"
  by (auto simp: schedule_def)

lemma FinishShutdown_schedule [simp]: "FinishShutdown \<in> set (jobs (schedule e)) \<longleftrightarrow> FinishShutdown \<in> set (jobs e)"
  by (simp add: schedule_def)

lemma tell_fields [simp]:
  "objs (tell x e) = objs e" "tasks (tell x e) = tasks e" "active (tell x e) = active e"
  "waiting (tell x e) = waiting e" "stopped (tell x e) = stopped e" "moving (tell x e) = moving e"
  "stops (tell x e) = stops e" "disk_work (tell x e) = disk_work e" "scheduled (tell x e) = scheduled e"
  "jobs (tell x e) = jobs e" "shuttingDown (tell x e) = shuttingDown e" "forceShutdown (tell x e) = forceShutdown e"
  "finished (tell x e) = finished e" "global (tell x e) = global e" "effects (tell x e) = effects e @ [x]"
  "has_disk (tell x e) = has_disk e" "crashed (tell x e) = crashed e" "stoppedTotal (tell x e) = stoppedTotal e"
  by (simp_all add: tell_def)

lemma emit_fields [simp]:
  "objs (emit x t e) = objs e" "tasks (emit x t e) = tasks e" "active (emit x t e) = active e"
  "waiting (emit x t e) = waiting e" "stopped (emit x t e) = stopped e" "moving (emit x t e) = moving e"
  "stops (emit x t e) = stops e" "disk_work (emit x t e) = disk_work e" "scheduled (emit x t e) = scheduled e"
  "jobs (emit x t e) = jobs e" "shuttingDown (emit x t e) = shuttingDown e" "forceShutdown (emit x t e) = forceShutdown e"
  "finished (emit x t e) = finished e" "global (emit x t e) = global e" "effects (emit x t e) = effects e @ [Emitted x t]"
  "has_disk (emit x t e) = has_disk e" "crashed (emit x t e) = crashed e" "stoppedTotal (emit x t e) = stoppedTotal e"
  by (simp_all add: emit_def)

lemma on_task_fields [simp]:
  "objs (on_task t f e) = (objs e)(t := f (objs e t))" "tasks (on_task t f e) = tasks e" "active (on_task t f e) = active e"
  "waiting (on_task t f e) = waiting e" "stopped (on_task t f e) = stopped e" "moving (on_task t f e) = moving e"
  "stops (on_task t f e) = stops e" "disk_work (on_task t f e) = disk_work e" "scheduled (on_task t f e) = scheduled e"
  "jobs (on_task t f e) = jobs e" "shuttingDown (on_task t f e) = shuttingDown e"
  "forceShutdown (on_task t f e) = forceShutdown e" "finished (on_task t f e) = finished e"
  "global (on_task t f e) = global e" "effects (on_task t f e) = effects e" "has_disk (on_task t f e) = has_disk e"
  "crashed (on_task t f e) = crashed e" "stoppedTotal (on_task t f e) = stoppedTotal e"
  by (simp_all add: on_task_def)

text \<open>\<open>retire\<close> up to the handler it schedules.\<close>

definition results_after :: "nat \<Rightarrow> task_state \<Rightarrow> engine \<Rightarrow> nat list \<times> nat list" where
  "results_after t s e =
     trim_results (size_t_of (max_result (global e)))
       (\<lambda>u. keep_unfinished (global e) \<and> t_state (((objs e)(t := (objs e t)\<lparr>t_state := s\<rparr>)) u) \<noteq> Complete)
       (Suc (length (stopped e))) (stopped e @ [t])"

lemma retire_fields [simp]:
  "objs (retire t s e) = (objs e)(t := (objs e t)\<lparr>t_state := s\<rparr>)"
  "tasks (retire t s e) = fold (\<lambda>u. map_erase (gid_of e u)) (snd (results_after t s e)) (tasks e)"
  "active (retire t s e) = removeAll t (active e)" "waiting (retire t s e) = waiting e"
  "stopped (retire t s e) = fst (results_after t s e)"
  "moving (retire t s e) = moving e" "stops (retire t s e) = stops e" "disk_work (retire t s e) = disk_work e"
  "scheduled (retire t s e)" "retiring (jobs (retire t s e)) = retiring (jobs e)"
  "shuttingDown (retire t s e) = shuttingDown e" "forceShutdown (retire t s e) = forceShutdown e"
  "finished (retire t s e) = finished e" "global (retire t s e) = global e" "has_disk (retire t s e) = has_disk e"
  "crashed (retire t s e) = crashed e" "FinishShutdown \<in> set (jobs (retire t s e)) \<longleftrightarrow> FinishShutdown \<in> set (jobs e)"
  "jobs (retire t s e) = jobs (schedule e)"
proof -
  have gid: "(\<lambda>u. map_erase (t_gid (if u = t then (objs e t)\<lparr>t_state := r\<rparr> else objs e u))) = (\<lambda>u. map_erase (gid_of e u))" for r
    by auto
  show "tasks (retire t s e) = fold (\<lambda>u. map_erase (gid_of e u)) (snd (results_after t s e)) (tasks e)"
    by (simp add: gid retire_def results_after_def Let_def split_beta)
qed (simp_all add: retire_def results_after_def Let_def split_beta schedule_def)

section \<open>Results\<close>

lemma trim_results_split:
  "trim_results limit keeps n ts = (kept, gone) \<Longrightarrow> mset kept + mset gone = mset ts"
  by (induction limit keeps n ts arbitrary: kept gone rule: trim_results.induct)
    (auto simp: Let_def split: if_splits prod.splits)

lemma trim_results_filter:
  assumes "trim_results limit keeps n ts = (kept, gone)" and "distinct ts"
  shows "kept = filter (\<lambda>t. t \<notin> set gone) ts" and "distinct gone" and "set gone \<subseteq> set ts"
proof -
  have "kept = filter (\<lambda>t. t \<notin> set gone) ts \<and> distinct gone \<and> set gone \<subseteq> set ts"
    using assms
  proof (induction limit keeps n ts arbitrary: kept gone rule: trim_results.induct)
    case (2 limit keeps n t ts)
    show ?case
    proof (cases "n \<le> limit")
      case True
      then show ?thesis using 2(3,4) by (auto simp: filter_id_conv)
    next
      case big: False
      show ?thesis
      proof (cases "keeps t")
        case True
        obtain k g where r: "trim_results limit keeps n ts = (k, g)" by fastforce
        then show ?thesis using 2(1) [OF big True r] 2(3,4) big True by auto
      next
        case False
        obtain k g where r: "trim_results limit keeps (n - 1) ts = (k, g)" by fastforce
        then show ?thesis using 2(2) [OF big False r] 2(3,4) big False by (auto intro: filter_cong)
      qed
    qed
  qed simp
  then show "kept = filter (\<lambda>t. t \<notin> set gone) ts" "distinct gone" "set gone \<subseteq> set ts" by auto
qed

lemma core_ok_drop_results:
  assumes "core_ok [] e" and "distinct gone" and "set gone \<subseteq> set (stopped e)"
  shows "core_ok [] (e\<lparr>stopped := filter (\<lambda>t. t \<notin> set gone) (stopped e),
                      tasks := fold (\<lambda>u. map_erase (gid_of e u)) gone (tasks e)\<rparr>)"
  using assms
proof (induction gone arbitrary: e)
  case Nil
  then show ?case by simp
next
  case (Cons t gone)
  let ?e = "e\<lparr>stopped := remove1 t (stopped e), tasks := map_erase (gid_of e t) (tasks e)\<rparr>"
  have dist: "distinct (stopped e)" using core_okE(1) [OF Cons(2)] by (simp add: queues_ok_def members_def)
  have t: "t \<in> set (stopped e)" using Cons(4) by simp
  have "still (e\<lparr>stopped := remove1 t (stopped e)\<rparr>) t" using stopped_still [OF Cons(2) t] by (simp add: still_def)
  from drop_held [OF take_stopped [OF Cons(2) t] this] have "core_ok [] ?e" by simp
  moreover have "set gone \<subseteq> set (stopped ?e)" using Cons(3,4) dist by (auto simp: set_remove1_eq)
  ultimately have "core_ok [] (?e\<lparr>stopped := filter (\<lambda>t. t \<notin> set gone) (stopped ?e),
      tasks := fold (\<lambda>u. map_erase (gid_of ?e u)) gone (tasks ?e)\<rparr>)"
    using Cons(1) [of ?e] Cons(3) by simp
  moreover have "filter (\<lambda>t. t \<notin> set gone) (remove1 t (stopped e)) = filter (\<lambda>u. u \<notin> set (t # gone)) (stopped e)"
    using dist by (simp add: distinct_remove1_removeAll removeAll_filter_not_eq) (metis (mono_tags, lifting))
  ultimately show ?case by simp
qed

lemma core_ok_retire_held:
  assumes ok: "core_ok [t] e" and "still e t" and s: "s = Complete \<or> s = Failed \<or> s = Removed"
  shows "core_ok [] (retire t s e)"
proof -
  let ?e1 = "set_state t s e"
  have "core_ok [t] ?e1"
    by (rule change_held [OF ok]) (use assms(2) in \<open>simp_all add: still_def\<close>)
  moreover have "still ?e1 t" using assms(2) by (simp add: still_def)
  moreover have "state_of ?e1 t = s" by simp
  ultimately have put: "core_ok [] (?e1\<lparr>stopped := stopped ?e1 @ [t]\<rparr>)" using put_stopped s by metis
  have here: "t \<notin> set (active e)" using held_not(1) [OF ok] .
  obtain kept gone where r: "results_after t s e = (kept, gone)" by fastforce
  have dist: "distinct (stopped e @ [t])" using core_okE(1) [OF ok] by (simp add: queues_ok_def members_def)
  note trim = trim_results_filter [OF r [unfolded results_after_def] dist]
  from core_ok_drop_results [OF put trim(2)] trim(1,3)
  have new: "core_ok [] (schedule (?e1\<lparr>stopped := kept, tasks := fold (\<lambda>u. map_erase (gid_of ?e1 u)) gone (tasks e)\<rparr>))"
    by simp
  have gid: "(\<lambda>u. map_erase (t_gid (if u = t then (objs e t)\<lparr>t_state := s\<rparr> else objs e u))) = (\<lambda>u. map_erase (gid_of e u))"
    by auto
  show ?thesis
    by (rule core_ok_cong [OF _ _ _ _ _ _ _ _ _ _ new]) (use here in \<open>simp_all add: r gid schedule_def\<close>)
qed

lemma retire_take: "retire t s (e\<lparr>active := removeAll t (active e)\<rparr>) = retire t s e"
proof -
  have "removeAll t (removeAll t xs) = removeAll t xs" for xs by (induction xs) auto
  then show ?thesis by (simp add: retire_def on_task_def)
qed

lemma core_ok_retire:
  assumes ok: "core_ok [] e" and t: "t \<in> set (active e)" "\<not> t_stopping (objs e t)" "t \<notin> set (retiring (jobs e))"
    and s: "s = Complete \<or> s = Failed \<or> s = Removed"
  shows "core_ok [] (retire t s e)"
proof -
  have "still (e\<lparr>active := removeAll t (active e)\<rparr>) t" using running_still [OF ok t(1,2)] by (simp add: still_def)
  from core_ok_retire_held [OF take_active [OF ok t] this s] show ?thesis by (simp only: retire_take)
qed

section \<open>Stopping\<close>

lemma core_ok_finishShutdown [simp]: "core_ok held (finishShutdown e) = core_ok held e"
  by (simp add: finishShutdown_def saveSession_def stopLoop_def Let_def)

lemma map_erase_absent: "map_of m k = None \<Longrightarrow> map_erase k m = m"
  by (auto simp: map_erase_def map_of_eq_None_iff filter_id_conv)

lemma core_ok_forget_move:
  assumes "core_ok [t] e" and "\<And>m. map_of (moving e) (gid_of e t) = Some m \<Longrightarrow> \<not> m_started m"
  shows "core_ok [t] (e\<lparr>moving := map_erase (gid_of e t) (moving e)\<rparr>)"
    and "still (e\<lparr>moving := map_erase (gid_of e t) (moving e)\<rparr>) t"
proof -
  show "core_ok [t] (e\<lparr>moving := map_erase (gid_of e t) (moving e)\<rparr>)"
  proof (cases "map_of (moving e) (gid_of e t)")
    case None
    then show ?thesis using assms(1) by (simp add: map_erase_absent)
  qed (use cancel_move assms in blast)
qed (simp add: still_def map_simps)

lemma stopping_move_not_started:
  assumes ok: "core_ok [] e" and "t \<in> set (active e)" and "map_of (moving e) (gid_of e t) = Some m"
  shows "\<not> m_started m"
proof
  assume "m_started m"
  moreover have t: "t \<in> set (members [] e)" "t \<notin> set (waiting e)"
    using core_okE(1) [OF ok] assms(2) by (auto simp: queues_ok_def members_def)
  moreover obtain u where "map_of (tasks e) (gid_of e t) = Some u" "move_ok [] e u m"
    using core_okE(5) [OF ok] assms(3) unfolding moving_ok_def by blast
  ultimately show False using held_gid [OF ok t(1)] by (simp add: move_ok_def)
qed

text \<open>A held task goes back to the front of the queue, paused or waiting.\<close>

lemma core_ok_back:
  assumes ok: "core_ok [t] e" and loose: "\<And>m. map_of (moving e) (gid_of e t) = Some m \<Longrightarrow> \<not> m_started m"
    and n: "n = Waiting \<or> n = Paused"
  shows "core_ok [] ((set_state t n e)\<lparr>waiting := t # waiting e, moving := map_erase (gid_of e t) (moving e)\<rparr>)"
    and "n = Paused \<Longrightarrow> m_started m \<Longrightarrow>
      core_ok [] ((set_state t n e)\<lparr>waiting := t # waiting e, moving := map_put (gid_of e t) m (moving e),
                                    disk_work := disk_work e @ [(t, w)]\<rparr>)"
proof -
  let ?e = "e\<lparr>moving := map_erase (gid_of e t) (moving e)\<rparr>"
  have "core_ok [t] (set_state t n ?e)"
    by (rule change_held [OF core_ok_forget_move(1) [OF ok loose]])
      (use core_ok_forget_move(2) [OF ok loose] in \<open>simp_all add: still_def\<close>)
  from put_waiting [OF this, of "[]" "waiting e"] n
  have new: "core_ok [] ((set_state t n ?e)\<lparr>waiting := t # waiting e\<rparr>)" by (simp add: map_simps)
  show "core_ok [] ((set_state t n e)\<lparr>waiting := t # waiting e, moving := map_erase (gid_of e t) (moving e)\<rparr>)"
    by (rule core_ok_cong [OF _ _ _ _ _ _ _ _ _ _ new]) simp_all
  assume p: "n = Paused" "m_started m"
  let ?e = "set_state t n e"
  have held: "core_ok [t] ?e" by (rule change_held [OF ok loose]) simp_all
  have "t \<notin> fst ` set (disk_work ?e)"
    using started_iff_work [OF held held_not(6) [OF held]] loose by auto
  from begin_move [OF held _ this p(2)] p(1)
  have "core_ok [t] (?e\<lparr>moving := map_put (gid_of e t) m (moving e), disk_work := disk_work e @ [(t, w)]\<rparr>)"
    by (simp split: if_splits)
  from put_waiting [OF this, of "[]" "waiting e"] p
  have new: "core_ok [] (?e\<lparr>moving := map_put (gid_of e t) m (moving e), disk_work := disk_work e @ [(t, w)],
      waiting := t # waiting e\<rparr>)"
    by (simp add: map_simps)
  show "core_ok [] (?e\<lparr>waiting := t # waiting e, moving := map_put (gid_of e t) m (moving e),
      disk_work := disk_work e @ [(t, w)]\<rparr>)"
    by (rule core_ok_cong [OF _ _ _ _ _ _ _ _ _ _ new]) simp_all
qed

lemma stop_leave_back:
  assumes "n = Waiting \<or> n = Paused"
  shows "objs (stop_leave t n e) = (objs e)(t := (objs e t)\<lparr>t_stopping := False, t_state := n\<rparr>)"
    "tasks (stop_leave t n e) = tasks e" "active (stop_leave t n e) = removeAll t (active e)"
    "waiting (stop_leave t n e) = t # waiting e" "stopped (stop_leave t n e) = stopped e"
    "moving (stop_leave t n e) = moving e" "stops (stop_leave t n e) = stops e"
    "disk_work (stop_leave t n e) = disk_work e" "scheduled (stop_leave t n e) = scheduled e"
    "jobs (stop_leave t n e) = jobs e" "shuttingDown (stop_leave t n e) = shuttingDown e"
    "forceShutdown (stop_leave t n e) = forceShutdown e" "finished (stop_leave t n e) = finished e"
    "global (stop_leave t n e) = global e" "has_disk (stop_leave t n e) = has_disk e" "crashed (stop_leave t n e) = crashed e"
  using assms by (auto simp: stop_leave_def Let_def)

lemma stop_leave_out:
  "stop_leave t Removed e =
     retire t Removed
       (on_task t (\<lambda>k. k\<lparr>t_stopping := False, t_errorCode := removed_code, t_errorMessage := ''Removed''\<rparr>)
         ((tell (Checkpointed t) e)\<lparr>active := removeAll t (active e)\<rparr>))"
  by (simp add: stop_leave_def Let_def on_task_def tell_def)

lemma moveFilesOf_fields:
  assumes "map_of (moving e) (gid_of e t) = Some m"
  shows "objs (moveFilesOf v t e) = objs e" "tasks (moveFilesOf v t e) = tasks e" "active (moveFilesOf v t e) = active e"
    "waiting (moveFilesOf v t e) = waiting e" "stopped (moveFilesOf v t e) = stopped e"
    "moving (moveFilesOf v t e) = map_put (gid_of e t) (m\<lparr>m_started := True\<rparr>) (moving e)"
    "stops (moveFilesOf v t e) = stops e" "scheduled (moveFilesOf v t e) = scheduled e" "jobs (moveFilesOf v t e) = jobs e"
    "disk_work (moveFilesOf v t e) = disk_work e @ [(t, case v_relocation v t (m_dir m) of None \<Rightarrow> [] | Some ms \<Rightarrow> ms, t_dir (objs e t))]"
    "shuttingDown (moveFilesOf v t e) = shuttingDown e" "forceShutdown (moveFilesOf v t e) = forceShutdown e"
    "finished (moveFilesOf v t e) = finished e" "global (moveFilesOf v t e) = global e"
    "crashed (moveFilesOf v t e) = (crashed e \<or> \<not> has_disk e)"
  using assms by (auto simp: moveFilesOf_def Let_def)

lemma core_ok_stop_move:
  assumes ok: "core_ok [] (e\<lparr>stops := (t, n) # stops e\<rparr>)"
  shows "core_ok [] (stop_move v t (stop_leave t n e))"
proof -
  let ?e1 = "on_task t (\<lambda>k. k\<lparr>t_stopping := False\<rparr>) (e\<lparr>active := removeAll t (active e)\<rparr>)"
  have held: "core_ok [t] ?e1" by (rule take_stopping [OF ok])
  have t: "t \<in> set (active e)" "n = Waiting \<or> n = Paused \<or> n = Removed"
    using core_okE(3) [OF ok] by (auto simp: stops_ok_def)
  have loose: "\<not> m_started m" if "map_of (moving ?e1) (gid_of ?e1 t) = Some m" for m
    using stopping_move_not_started [OF ok] t that by simp
  have loose': "\<not> m_started m" if "map_of (moving e) (gid_of e t) = Some m" for m
    using loose that by simp
  show ?thesis
  proof (cases "n = Removed")
    case True
    let ?f = "\<lambda>k :: task. k\<lparr>t_errorCode := removed_code, t_errorMessage := ''Removed''\<rparr>"
    let ?e3 = "on_task t ?f (?e1\<lparr>moving := map_erase (gid_of e t) (moving e)\<rparr>)"
    have "core_ok [t] ?e3" using core_ok_forget_move(1) [OF held loose] by (simp add: core_ok_on_task)
    moreover have "still ?e3 t" by (simp add: still_def map_simps)
    ultimately have new: "core_ok [] (retire t Removed ?e3)" by (rule core_ok_retire_held) simp
    show ?thesis
      by (rule core_ok_cong [OF _ _ _ _ _ _ _ _ _ _ new])
        (use True loose' in \<open>auto simp: stop_move_def stop_leave_out results_after_def map_erase_absent schedule_def
          split: option.splits\<close>)
  next
    case False
    then have n: "n = Waiting \<or> n = Paused" using t(2) by auto
    show ?thesis
    proof (cases "map_of (moving e) (gid_of e t) = None \<or> n = Waiting \<or> shuttingDown e")
      case True
      show ?thesis
        by (rule core_ok_cong [OF _ _ _ _ _ _ _ _ _ _ core_ok_back(1) [OF held loose n]])
          (use n True loose' in \<open>auto simp: stop_move_def stop_leave_back map_erase_absent split: option.splits\<close>)
    next
      case False
      then obtain m where m: "map_of (moving e) (gid_of e t) = Some m" by auto
      then have m': "map_of (moving (stop_leave t n e)) (gid_of (stop_leave t n e) t) = Some m"
        using n by (simp add: stop_leave_back)
      have eq: "stop_move v t (stop_leave t n e) = moveFilesOf v t (stop_leave t n e)"
        using False n m' loose' [OF m] by (auto simp: stop_move_def stop_leave_back)
      have paused: "n = Paused" using n False by auto
      show ?thesis
        unfolding eq
        by (rule core_ok_cong [OF _ _ _ _ _ _ _ _ _ _ core_ok_back(2) [OF held loose n paused, of "m\<lparr>m_started := True\<rparr>"]])
          (simp_all add: moveFilesOf_fields [OF m'] stop_leave_back [OF n])
    qed
  qed
qed

lemma core_ok_stop_done:
  assumes "core_ok [] (e\<lparr>stops := (t, n) # stops e\<rparr>)"
  shows "core_ok [] (stop_done v t n e)"
  using core_ok_stop_move [OF assms] by (simp add: stop_done_def Let_def)

lemma stop_move_fields [simp]:
  "objs (stop_move v t e) = objs e" "tasks (stop_move v t e) = tasks e" "active (stop_move v t e) = active e"
  "waiting (stop_move v t e) = waiting e" "stopped (stop_move v t e) = stopped e" "stops (stop_move v t e) = stops e"
  "scheduled (stop_move v t e) = scheduled e" "jobs (stop_move v t e) = jobs e"
  "shuttingDown (stop_move v t e) = shuttingDown e" "forceShutdown (stop_move v t e) = forceShutdown e"
  "finished (stop_move v t e) = finished e" "global (stop_move v t e) = global e"
  by (auto simp: stop_move_def moveFilesOf_fields split: option.splits)

lemma finishShutdown_fields [simp]:
  "objs (finishShutdown e) = objs e" "tasks (finishShutdown e) = tasks e" "active (finishShutdown e) = active e"
  "waiting (finishShutdown e) = waiting e" "stopped (finishShutdown e) = stopped e" "stops (finishShutdown e) = stops e"
  "scheduled (finishShutdown e) = scheduled e" "jobs (finishShutdown e) = jobs e"
  "shuttingDown (finishShutdown e) = shuttingDown e" "forceShutdown (finishShutdown e) = forceShutdown e"
  "finished (finishShutdown e)" "global (finishShutdown e) = global e" "crashed (finishShutdown e) = crashed e"
  "moving (finishShutdown e) = moving e" "disk_work (finishShutdown e) = disk_work e"
  by (auto simp: finishShutdown_def saveSession_def stopLoop_def Let_def)

text \<open>What a stop leaves alone: the other tasks, and the outcomes that wait to be handled.\<close>

lemma stop_done_fields [simp]:
  "active (stop_done v t n e) = removeAll t (active e)" "stops (stop_done v t n e) = stops e"
  "retiring (jobs (stop_done v t n e)) = retiring (jobs e)" "shuttingDown (stop_done v t n e) = shuttingDown e"
  "scheduled (stop_done v t n e)" "global (stop_done v t n e) = global e"
  "forceShutdown (stop_done v t n e) = forceShutdown e"
  "FinishShutdown \<in> set (jobs (stop_done v t n e)) \<longleftrightarrow> FinishShutdown \<in> set (jobs e)"
  by (auto simp: stop_done_def stop_leave_def Let_def)

lemma stop_done_other [simp]: "u \<noteq> t \<Longrightarrow> objs (stop_done v t n e) u = objs e u"
  by (auto simp: stop_done_def stop_leave_def Let_def)

lemma stop_done_finished: "finished (stop_done v t n e) \<longleftrightarrow> finished e \<or> shuttingDown e \<and> removeAll t (active e) = []"
  by (auto simp: stop_done_def stop_leave_def Let_def)

lemma stopTask_fields [simp]:
  "retiring (jobs (stopTask v t force n e)) = retiring (jobs e)" "shuttingDown (stopTask v t force n e) = shuttingDown e"
  "global (stopTask v t force n e) = global e" "forceShutdown (stopTask v t force n e) = forceShutdown e"
  "FinishShutdown \<in> set (jobs (stopTask v t force n e)) \<longleftrightarrow> FinishShutdown \<in> set (jobs e)"
  by (auto simp: stopTask_def Let_def split: stop_result.splits)

lemma stopTask_other:
  assumes "u \<noteq> t"
  shows "objs (stopTask v t force n e) u = objs e u"
    and "u \<in> set (active (stopTask v t force n e)) \<longleftrightarrow> u \<in> set (active e)"
    and "u \<in> fst ` set (stops (stopTask v t force n e)) \<longleftrightarrow> u \<in> fst ` set (stops e)"
  using assms by (auto simp: stopTask_def Let_def image_iff split: stop_result.splits) force+

lemma core_ok_stopTask:
  assumes ok: "core_ok [] e" and t: "t \<in> set (active e)" "t \<notin> set (retiring (jobs e))"
    and n: "n = Waiting \<or> n = Paused \<or> n = Removed"
    and again: "t \<in> fst ` set (stops e) \<Longrightarrow> v_stop v t force = Done_instead"
  shows "core_ok [] (stopTask v t force n e)"
proof -
  let ?e = "on_task t (\<lambda>k. k\<lparr>t_stopping := True\<rparr>) e"
  let ?rest = "filter (\<lambda>p. fst p \<noteq> t) (stops e)"
  have first: "core_ok [] (?e\<lparr>stops := (t, n) # ?rest\<rparr>)"
    by (rule core_ok_cong [OF _ _ _ _ _ _ _ _ _ _ begin_stop [OF ok t n]]) simp_all
  from core_ok_stops_order [OF this, of "?rest @ [(t, n)]"] have last: "core_ok [] (?e\<lparr>stops := ?rest @ [(t, n)]\<rparr>)"
    by simp
  have rest: "?rest = stops e" if "t \<notin> fst ` set (stops e)"
    using that by (force simp: filter_id_conv)
  show ?thesis
  proof (cases "t \<in> fst ` set (stops e)")
    case True
    then show ?thesis using again last by (simp add: stopTask_def)
  next
    case False
    have "core_ok [] (stop_done v t n ?e)"
      by (rule core_ok_stop_done) (use first rest False in simp)
    then show ?thesis
      using last rest [OF False] by (cases "v_stop v t force") (simp_all add: stopTask_def)
  qed
qed

section \<open>Pausing, removing, moving\<close>

lemma set_resume_fields [simp]:
  "objs (set_resume g b e) = objs e" "tasks (set_resume g b e) = tasks e" "active (set_resume g b e) = active e"
  "waiting (set_resume g b e) = waiting e" "stopped (set_resume g b e) = stopped e" "stops (set_resume g b e) = stops e"
  "scheduled (set_resume g b e) = scheduled e" "jobs (set_resume g b e) = jobs e"
  "shuttingDown (set_resume g b e) = shuttingDown e" "forceShutdown (set_resume g b e) = forceShutdown e"
  "finished (set_resume g b e) = finished e" "global (set_resume g b e) = global e" "members held (set_resume g b e) = members held e"
  by (auto simp: set_resume_def members_def split: option.splits)

lemma where_is:
  assumes ok: "core_ok [] e" and t: "t \<in> set (members [] e)"
  shows "t \<in> set (active e) \<longleftrightarrow> state_of e t = Active"
    and "t \<in> set (waiting e) \<longleftrightarrow> state_of e t = Waiting \<or> state_of e t = Paused"
    and "t \<in> set (stopped e) \<longleftrightarrow> state_of e t = Complete \<or> state_of e t = Failed \<or> state_of e t = Removed"
  using core_okE(1) [OF ok] t unfolding queues_ok_def members_def by fastforce+

lemma core_ok_pause:
  assumes ok: "core_ok [] e" and t: "t \<in> set (members [] e)" "t \<notin> set (retiring (jobs e))"
  shows "core_ok [] (pause v t force e)"
proof (cases "state_of e t")
  case Waiting
  then have w: "t \<in> set (waiting e)" using where_is(2) [OF ok t(1)] by simp
  have still: "still e t" by (rule waiting_still [OF ok w Waiting])
  then have "set_resume (gid_of e t) False e = e" by (simp add: still_def set_resume_def)
  then show ?thesis using Waiting flip_waiting [OF ok w still] by (simp add: pause_def)
next
  case Active
  let ?e = "set_resume (gid_of e t) False e"
  have ok': "core_ok [] ?e" using ok by simp
  have a: "t \<in> set (active e)" using where_is(1) [OF ok t(1)] Active by simp
  have "core_ok [] (stopTask v t force Paused ?e)" if "\<not> t_stopping (objs e t)"
    by (rule core_ok_stopTask [OF ok']) (use a t that core_okE(3) [OF ok] in \<open>auto simp: stops_ok_def members_def\<close>)
  then show ?thesis using Active ok' by (simp add: pause_def Let_def)
qed (use ok in \<open>simp_all add: pause_def\<close>)

lemma core_ok_unpause:
  assumes ok: "core_ok [] e" and t: "t \<in> set (members [] e)"
  shows "core_ok [] (unpause t e)"
proof (cases "map_of (moving e) (gid_of e t) = None \<and> state_of e t = Paused")
  case True
  then have "t \<in> set (waiting e)" and "still e t" using where_is(2) [OF ok t] by (auto simp: still_def)
  from flip_waiting [OF ok this] show ?thesis using True by (simp add: unpause_def)
qed (use ok in \<open>auto simp: unpause_def\<close>)

lemma core_ok_remove:
  assumes ok: "core_ok [] e" and t: "t \<in> set (members [] e)" "t \<notin> set (retiring (jobs e))"
    and again: "t \<in> fst ` set (stops e) \<Longrightarrow> v_stop v t force = Done_instead"
    and r: "remove v t force e = Inr e'"
  shows "core_ok [] e'"
proof -
  have still: "still e t" using r by (simp add: remove_def still_def split: if_splits)
  let ?f = "\<lambda>k :: task. k\<lparr>t_errorCode := removed_code, t_errorMessage := ''Removed''\<rparr>"
  have wait: "core_ok [] (retire t Removed (on_task t ?f (e\<lparr>waiting := removeAll t (waiting e)\<rparr>)))"
    if "t \<in> set (waiting e)"
  proof (rule core_ok_retire_held)
    show "core_ok [t] (on_task t ?f (e\<lparr>waiting := removeAll t (waiting e)\<rparr>))"
      using take_waiting [OF ok that] by (simp add: core_ok_on_task)
  qed (use still in \<open>simp_all add: still_def\<close>)
  have stop: "core_ok [] (stopTask v t force Removed e)" if "state_of e t = Active"
    by (rule core_ok_stopTask [OF ok _ t(2) _ again]) (use that where_is(1) [OF ok t(1)] in simp_all)
  show ?thesis
    using r still wait stop ok where_is(2) [OF ok t(1)]
    by (cases "state_of e t") (auto simp: remove_def still_def split: if_splits)
qed

text \<open>Moving a queued task's files.\<close>

lemma core_ok_move_queued:
  assumes ok: "core_ok [] e" and t: "t \<in> set (waiting e)" and still: "still e t"
  shows "core_ok [] (moveFilesOf v t (set_state t Paused (e\<lparr>moving := map_put (gid_of e t) m (moving e)\<rparr>)))"
    (is "core_ok _ (moveFilesOf v t ?e)")
proof -
  obtain xs ys where w: "waiting e = xs @ t # ys" using split_list [OF t] by blast
  have dist: "distinct (waiting e)" using core_okE(1) [OF ok] by (simp add: queues_ok_def members_def)
  then have rest: "removeAll t xs = xs" "removeAll t ys = ys" using w by simp_all
  let ?e1 = "set_state t Paused (e\<lparr>waiting := removeAll t (waiting e)\<rparr>)"
  have e1: "core_ok [t] ?e1"
    by (rule change_held [OF take_waiting [OF ok t]]) (use still in \<open>simp_all add: still_def\<close>)
  have "t \<notin> fst ` set (disk_work ?e1)"
    using still_no_work [OF ok still] by simp
  note e2 = begin_move [OF e1 _ this, of "m\<lparr>m_started := True\<rparr>"]
  have put: "map_put g y (map_put g x mm) = map_put g y mm" for g :: gid and x y :: move and mm
    by (induction g x mm rule: map_put.induct) auto
  have entry: "map_of (moving ?e) (gid_of ?e t) = Some m" by (simp add: map_simps)
  show ?thesis
    by (rule core_ok_cong [OF _ _ _ _ _ _ _ _ _ _ put_waiting [OF e2, of _ xs ys]])
      (simp_all add: moveFilesOf_fields [OF entry] put rest w map_simps)
qed

lemma core_ok_relocate:
  assumes ok: "core_ok [] e" and t: "t \<in> set (members [] e)" "t \<notin> set (retiring (jobs e))"
    and r: "relocate v t dir e = Inr e'"
  shows "core_ok [] e'"
proof -
  let ?m = "\<lambda>b. \<lparr>m_dir = dir, m_resume = b, m_started = False\<rparr>"
  let ?e = "\<lambda>b. e\<lparr>moving := map_put (gid_of e t) (?m b) (moving e)\<rparr>"
  have still: "still e t" using r by (auto simp: relocate_def still_def split: if_splits)
  have queued: "core_ok [] (moveFilesOf v t (set_state t Paused (?e b)))" if "t \<in> set (waiting e)" for b
    by (rule core_ok_move_queued [OF ok that still])
  have paused: "set_state t Paused (?e b) = ?e b" if "state_of e t = Paused" for b
  proof -
    have "(objs e t)\<lparr>t_state := Paused\<rparr> = objs e t" using that by (cases "objs e t") simp
    then show ?thesis by (simp add: on_task_def fun_upd_idem)
  qed
  have planned: "core_ok [] (?e True)" if "t \<in> set (active e)" "t_stopping (objs e t)"
    by (rule plan_move [OF ok that still]) simp
  have stop: "core_ok [] (stopTask v t True Paused (?e True))" if a: "t \<in> set (active e)" and s: "\<not> t_stopping (objs e t)"
  proof -
    let ?s = "on_task t (\<lambda>k. k\<lparr>t_stopping := True\<rparr>) (e\<lparr>stops := (t, Paused) # filter (\<lambda>p. fst p \<noteq> t) (stops e)\<rparr>)"
    have none: "t \<notin> fst ` set (stops e)" using core_okE(3) [OF ok] t(1) s by (auto simp: stops_ok_def)
    then have rest: "filter (\<lambda>p. fst p \<noteq> t) (stops e) = stops e" by (force simp: filter_id_conv)
    have "core_ok [] ?s" by (rule begin_stop [OF ok a t(2)]) simp
    then have both: "core_ok [] (?s\<lparr>moving := map_put (gid_of ?s t) (?m True) (moving ?s)\<rparr>)"
      by (rule plan_move) (use a still in \<open>simp_all add: still_def\<close>)
    let ?x = "on_task t (\<lambda>k. k\<lparr>t_stopping := True\<rparr>) (?e True)"
    have first: "core_ok [] (?x\<lparr>stops := (t, Paused) # stops ?x\<rparr>)"
      by (rule core_ok_cong [OF _ _ _ _ _ _ _ _ _ _ both]) (simp_all add: rest)
    from core_ok_stops_order [OF this, of "stops ?x @ [(t, Paused)]"]
    have last: "core_ok [] (?x\<lparr>stops := stops e @ [(t, Paused)]\<rparr>)" by simp
    show ?thesis
      using core_ok_stop_done [OF first, of v] last rest
      by (cases "v_stop v t True") (simp_all add: stopTask_def)
  qed
  show ?thesis
    using r still queued [of True] queued [of False] paused [of False] planned stop where_is(1,2) [OF ok t(1)]
    by (cases "state_of e t") (auto simp: relocate_def still_def Let_def split: if_splits)
qed

text \<open>The disk threads report that the files of \<open>t\<close> are in place, or why not.\<close>

definition disk_answer :: "nat \<Rightarrow> string \<Rightarrow> engine \<Rightarrow> engine" where
  "disk_answer t error e = files_moved t error (e\<lparr>disk_work := filter (\<lambda>x. fst x \<noteq> t) (disk_work e)\<rparr>)"

lemma core_ok_disk_answer:
  assumes ok: "core_ok [] e" and t: "t \<in> fst ` set (disk_work e)"
  shows "core_ok [] (disk_answer t error e)"
proof -
  obtain m where w: "t \<in> set (waiting e)" and m: "map_of (moving e) (gid_of e t) = Some m"
    using core_okE(5) [OF ok] t unfolding moving_ok_def by fastforce
  then have here: "t \<in> set (members [] e)" by (simp add: members_def)
  let ?e = "e\<lparr>disk_work := filter (\<lambda>x. fst x \<noteq> t) (disk_work e), moving := map_erase (gid_of e t) (moving e)\<rparr>"
  let ?e2 = "if error = [] then tell (Relocated t (m_dir m)) (on_task t (\<lambda>k. k\<lparr>t_dir := m_dir m\<rparr>) ?e) else ?e"
  have "core_ok [] ?e"
    by (rule core_ok_cong [OF _ _ _ _ _ _ _ _ _ _ finish_move [OF ok here]]) simp_all
  then have e2: "core_ok [] ?e2" by (simp add: core_ok_on_task)
  have "t \<in> set (members [] ?e2)" using here by (simp add: members_def)
  from core_ok_unpause [OF e2 this] e2
  have "core_ok [] (if m_resume m then unpause t ?e2 else ?e2)" by simp
  then show ?thesis using m by (simp add: disk_answer_def files_moved_def Let_def split: if_splits)
qed

section \<open>Adding, results, positions\<close>

lemma core_ok_add:
  assumes ok: "core_ok [] e" and t: "fresh e t"
  shows "core_ok [] (add t p e)"
proof -
  let ?f = "\<lambda>k :: task. k\<lparr>t_state := (if t_pause k then Paused else Waiting), t_pause := False\<rparr>"
  let ?e = "tell (LoadedProgress t) (on_task t ?f (e\<lparr>tasks := map_put (gid_of e t) t (tasks e)\<rparr>))"
  have "core_ok [t] ?e"
    by (subst core_ok_tell, rule change_held [OF add_fresh(1) [OF ok t]])
      (use add_fresh(2) [OF ok t] in \<open>simp_all add: still_def\<close>)
  moreover have "waiting ?e = take n (waiting e) @ drop n (waiting e)" for n by simp
  moreover have "map_of (moving ?e) (gid_of ?e t) = None" using add_fresh(2) [OF ok t] by (simp add: still_def)
  ultimately have "core_ok [] (?e\<lparr>waiting := take n (waiting e) @ t # drop n (waiting e)\<rparr>)" for n
    by (intro put_waiting) simp_all
  then show ?thesis by (simp add: add_def Let_def)
qed

lemma core_ok_requeue:
  assumes ok: "core_ok [] e" and r: "requeue t e = Inr e'"
  shows "core_ok [] e'"
proof -
  have t: "t \<in> set (stopped e)" using r by (simp add: requeue_def split: if_splits)
  let ?f = "\<lambda>k :: task. k\<lparr>t_state := Waiting, t_errorCode := finished_code, t_errorMessage := []\<rparr>"
  let ?e = "on_task t ?f (e\<lparr>stopped := remove1 t (stopped e)\<rparr>)"
  have still: "still e t" by (rule stopped_still [OF ok t])
  have "core_ok [t] ?e"
    by (rule change_held [OF take_stopped [OF ok t]]) (use still in \<open>simp_all add: still_def\<close>)
  from put_waiting [OF this, of "waiting e" "[]"] still
  have "core_ok [] (?e\<lparr>waiting := waiting e @ [t]\<rparr>)" by (simp add: still_def)
  then show ?thesis using r t by (auto simp: requeue_def Let_def)
qed

lemma core_ok_removeResult:
  assumes ok: "core_ok [] e"
  shows "core_ok [] (snd (removeResult g e))"
proof (cases "find (\<lambda>t. gid_of e t = g) (stopped e)")
  case (Some t)
  then have t: "t \<in> set (stopped e)" "gid_of e t = g" by (auto simp: find_Some_iff)
  have "still (e\<lparr>stopped := remove1 t (stopped e)\<rparr>) t" using stopped_still [OF ok t(1)] by (simp add: still_def)
  from drop_held [OF take_stopped [OF ok t(1)] this] t(2)
  have new: "core_ok [] (e\<lparr>stopped := remove1 t (stopped e), tasks := map_erase g (tasks e)\<rparr>)" by simp
  have "core_ok [] ((tell (Discarded t) e)\<lparr>tasks := map_erase g (tasks e), stopped := remove1 t (stopped e)\<rparr>)"
    by (rule core_ok_cong [OF _ _ _ _ _ _ _ _ _ _ new]) simp_all
  then show ?thesis using Some by (simp add: removeResult_def)
qed (simp add: removeResult_def ok)

lemma purge_fold:
  "fold (\<lambda>t e. (tell (Discarded t) e)\<lparr>tasks := map_erase (gid_of e t) (tasks e)\<rparr>) ts e
     = e\<lparr>tasks := fold (\<lambda>u. map_erase (gid_of e u)) ts (tasks e), effects := effects e @ map Discarded ts\<rparr>"
  by (induction ts arbitrary: e) (simp_all add: tell_def)

lemma core_ok_purge:
  assumes ok: "core_ok [] e"
  shows "core_ok [] (purgeResults e)"
proof -
  have "distinct (stopped e)" using core_okE(1) [OF ok] by (simp add: queues_ok_def members_def)
  from core_ok_drop_results [OF ok this]
  have new: "core_ok [] (e\<lparr>stopped := [], tasks := fold (\<lambda>u. map_erase (gid_of e u)) (stopped e) (tasks e)\<rparr>)"
    by (simp add: filter_False)
  show ?thesis
    by (rule core_ok_cong [OF _ _ _ _ _ _ _ _ _ _ new]) (simp_all add: purgeResults_def purge_fold)
qed

text \<open>The waiting queue may be put in any order.\<close>

lemma core_ok_reorder:
  assumes ok: "core_ok [] e" and w: "mset ws = mset (waiting e)"
  shows "core_ok [] (e\<lparr>waiting := ws\<rparr>)"
proof -
  have same: "set ws = set (waiting e)" "distinct ws = distinct (waiting e)"
    using w by (metis set_mset_mset, metis mset_eq_imp_distinct_iff)
  have "queues_ok [] (e\<lparr>waiting := ws\<rparr>)"
    using core_okE(1) [OF ok] same by (simp add: queues_ok_def members_def)
  moreover have "table_ok [] (e\<lparr>waiting := ws\<rparr>)"
    using same by (intro table_ok_cong [OF core_okE(2) [OF ok]]) (auto simp: members_def)
  moreover have "stops_ok [] (e\<lparr>waiting := ws\<rparr>)"
    using core_okE(3) [OF ok] same by (simp add: stops_ok_def members_def)
  moreover have "jobs_ok (e\<lparr>waiting := ws\<rparr>)"
    using core_okE(4) [OF ok] by (simp add: jobs_ok_def)
  moreover have "moving_ok [] (e\<lparr>waiting := ws\<rparr>)"
    using same by (intro moving_ok_cong [OF core_okE(5) [OF ok]]) (auto simp: move_ok_def split: if_splits)
  ultimately show ?thesis by (simp add: core_ok_def)
qed

lemma move_task_waiting:
  assumes "move_task t offset how e = Inr (n, e')"
  obtains k where "e' = e\<lparr>waiting := take k (remove1 t (waiting e)) @ t # drop k (remove1 t (waiting e))\<rparr>"
    and "t \<in> set (waiting e)" and "n = k"
  using assms by (auto simp: move_task_def Let_def split: if_splits)

lemma mset_insert_at: "mset (take k (remove1 t ws) @ t # drop k (remove1 t ws)) = mset ws" if "t \<in> set ws"
proof -
  have "mset (take k (remove1 t ws) @ t # drop k (remove1 t ws)) = add_mset t (mset (take k (remove1 t ws) @ drop k (remove1 t ws)))"
    by (simp only: mset_append mset.simps union_mset_add_mset_right)
  also have "\<dots> = add_mset t (mset (remove1 t ws))" by simp
  also have "\<dots> = mset ws" using that by simp
  finally show ?thesis .
qed

lemma core_ok_move_task:
  assumes "core_ok [] e" and "move_task t offset how e = Inr (n, e')"
  shows "core_ok [] e'"
  using move_task_waiting [OF assms(2)] core_ok_reorder [OF assms(1)] mset_insert_at by metis

section \<open>Outcomes and starts\<close>

lemma failed_fields [simp]:
  "active (failed c m t e) = active e" "waiting (failed c m t e) = waiting e" "stopped (failed c m t e) = stopped e"
  "retiring (jobs (failed c m t e)) = retiring (jobs e) @ [t]" "shuttingDown (failed c m t e) = shuttingDown e"
  "global (failed c m t e) = global e" "scheduled (failed c m t e) = scheduled e" "stops (failed c m t e) = stops e"
  "finished (failed c m t e) = finished e" "FinishShutdown \<in> set (jobs (failed c m t e)) \<longleftrightarrow> FinishShutdown \<in> set (jobs e)"
  "moving (failed c m t e) = moving e"
  by (simp_all add: failed_def taskFailed_def)

lemma failed_objs:
  "t_state (objs (failed c m t e) u) = t_state (objs e u)" "t_stopping (objs (failed c m t e) u) = t_stopping (objs e u)"
  "t_counts (objs (failed c m t e) u) = t_counts (objs e u)" "t_gid (objs (failed c m t e) u) = t_gid (objs e u)"
  by (simp_all add: failed_def taskFailed_def)

lemma core_ok_failed:
  assumes ok: "core_ok [] e" and t: "t \<in> set (active e)" "\<not> t_stopping (objs e t)" "t \<notin> set (retiring (jobs e))"
  shows "core_ok [] (failed c m t e)"
proof -
  let ?e = "on_task t (\<lambda>k. k\<lparr>t_errorCode := c, t_errorMessage := m\<rparr>) e"
  have "core_ok [] ((tell (Checkpointed t) ?e)\<lparr>exitStatus := t_errorCode (objs ?e t)\<rparr>)"
    using ok by (simp add: core_ok_on_task)
  from post_retire [OF this, of t Failed] t show ?thesis by (simp add: failed_def taskFailed_def)
qed

lemma core_ok_run_start:
  assumes "core_ok [] e" and "t \<in> set (active e)" "\<not> t_stopping (objs e t)" "t \<notin> set (retiring (jobs e))"
  shows "core_ok [] (run_start v t e)"
  using core_ok_failed [OF assms] assms(1) by (simp add: run_start_def split: start_result.splits)

lemma not_retiring:
  assumes "core_ok held e" and "t \<notin> set (active e)"
  shows "t \<notin> set (retiring (jobs e))"
  using core_okE(4) [OF assms(1)] assms(2) unfolding jobs_ok_def in_retiring by blast

lemma core_ok_startTask:
  assumes ok: "core_ok [] e" and w: "waiting e = xs @ t # ys" and s: "state_of e t = Waiting"
  shows "core_ok [] (startTask v t (e\<lparr>waiting := xs @ ys\<rparr>))"
proof -
  have t: "t \<in> set (waiting e)" using w by simp
  have still: "still e t" by (rule waiting_still [OF ok t s])
  have "distinct (waiting e)" using core_okE(1) [OF ok] by (simp add: queues_ok_def members_def)
  then have rest: "removeAll t (waiting e) = xs @ ys" using w by simp
  have held: "core_ok [t] (e\<lparr>waiting := xs @ ys\<rparr>)" using take_waiting [OF ok t] rest by simp
  have "core_ok [t] (set_state t Active (e\<lparr>waiting := xs @ ys\<rparr>))"
    by (rule change_held [OF held]) (use still in \<open>simp_all add: still_def\<close>)
  from put_active [OF this, of "active e" "[]"] still
  have "core_ok [] ((set_state t Active (e\<lparr>waiting := xs @ ys\<rparr>))\<lparr>active := active e @ [t]\<rparr>)"
    by (simp add: still_def)
  then have "core_ok [] (emit Start t ((set_state t Active (e\<lparr>waiting := xs @ ys\<rparr>))\<lparr>active := active e @ [t]\<rparr>))"
    by simp
  from core_ok_run_start [OF this, of t v] held_not(1,5) [OF held] not_retiring [OF held]
  show ?thesis by (simp add: startTask_def Let_def)
qed

lemma startTask_fields [simp]:
  "active (startTask v t e) = active e @ [t]" "waiting (startTask v t e) = waiting e"
  "shuttingDown (startTask v t e) = shuttingDown e" "global (startTask v t e) = global e"
  "scheduled (startTask v t e) = scheduled e" "finished (startTask v t e) = finished e"
  "FinishShutdown \<in> set (jobs (startTask v t e)) \<longleftrightarrow> FinishShutdown \<in> set (jobs e)"
  by (simp_all add: startTask_def run_start_def Let_def split: start_result.splits)

lemma startTask_objs [simp]:
  "t_state (objs (startTask v t e) u) = (if u = t then Active else t_state (objs e u))"
  "t_counts (objs (startTask v t e) u) = t_counts (objs e u)"
  "t_stopping (objs (startTask v t e) u) = t_stopping (objs e u)"
  by (auto simp: startTask_def run_start_def Let_def failed_objs split: start_result.splits)

lemma core_ok_fill_loop:
  assumes "core_ok [] e" and "waiting e = passed @ rest"
  shows "core_ok [] (fill_loop v limit passed rest e)"
  using assms
proof (induction v limit passed rest e rule: fill_loop.induct)
  case (2 v limit passed t rest e)
  then show ?case using core_ok_startTask [OF 2(3,4)] by simp
qed simp

section \<open>Completion and its followers\<close>

fun all_fresh :: "engine \<Rightarrow> (nat \<times> nat option) list \<Rightarrow> bool" where
  "all_fresh e [] = True"
| "all_fresh e ((u, p) # fs) = (fresh e u \<and> all_fresh (add u p e) fs)"

lemma add_fields [simp]:
  "active (add u p e) = active e" "stopped (add u p e) = stopped e" "stops (add u p e) = stops e"
  "moving (add u p e) = moving e" "shuttingDown (add u p e) = shuttingDown e" "finished (add u p e) = finished e"
  "global (add u p e) = global e" "scheduled (add u p e)" "retiring (jobs (add u p e)) = retiring (jobs e)"
  "FinishShutdown \<in> set (jobs (add u p e)) \<longleftrightarrow> FinishShutdown \<in> set (jobs e)"
  by (simp_all add: add_def Let_def)

lemma add_other [simp]: "u \<noteq> t \<Longrightarrow> objs (add u p e) t = objs e t"
  by (simp add: add_def Let_def)

lemma core_ok_add_all:
  assumes "core_ok [] e" and "all_fresh e fs"
  shows "core_ok [] (fold (\<lambda>(u, p). add u p) fs e)"
  using assms by (induction e fs rule: all_fresh.induct) (auto intro: core_ok_add)

lemma add_all_fields:
  "active (fold (\<lambda>(u, p). add u p) fs e) = active e \<and> retiring (jobs (fold (\<lambda>(u, p). add u p) fs e)) = retiring (jobs e) \<and>
   shuttingDown (fold (\<lambda>(u, p). add u p) fs e) = shuttingDown e \<and> global (fold (\<lambda>(u, p). add u p) fs e) = global e \<and>
   finished (fold (\<lambda>(u, p). add u p) fs e) = finished e \<and> stops (fold (\<lambda>(u, p). add u p) fs e) = stops e \<and>
   (FinishShutdown \<in> set (jobs (fold (\<lambda>(u, p). add u p) fs e)) \<longleftrightarrow> FinishShutdown \<in> set (jobs e))"
proof (induction fs arbitrary: e)
  case (Cons f fs)
  show ?case using Cons [of "add (fst f) (snd f) e"] by (cases f) (simp only: fold_simps prod.case fst_conv snd_conv add_fields)
qed simp

lemma all_fresh_other:
  "all_fresh e fs \<Longrightarrow> t \<in> set (active e) \<Longrightarrow> objs (fold (\<lambda>(u, p). add u p) fs e) t = objs e t"
proof (induction e fs rule: all_fresh.induct)
  case (2 e u p fs)
  then have "u \<noteq> t" by (auto simp: fresh_def members_def)
  then show ?case using 2 by simp
qed simp

lemma core_ok_complete:
  assumes ok: "core_ok [] e" and t: "t \<in> set (active e)" "\<not> t_stopping (objs e t)" "t \<notin> set (retiring (jobs e))"
    and fs: "all_fresh (tell (Checkpointed t) (on_task t (\<lambda>k. k\<lparr>t_errorCode := finished_code, t_errorMessage := []\<rparr>) e)) fs"
      (is "all_fresh ?e fs")
  shows "core_ok [] (complete fs t e)"
proof -
  have "core_ok [] ?e" using ok by (simp add: core_ok_on_task)
  from core_ok_add_all [OF this fs] have new: "core_ok [] (fold (\<lambda>(u, p). add u p) fs ?e)" .
  have "core_ok [] (post (Retire t Complete) (fold (\<lambda>(u, p). add u p) fs ?e))"
    by (rule post_retire [OF new]) (use t add_all_fields [of fs ?e] all_fresh_other [OF fs, of t] in simp_all)
  then show ?thesis by (simp add: complete_def taskCompleted_def)
qed

section \<open>Handing over\<close>

lemma replace_first_split:
  assumes "xs = us @ x # vs" and "x \<notin> set us"
  shows "replace_first x y xs = us @ y # vs"
  unfolding assms(1) using assms(2) by (induction us) auto

text \<open>An object outside the queues may change freely.\<close>

lemma core_ok_stranger:
  assumes ok: "core_ok held e" and t: "t \<notin> set (members held e)"
  shows "core_ok held (on_task t f e)"
proof -
  have other: "t \<noteq> u" if "u \<in> set (members held e)" for u using t that by auto
  have "queues_ok held (on_task t f e)"
    using core_okE(1) [OF ok] t by (auto simp: queues_ok_def members_def)
  moreover have "table_ok held (on_task t f e)"
    using core_okE(2) [OF ok] t by (auto simp: table_ok_def members_def)
  moreover have "stops_ok held (on_task t f e)"
    using core_okE(3) [OF ok] t by (auto simp: stops_ok_def members_def)
  moreover have "jobs_ok (on_task t f e)"
    using core_okE(4) [OF ok] t by (auto simp: jobs_ok_def members_def)
  moreover have "moving_ok held (on_task t f e)"
  proof -
    have "\<exists>u. map_of (tasks e) g = Some u \<and> move_ok held (on_task t f e) u m" if g: "map_of (moving e) g = Some m" for g m
    proof -
      obtain u where u: "map_of (tasks e) g = Some u" "move_ok held e u m"
        using core_okE(5) [OF ok] g unfolding moving_ok_def by blast
      then have "u \<in> set (members held e)" using core_okE(2) [OF ok] unfolding table_ok_def by blast
      then have "t \<noteq> u" by (rule other)
      then have "move_ok held (on_task t f e) u m" using u(2) by (auto simp: move_ok_def split: if_splits)
      then show ?thesis using u(1) by blast
    qed
    moreover have "u \<in> set held \<union> set (waiting e) \<and> (\<exists>m. map_of (moving e) (gid_of (on_task t f e) u) = Some m \<and> m_started m)"
      if "u \<in> fst ` set (disk_work e)" for u
    proof -
      have w: "u \<in> set held \<union> set (waiting e)" "\<exists>m. map_of (moving e) (gid_of e u) = Some m \<and> m_started m"
        using core_okE(5) [OF ok] that unfolding moving_ok_def by blast+
      then have "t \<noteq> u" by (intro other) (auto simp: members_def)
      then show ?thesis using w by simp
    qed
    ultimately show ?thesis using core_okE(5) [OF ok] by (simp add: moving_ok_def)
  qed
  ultimately show ?thesis by (simp add: core_ok_def)
qed

lemma core_ok_handOver:
  assumes ok: "core_ok [] e"
    and t: "t \<in> set (active e) \<Longrightarrow> \<not> t_stopping (objs e t) \<and> t \<notin> set (retiring (jobs e))"
    and n: "n \<notin> set (members [] e)" "\<not> t_stopping (objs e n)"
  shows "core_ok [] (handOver v t n e)"
proof (cases "t \<in> set (active e) \<and> gid_of e n = gid_of e t")
  case True
  then have a: "t \<in> set (active e)" and t': "\<not> t_stopping (objs e t)" "t \<notin> set (retiring (jobs e))"
    and g: "gid_of e n = gid_of e t" using t by auto
  have dist: "distinct (active e)" using core_okE(1) [OF ok] by (simp add: queues_ok_def members_def)
  obtain us vs where act: "active e = us @ t # vs" using split_list [OF a] by blast
  then have out: "t \<notin> set us" "t \<notin> set vs" using dist by auto
  have nt: "n \<noteq> t" using n a by (auto simp: members_def)
  let ?e1 = "e\<lparr>active := us @ vs\<rparr>"
  have held: "core_ok [t] ?e1" using take_active [OF ok a t'] act out by simp
  have still: "still e t" by (rule running_still [OF ok a t'(1)])
  let ?e2 = "?e1\<lparr>tasks := map_erase (gid_of e t) (tasks e)\<rparr>"
  have dropped: "core_ok [] ?e2"
    using drop_held [OF held] still by (simp add: still_def)
  have nowhere: "t \<notin> set (members [] ?e2)" "n \<notin> set (members [] ?e2)"
    using held_not [OF held] n(1) act by (auto simp: members_def)
  have "fresh ?e2 n" using nowhere n g by (simp add: fresh_def map_simps)
  from add_fresh [OF dropped this]
  have "core_ok [n] (?e2\<lparr>tasks := map_put (gid_of e t) n (tasks ?e2)\<rparr>)" by (simp add: g)
  then have new: "core_ok [n] (?e1\<lparr>tasks := map_put (gid_of e t) n (map_erase (gid_of e t) (tasks e))\<rparr>)" by simp
  have held2: "core_ok [n] (?e1\<lparr>tasks := map_put (gid_of e t) n (tasks e)\<rparr>)"
    by (rule core_ok_tasks_cong [OF new]) (use keys_tasks [OF ok] in \<open>simp_all add: map_simps keys_ascend_map_put\<close>)
  let ?f = "\<lambda>k :: task. k\<lparr>t_state := Active, t_following := t_following (objs e t), t_belongsTo := t_belongsTo (objs e t)\<rparr>"
  let ?e3 = "on_task n ?f (?e1\<lparr>tasks := map_put (gid_of e t) n (tasks e)\<rparr>)"
  have "core_ok [n] ?e3"
    by (rule change_held [OF held2]) (use still g in \<open>simp_all add: still_def\<close>)
  from put_active [OF this, of us vs] still g
  have put: "core_ok [] (?e3\<lparr>active := us @ n # vs\<rparr>)" by (simp add: still_def)
  have "t \<notin> set (members [] (?e3\<lparr>active := us @ n # vs\<rparr>))"
    using nowhere nt by (simp add: members_def)
  from core_ok_stranger [OF put this]
  have gone: "core_ok [] (set_state t Removed (?e3\<lparr>active := us @ n # vs\<rparr>))" .
  let ?e4 = "set_state t Removed (on_task n ?f (e\<lparr>active := us @ n # vs, tasks := map_put (gid_of e t) n (tasks e)\<rparr>))"
  have "core_ok [] ?e4"
    by (rule core_ok_cong [OF _ _ _ _ _ _ _ _ _ _ gone]) simp_all
  moreover have "n \<notin> set (retiring (jobs e))"
    using not_retiring [OF ok] n(1) by (simp add: members_def)
  ultimately have "core_ok [] (run_start v n ?e4)"
    by (rule_tac core_ok_run_start) (use n(2) nt in simp_all)
  then show ?thesis
    using a g by (simp add: handOver_def Let_def replace_first_split [OF act out(1)])
qed (use ok in \<open>auto simp: handOver_def\<close>)

section \<open>All tasks at once\<close>

definition quiet :: "engine \<Rightarrow> nat \<Rightarrow> bool" where
  "quiet e t \<longleftrightarrow> t \<notin> set (retiring (jobs e))"

definition patient :: "virtual \<Rightarrow> bool \<Rightarrow> engine \<Rightarrow> nat \<Rightarrow> bool" where
  "patient v force e t \<longleftrightarrow> (t \<in> fst ` set (stops e) \<longrightarrow> v_stop v t force = Done_instead)"

abbreviation stop_each :: "virtual \<Rightarrow> bool \<Rightarrow> nat \<Rightarrow> engine \<Rightarrow> engine" where
  "stop_each v force t e \<equiv> if \<not> t_stopping (objs e t) \<or> force then stopTask v t force Waiting e else e"

lemma stopTask_after:
  assumes "t \<in> set (active (stopTask v t force n e))"
  shows "t_stopping (objs (stopTask v t force n e) t)"
  using assms by (auto simp: stopTask_def Let_def split: stop_result.splits)

lemma stopTask_finished:
  assumes "finished e"
  shows "finished (stopTask v t force n e)"
  using assms by (auto simp: stopTask_def Let_def stop_done_finished split: stop_result.splits)

lemma stopTask_last:
  assumes "shuttingDown e" and "active e \<noteq> []" and "active (stopTask v t force n e) = []"
  shows "finished (stopTask v t force n e)"
  using assms by (auto simp: stopTask_def Let_def stop_done_finished split: stop_result.splits)

text \<open>One pass over the running tasks at shutdown.\<close>

definition passed :: "nat list \<Rightarrow> engine \<Rightarrow> engine \<Rightarrow> bool" where
  "passed ts e e' \<longleftrightarrow>
     core_ok [] e' \<and> shuttingDown e' \<and> set (active e') \<subseteq> set (active e) \<and>
     (\<forall>t \<in> set (active e'). t \<in> set ts \<longrightarrow> t_stopping (objs e' t)) \<and>
     (\<forall>t. t \<notin> set ts \<longrightarrow> objs e' t = objs e t) \<and>
     (active e \<noteq> [] \<longrightarrow> active e' = [] \<longrightarrow> finished e') \<and> (finished e \<longrightarrow> finished e') \<and>
     (FinishShutdown \<in> set (jobs e') \<longleftrightarrow> FinishShutdown \<in> set (jobs e))"

lemma passed_step:
  assumes s: "passed [t] e s" and e': "passed ts s e'" and t: "t \<notin> set ts"
  shows "passed (t # ts) e e'"
proof -
  have "objs e' t = objs s t" using e' t by (simp add: passed_def)
  moreover have "t \<in> set (active s) \<longrightarrow> t_stopping (objs s t)" using s by (simp add: passed_def)
  ultimately have "\<forall>u \<in> set (active e'). u \<in> set (t # ts) \<longrightarrow> t_stopping (objs e' u)"
    using e' unfolding passed_def by auto
  moreover have "\<forall>u. u \<notin> set (t # ts) \<longrightarrow> objs e' u = objs e u"
    using s e' unfolding passed_def by simp
  moreover have "active e \<noteq> [] \<longrightarrow> active e' = [] \<longrightarrow> finished e'"
    using s e' by (cases "active s = []") (simp_all add: passed_def)
  moreover have "set (active e') \<subseteq> set (active e)"
    using s e' unfolding passed_def by (meson subset_trans)
  ultimately show ?thesis using s e' by (simp add: passed_def)
qed

lemma stop_one:
  assumes ok: "core_ok [] e" and t: "t \<in> set (active e)" and q: "quiet e t" "force \<Longrightarrow> patient v force e t"
    and down: "shuttingDown e"
  shows "passed [t] e (stop_each v force t e)"
proof (cases "\<not> t_stopping (objs e t) \<or> force")
  case True
  have st: "t_stopping (objs e t) \<longleftrightarrow> t \<in> fst ` set (stops e)"
    using core_okE(3) [OF ok] t by (simp add: stops_ok_def members_def)
  have "core_ok [] (stopTask v t force Waiting e)"
    by (rule core_ok_stopTask [OF ok t]) (use q True st in \<open>auto simp: quiet_def patient_def\<close>)
  moreover have "set (active (stopTask v t force Waiting e)) \<subseteq> set (active e)"
    using stopTask_other(2) [of _ t v force Waiting e] t by (metis subsetI)
  ultimately have "passed [t] e (stopTask v t force Waiting e)"
    using down stopTask_after [of t v force Waiting e] stopTask_finished [of e v t force Waiting]
      stopTask_last [of e v t force Waiting] stopTask_other(1) [of _ t v force Waiting e]
    by (simp add: passed_def)
  then show ?thesis using True by simp
qed (use ok down in \<open>simp_all add: passed_def\<close>)

lemma stop_each_fields:
  "retiring (jobs (stop_each v force t e)) = retiring (jobs e)"
  "u \<noteq> t \<Longrightarrow> u \<in> set (active (stop_each v force t e)) \<longleftrightarrow> u \<in> set (active e)"
  "u \<noteq> t \<Longrightarrow> u \<in> fst ` set (stops (stop_each v force t e)) \<longleftrightarrow> u \<in> fst ` set (stops e)"
  by (simp_all add: stopTask_other(2,3) del: not_Cons_self)

lemma stop_pass:
  assumes "core_ok [] e" and "distinct ts" and "set ts \<subseteq> set (active e)"
    and "\<forall>t \<in> set ts. quiet e t \<and> (force \<longrightarrow> patient v force e t)" and "shuttingDown e"
  shows "passed ts e (fold (stop_each v force) ts e)"
  using assms
proof (induction ts arbitrary: e)
  case (Cons t ts)
  define s where "s = stop_each v force t e"
  have t: "t \<in> set (active e)" "t \<notin> set ts" "distinct ts" using Cons.prems by auto
  have one: "passed [t] e s" unfolding s_def by (rule stop_one) (use Cons.prems t in auto)
  have others: "u \<in> set (active s) \<longleftrightarrow> u \<in> set (active e)"
    "u \<in> fst ` set (stops s) \<longleftrightarrow> u \<in> fst ` set (stops e)" if "u \<in> set ts" for u
  proof -
    have "u \<noteq> t" using that t(2) by auto
    then show "u \<in> set (active s) \<longleftrightarrow> u \<in> set (active e)"
      "u \<in> fst ` set (stops s) \<longleftrightarrow> u \<in> fst ` set (stops e)"
      unfolding s_def by (rule stop_each_fields(2), rule stop_each_fields(3))
  qed
  have jobs: "retiring (jobs s) = retiring (jobs e)" unfolding s_def by (rule stop_each_fields)
  have "passed ts s (fold (stop_each v force) ts s)"
  proof (rule Cons.IH)
    show "core_ok [] s" "shuttingDown s" using one by (simp_all add: passed_def)
    show "set ts \<subseteq> set (active s)" using others(1) Cons.prems(3) by auto
    show "\<forall>t\<in>set ts. quiet s t \<and> (force \<longrightarrow> patient v force s t)"
      using others(2) jobs Cons.prems(4) by (simp add: quiet_def patient_def)
  qed (rule t(3))
  from passed_step [OF one this t(2)] show ?case by (simp add: s_def)
qed (auto simp: passed_def)

end
