(* ===== verification/Engine_Run.thy ===== *)
theory Engine_Run
  imports Engine_Safety
begin

text \<open>
  The engine as a transition system: every call the rest of the program makes, every handler of the
  event loop, every answer of a task or of the disk threads is a step. In every reachable state the
  queues are consistent, no waiting task is forgotten, and a shutdown cannot get stuck.

  Three conditions on the steps are what the tasks have to provide: a task does not report its outcome
  twice or while it is stopping, nothing asks a task to stop between its outcome and the handler that
  files it, and a second \<open>stop()\<close> replaces the callback of the first.
\<close>

section \<open>No forgotten task, no stuck shutdown\<close>

definition slots :: "engine \<Rightarrow> nat" where
  "slots e = size_t_of (max_concurrent (global e))"

definition wake_ok :: "engine \<Rightarrow> bool" where
  "wake_ok e \<longleftrightarrow> shuttingDown e \<or> scheduled e \<or> slots e \<le> activeCount e \<or> \<not> queued e"

definition down_ok :: "engine \<Rightarrow> bool" where
  "down_ok e \<longleftrightarrow>
     (shuttingDown e \<longrightarrow>
        finished e \<or> FinishShutdown \<in> set (jobs e) \<or>
        active e \<noteq> [] \<and> (\<forall>t \<in> set (active e). t_stopping (objs e t)))"

definition engine_ok :: "engine \<Rightarrow> bool" where
  "engine_ok e \<longleftrightarrow> core_ok [] e \<and> wake_ok e \<and> down_ok e"

lemma wake_scheduled: "scheduled e \<Longrightarrow> wake_ok e"
  by (simp add: wake_ok_def)

lemma wake_mono:
  assumes "wake_ok e" and "shuttingDown e \<Longrightarrow> shuttingDown e'" and "scheduled e \<Longrightarrow> scheduled e'"
    and "slots e' \<le> slots e" and "activeCount e \<le> activeCount e'" and "queued e' \<Longrightarrow> queued e"
  shows "wake_ok e'"
  using assms by (auto simp: wake_ok_def)

text \<open>The parts of a state that the two conditions read.\<close>

lemma wake_same:
  assumes "wake_ok e" and "shuttingDown e' = shuttingDown e" and "scheduled e \<Longrightarrow> scheduled e'"
    and "global e' = global e" and "active e' = active e" and "waiting e' = waiting e"
    and "\<And>t. t_counts (objs e' t) = t_counts (objs e t)"
    and "\<And>t. t \<in> set (waiting e) \<Longrightarrow> state_of e' t = Waiting \<Longrightarrow> state_of e t = Waiting"
  shows "wake_ok e'"
  by (rule wake_mono [OF assms(1)]) (use assms in \<open>auto simp: slots_def activeCount_def queued_def\<close>)

lemma down_same:
  assumes "down_ok e" and "shuttingDown e' = shuttingDown e" and "finished e \<Longrightarrow> finished e'"
    and "FinishShutdown \<in> set (jobs e) \<Longrightarrow> FinishShutdown \<in> set (jobs e')" and "active e' = active e"
    and "\<And>t. t \<in> set (active e) \<Longrightarrow> t_stopping (objs e t) \<Longrightarrow> t_stopping (objs e' t)"
  shows "down_ok e'"
  using assms by (auto simp: down_ok_def)

lemma queued_simps [simp]:
  "queued (e\<lparr>jobs := x1\<rparr>) = queued e" "queued (e\<lparr>effects := x2\<rparr>) = queued e" "queued (e\<lparr>scheduled := x3\<rparr>) = queued e"
  "queued (e\<lparr>moving := x4\<rparr>) = queued e" "queued (e\<lparr>disk_work := x5\<rparr>) = queued e" "queued (tell y e) = queued e"
  by (simp_all add: queued_def)

section \<open>Stops\<close>

lemma stopTask_later:
  assumes "v_stop v t force \<noteq> Done_now"
  shows "stopTask v t force n e = (on_task t (\<lambda>k. k\<lparr>t_stopping := True\<rparr>) e)
           \<lparr>stops := (if v_stop v t force = Done_later then stops e else filter (\<lambda>p. fst p \<noteq> t) (stops e)) @ [(t, n)]\<rparr>"
  using assms by (cases "v_stop v t force") (simp_all add: stopTask_def)

lemma wake_stopTask:
  assumes "wake_ok e"
  shows "wake_ok (stopTask v t force n e)"
proof (cases "v_stop v t force = Done_now")
  case True
  then show ?thesis by (simp add: stopTask_def wake_scheduled)
next
  case False
  show ?thesis unfolding stopTask_later [OF False] by (rule wake_same [OF assms]) (auto split: if_splits)
qed

lemma down_stop_done:
  assumes "down_ok e"
  shows "down_ok (stop_done v t n e)"
proof -
  have "t_stopping (objs (stop_done v t n e) u)" if "u \<in> set (active (stop_done v t n e))" "t_stopping (objs e u)" for u
    using that by simp
  then show ?thesis using assms by (auto simp: down_ok_def stop_done_finished)
qed

lemma down_stopTask:
  assumes "down_ok e"
  shows "down_ok (stopTask v t force n e)"
proof (cases "v_stop v t force = Done_now")
  case True
  have "down_ok (on_task t (\<lambda>k. k\<lparr>t_stopping := True\<rparr>) e)" by (rule down_same [OF assms]) simp_all
  from down_stop_done [OF this, of v t n] show ?thesis using True by (simp add: stopTask_def)
next
  case False
  show ?thesis unfolding stopTask_later [OF False] by (rule down_same [OF assms]) simp_all
qed

lemma mset_pick:
  "distinct (map fst xs) \<Longrightarrow> (t, n) \<in> set xs \<Longrightarrow> mset xs = add_mset (t, n) (mset (filter (\<lambda>p. fst p \<noteq> t) xs))"
proof (induction xs)
  case (Cons p ps)
  have "filter (\<lambda>p. fst p \<noteq> t) ps = ps" if "t \<notin> fst ` set ps" using that by (force simp: filter_id_conv)
  then have "t \<notin> fst ` set ps \<Longrightarrow> {#x \<in># mset ps. fst x \<noteq> t#} = mset ps" by (metis mset_filter)
  then show ?case using Cons by (cases p) (auto simp: add_mset_commute intro: rev_image_eqI)
qed simp

lemma engine_ok_stop_answer:
  assumes ok: "engine_ok e" and t: "(t, n) \<in> set (stops e)"
  shows "engine_ok (stop_done v t n (e\<lparr>stops := filter (\<lambda>p. fst p \<noteq> t) (stops e)\<rparr>))"
proof -
  let ?e = "e\<lparr>stops := filter (\<lambda>p. fst p \<noteq> t) (stops e)\<rparr>"
  have core: "core_ok [] e" using ok by (simp add: engine_ok_def)
  have dist: "distinct (map fst (stops e))" using core_okE(3) [OF core] by (simp add: stops_ok_def)
  have "mset (stops e) = mset ((t, n) # filter (\<lambda>p. fst p \<noteq> t) (stops e))"
    using mset_pick [OF dist t] by simp
  then have "core_ok [] (?e\<lparr>stops := (t, n) # stops ?e\<rparr>)"
    using core_ok_stops_order [where e = e and xs = "stops e"] core by simp
  then have "core_ok [] (stop_done v t n ?e)" by (rule core_ok_stop_done)
  moreover have "down_ok ?e" using ok by (auto simp: engine_ok_def intro: down_same)
  ultimately show ?thesis by (simp add: engine_ok_def wake_scheduled down_stop_done)
qed

section \<open>Every operation keeps the invariant\<close>

lemma engine_okE:
  assumes "engine_ok e"
  shows "core_ok [] e" and "wake_ok e" and "down_ok e"
  using assms by (simp_all add: engine_ok_def)

lemma wake_pause:
  assumes "wake_ok e"
  shows "wake_ok (pause v t force e)"
proof -
  let ?e = "set_resume (gid_of e t) False e"
  have r: "wake_ok ?e" by (rule wake_same [OF assms]) simp_all
  have "wake_ok (emit Pause t (set_state t Paused ?e))" by (rule wake_same [OF r]) (auto split: if_splits)
  then show ?thesis using r wake_stopTask [OF r] by (simp add: pause_def Let_def split: task_state.splits)
qed

lemma down_pause:
  assumes "down_ok e"
  shows "down_ok (pause v t force e)"
proof -
  let ?e = "set_resume (gid_of e t) False e"
  have r: "down_ok ?e" by (rule down_same [OF assms]) simp_all
  have "down_ok (emit Pause t (set_state t Paused ?e))" by (rule down_same [OF r]) auto
  then show ?thesis using r down_stopTask [OF r] by (simp add: pause_def Let_def split: task_state.splits)
qed

lemma engine_ok_pause:
  assumes "engine_ok e" and "t \<in> set (members [] e)" and "quiet e t"
  shows "engine_ok (pause v t force e)"
  using assms core_ok_pause wake_pause down_pause by (simp add: engine_ok_def quiet_def)

lemma down_unpause:
  assumes "down_ok e"
  shows "down_ok (unpause t e)"
  by (rule down_same [OF assms]) (auto simp: unpause_def)

lemma wake_unpause:
  assumes "wake_ok e"
  shows "wake_ok (unpause t e)"
proof (cases "map_of (moving e) (gid_of e t) \<noteq> None")
  case True
  have "wake_ok (set_resume (gid_of e t) True e)" by (rule wake_same [OF assms]) simp_all
  then show ?thesis using True by (simp add: unpause_def)
qed (use assms in \<open>simp add: unpause_def wake_scheduled\<close>)

lemma engine_ok_unpause:
  assumes "engine_ok e" and "t \<in> set (members [] e)"
  shows "engine_ok (unpause t e)"
  using assms core_ok_unpause wake_unpause down_unpause by (simp add: engine_ok_def)

lemma engine_ok_remove:
  assumes ok: "engine_ok e" and "t \<in> set (members [] e)" "quiet e t" "patient v force e t" "remove v t force e = Inr e'"
  shows "engine_ok e'"
proof -
  note ok = engine_okE [OF assms(1)]
  have "core_ok [] e'"
    by (rule core_ok_remove [OF ok(1) assms(2) _ _ assms(5)]) (use assms in \<open>simp_all add: quiet_def patient_def\<close>)
  moreover have "wake_ok e'"
    using assms(5) ok(2) wake_stopTask [OF ok(2), of v t force Removed]
    by (auto simp: remove_def wake_scheduled split: if_splits task_state.splits)
  moreover have "down_ok e'"
  proof -
    let ?r = "retire t Removed (on_task t (\<lambda>k. k\<lparr>t_errorCode := removed_code, t_errorMessage := ''Removed''\<rparr>)
      (e\<lparr>waiting := removeAll t (waiting e)\<rparr>))"
    have "down_ok ?r" if "t \<notin> set (active e)"
      by (rule down_same [OF ok(3)]) (use that in auto)
    then show ?thesis
      using assms(5) ok(3) down_stopTask [OF ok(3), of v t force Removed] where_is(1) [OF ok(1) assms(2)]
      by (auto simp: remove_def split: if_splits task_state.splits)
  qed
  ultimately show ?thesis by (simp add: engine_ok_def)
qed

lemma moveFilesOf_keeps [simp]:
  "shuttingDown (moveFilesOf v t e) = shuttingDown e" "scheduled (moveFilesOf v t e) = scheduled e"
  "global (moveFilesOf v t e) = global e" "active (moveFilesOf v t e) = active e" "waiting (moveFilesOf v t e) = waiting e"
  "objs (moveFilesOf v t e) = objs e" "finished (moveFilesOf v t e) = finished e" "jobs (moveFilesOf v t e) = jobs e"
  by (auto simp: moveFilesOf_def Let_def split: option.splits)

lemma engine_ok_relocate:
  assumes ok: "engine_ok e" and "t \<in> set (members [] e)" "quiet e t" "relocate v t dir e = Inr e'"
  shows "engine_ok e'"
proof -
  note ok = engine_okE [OF assms(1)]
  let ?e = "\<lambda>b. e\<lparr>moving := map_put (gid_of e t) \<lparr>m_dir = dir, m_resume = b, m_started = False\<rparr> (moving e)\<rparr>"
  have w: "wake_ok (?e b)" and d: "down_ok (?e b)" for b
    by (rule wake_same [OF ok(2)], simp_all) (rule down_same [OF ok(3)], simp_all)
  have w': "wake_ok (moveFilesOf v t (set_state t Paused (?e True)))" "wake_ok (moveFilesOf v t (?e False))"
    by (rule wake_same [OF w [of True]], auto split: if_splits) (rule wake_same [OF w [of False]], auto)
  have d': "down_ok (moveFilesOf v t (set_state t Paused (?e True)))" "down_ok (moveFilesOf v t (?e False))"
    by (rule down_same [OF d [of True]], auto) (rule down_same [OF d [of False]], simp_all)
  have "wake_ok e'"
    using assms(4) w w' wake_stopTask [OF w, of v t True Paused True]
    by (auto simp: relocate_def Let_def split: if_splits task_state.splits)
  moreover have "down_ok e'"
    using assms(4) d d' down_stopTask [OF d, of v t True Paused True]
    by (auto simp: relocate_def Let_def split: if_splits task_state.splits)
  moreover have "core_ok [] e'"
    by (rule core_ok_relocate [OF ok(1) assms(2) _ assms(4)]) (use assms(3) in \<open>simp add: quiet_def\<close>)
  ultimately show ?thesis by (simp add: engine_ok_def)
qed

lemma engine_ok_disk_answer:
  assumes "engine_ok e" and t: "t \<in> fst ` set (disk_work e)"
  shows "engine_ok (disk_answer t error e)"
proof -
  note ok = engine_okE [OF assms(1)]
  obtain m where m: "map_of (moving e) (gid_of e t) = Some m"
    using core_okE(5) [OF ok(1)] t unfolding moving_ok_def by blast
  let ?e = "e\<lparr>disk_work := filter (\<lambda>x. fst x \<noteq> t) (disk_work e), moving := map_erase (gid_of e t) (moving e)\<rparr>"
  let ?e2 = "if error = [] then tell (Relocated t (m_dir m)) (on_task t (\<lambda>k. k\<lparr>t_dir := m_dir m\<rparr>) ?e) else ?e"
  let ?e3 = "if m_resume m then unpause t ?e2 else ?e2"
  have eq: "disk_answer t error e = tell (MoveAnswered (gid_of ?e3 t) error) ?e3"
    using m by (simp add: disk_answer_def files_moved_def Let_def)
  have w: "wake_ok ?e2" by (rule wake_same [OF ok(2)]) (auto split: if_splits)
  have d: "down_ok ?e2" by (rule down_same [OF ok(3)]) (auto split: if_splits)
  have w3: "wake_ok ?e3" and d3: "down_ok ?e3" using w d wake_unpause [OF w] down_unpause [OF d] by simp_all
  have "wake_ok (disk_answer t error e)" unfolding eq by (rule wake_same [OF w3]) simp_all
  moreover have "down_ok (disk_answer t error e)" unfolding eq by (rule down_same [OF d3]) simp_all
  ultimately show ?thesis using core_ok_disk_answer [OF ok(1) t] by (simp add: engine_ok_def)
qed

lemma engine_ok_add:
  assumes "engine_ok e" and "fresh e t"
  shows "engine_ok (add t p e)"
proof -
  note ok = engine_okE [OF assms(1)]
  have "t \<noteq> u" if "u \<in> set (active e)" for u using assms(2) that by (auto simp: fresh_def members_def)
  then have "down_ok (add t p e)" by (intro down_same [OF ok(3)]) simp_all
  then show ?thesis using core_ok_add [OF ok(1) assms(2)] by (simp add: engine_ok_def wake_scheduled)
qed

lemma engine_ok_requeue:
  assumes "engine_ok e" and "requeue t e = Inr e'"
  shows "engine_ok e'"
proof -
  note ok = engine_okE [OF assms(1)]
  have "scheduled e'" and "down_ok e'"
    using assms(2) by (auto simp: requeue_def Let_def split: if_splits intro: down_same [OF ok(3)])
  then show ?thesis using core_ok_requeue [OF ok(1) assms(2)] by (simp add: engine_ok_def wake_scheduled)
qed

lemma engine_ok_removeResult:
  assumes "engine_ok e"
  shows "engine_ok (snd (removeResult g e))"
proof -
  note ok = engine_okE [OF assms(1)]
  have "wake_ok (snd (removeResult g e))"
    by (rule wake_same [OF ok(2)]) (auto simp: removeResult_def split: option.splits)
  moreover have "down_ok (snd (removeResult g e))"
    by (rule down_same [OF ok(3)]) (auto simp: removeResult_def split: option.splits)
  ultimately show ?thesis using core_ok_removeResult [OF ok(1)] by (simp add: engine_ok_def)
qed

lemma engine_ok_purge:
  assumes "engine_ok e"
  shows "engine_ok (purgeResults e)"
proof -
  note ok = engine_okE [OF assms(1)]
  have "wake_ok (purgeResults e)"
    by (rule wake_same [OF ok(2)]) (auto simp: purgeResults_def purge_fold)
  moreover have "down_ok (purgeResults e)"
    by (rule down_same [OF ok(3)]) (auto simp: purgeResults_def purge_fold)
  ultimately show ?thesis using core_ok_purge [OF ok(1)] by (simp add: engine_ok_def)
qed

lemma engine_ok_move_task:
  assumes "engine_ok e" and "move_task t offset how e = Inr (n, e')"
  shows "engine_ok e'"
proof -
  note ok = engine_okE [OF assms(1)]
  obtain k where e': "e' = e\<lparr>waiting := take k (remove1 t (waiting e)) @ t # drop k (remove1 t (waiting e))\<rparr>"
    and t: "t \<in> set (waiting e)"
    using move_task_waiting [OF assms(2)] by blast
  have "waiting e' = take k (remove1 t (waiting e)) @ t # drop k (remove1 t (waiting e))" by (simp add: e')
  then have "mset (waiting e') = mset (waiting e)" using mset_insert_at [OF t, of k] by (simp only:)
  then have "set (waiting e') = set (waiting e)" by (rule mset_eq_setD)
  then have "wake_ok e'"
    by (intro wake_mono [OF ok(2)]) (auto simp: e' slots_def activeCount_def queued_def)
  moreover have "down_ok e'" by (rule down_same [OF ok(3)]) (simp_all add: e')
  ultimately show ?thesis using core_ok_move_task [OF ok(1) assms(2)] by (simp add: engine_ok_def)
qed

lemma engine_ok_failed:
  assumes "engine_ok e" and t: "t \<in> set (active e)" "\<not> t_stopping (objs e t)" "quiet e t"
  shows "engine_ok (failed c m t e)"
proof -
  note ok = engine_okE [OF assms(1)]
  have "wake_ok (failed c m t e)" by (rule wake_same [OF ok(2)]) (simp_all add: failed_objs)
  moreover have "down_ok (failed c m t e)" by (rule down_same [OF ok(3)]) (simp_all add: failed_objs)
  ultimately show ?thesis using core_ok_failed [OF ok(1)] t by (simp add: engine_ok_def quiet_def)
qed

lemma engine_ok_complete:
  assumes "engine_ok e" and t: "t \<in> set (active e)" "\<not> t_stopping (objs e t)" "quiet e t"
    and fs: "all_fresh (tell (Checkpointed t) (on_task t (\<lambda>k. k\<lparr>t_errorCode := finished_code, t_errorMessage := []\<rparr>) e)) fs"
      (is "all_fresh ?e fs")
  shows "engine_ok (complete fs t e)"
proof -
  note ok = engine_okE [OF assms(1)]
  have eq: "complete fs t e = post (Retire t Complete) (fold (\<lambda>(u, p). add u p) fs ?e)"
    by (simp add: complete_def taskCompleted_def)
  have "wake_ok (complete fs t e)"
  proof (cases fs)
    case Nil
    then show ?thesis unfolding eq by (intro wake_same [OF ok(2)]) (auto split: if_splits)
  next
    case (Cons f fs')
    have "scheduled (fold (\<lambda>(u, p). add u p) (f # fs') d)" for d
      by (induction fs' arbitrary: f d) (auto split: prod.splits)
    then show ?thesis unfolding eq by (intro wake_scheduled) (simp add: Cons)
  qed
  moreover have "down_ok (complete fs t e)"
    unfolding eq
    by (rule down_same [OF ok(3)]) (use add_all_fields [of fs ?e] all_fresh_other [OF fs] in auto)
  ultimately show ?thesis using core_ok_complete [OF ok(1) t(1,2) _ fs] t(3) by (simp add: engine_ok_def quiet_def)
qed

text \<open>Handing over keeps the slot: the new task counts when the old one did.\<close>

lemma run_start_fields [simp]:
  "active (run_start v t e) = active e" "waiting (run_start v t e) = waiting e" "shuttingDown (run_start v t e) = shuttingDown e"
  "scheduled (run_start v t e) = scheduled e" "global (run_start v t e) = global e" "finished (run_start v t e) = finished e"
  "FinishShutdown \<in> set (jobs (run_start v t e)) \<longleftrightarrow> FinishShutdown \<in> set (jobs e)"
  "t_state (objs (run_start v t e) u) = t_state (objs e u)" "t_counts (objs (run_start v t e) u) = t_counts (objs e u)"
  "t_stopping (objs (run_start v t e) u) = t_stopping (objs e u)"
  by (simp_all add: run_start_def failed_objs split: start_result.splits)

lemma engine_ok_handOver:
  assumes "engine_ok e"
    and t: "t \<in> set (active e) \<Longrightarrow> \<not> t_stopping (objs e t) \<and> quiet e t"
    and n: "n \<notin> set (members [] e)" "\<not> t_stopping (objs e n)" "t_counts (objs e t) \<longrightarrow> t_counts (objs e n)"
  shows "engine_ok (handOver v t n e)"
proof (cases "t \<in> set (active e) \<and> gid_of e n = gid_of e t")
  case True
  note ok = engine_okE [OF assms(1)]
  have a: "t \<in> set (active e)" and st: "\<not> t_stopping (objs e t)" using True t by auto
  obtain us vs where act: "active e = us @ t # vs" "t \<notin> set us" using split_list_first [OF a] by blast
  let ?e = "handOver v t n e"
  have fields: "active ?e = us @ n # vs" "waiting ?e = waiting e" "shuttingDown ?e = shuttingDown e"
    "scheduled ?e = scheduled e" "global ?e = global e" "finished ?e = finished e"
    "FinishShutdown \<in> set (jobs ?e) \<longleftrightarrow> FinishShutdown \<in> set (jobs e)"
    "\<And>u. t_counts (objs ?e u) = t_counts (objs e u)"
    "\<And>u. u \<in> set (waiting e) \<Longrightarrow> state_of ?e u = state_of e u"
    using True n(1) core_okE(1) [OF ok(1)] a
    by (auto simp: handOver_def Let_def replace_first_split [OF act] members_def queues_ok_def)
  have "wake_ok ?e"
    by (rule wake_mono [OF ok(2)])
      (use fields act n(3) in \<open>auto simp: slots_def activeCount_def queued_def\<close>)
  moreover have "down_ok ?e" using ok(3) fields act(1) st by (auto simp: down_ok_def)
  moreover have "core_ok [] ?e"
    by (rule core_ok_handOver [OF ok(1)]) (use t n in \<open>auto simp: quiet_def\<close>)
  ultimately show ?thesis by (simp add: engine_ok_def)
qed (use assms(1) in \<open>auto simp: handOver_def\<close>)

section \<open>Shutdown and the loop\<close>

definition calm :: "virtual \<Rightarrow> bool \<Rightarrow> engine \<Rightarrow> bool" where
  "calm v force e \<longleftrightarrow> (\<forall>t \<in> set (active e). quiet e t \<and> (force \<longrightarrow> patient v force e t))"

lemma engine_ok_shutdown:
  assumes "core_ok [] e" and "shuttingDown e \<longrightarrow> wake_ok e \<and> down_ok e" and "calm v force e"
  shows "core_ok [] (shutdown v force e)" and "shuttingDown (shutdown v force e)" and "down_ok (shutdown v force e)"
proof -
  let ?e = "e\<lparr>shuttingDown := True, forceShutdown := forceShutdown e \<or> force\<rparr>"
  have "core_ok [] (shutdown v force e) \<and> shuttingDown (shutdown v force e) \<and> down_ok (shutdown v force e)"
  proof (cases "shuttingDown e \<and> \<not> (force \<and> \<not> forceShutdown e)")
    case True
    then show ?thesis using assms by (simp add: shutdown_def)
  next
    case go: False
    show ?thesis
    proof (cases "active e = []")
      case True
      have "core_ok [] (post FinishShutdown ?e)" by (subst core_ok_finish) (use assms(1) in simp)
      moreover have "shutdown v force e = post FinishShutdown ?e" using go True by (simp add: shutdown_def Let_def)
      ultimately show ?thesis by (simp add: down_ok_def)
    next
      case False
      have dist: "distinct (active e)" using core_okE(1) [OF assms(1)] by (simp add: queues_ok_def members_def)
      have "passed (active ?e) ?e (fold (stop_each v force) (active ?e) ?e)"
        by (rule stop_pass) (use assms dist in \<open>auto simp: calm_def quiet_def patient_def\<close>)
      moreover have eq: "shutdown v force e = fold (stop_each v force) (active e) ?e"
        using go False by (auto simp: shutdown_def Let_def)
      ultimately have p: "passed (active e) ?e (shutdown v force e)" by simp
      then have "down_ok (shutdown v force e)"
        using False by (auto simp: passed_def down_ok_def)
      then show ?thesis using p by (simp add: passed_def)
    qed
  qed
  then show "core_ok [] (shutdown v force e)" "shuttingDown (shutdown v force e)" "down_ok (shutdown v force e)" by auto
qed

lemma engine_ok_shut:
  assumes "engine_ok e" and "calm v force e"
  shows "engine_ok (shutdown v force e)"
  using engine_ok_shutdown [of e v force] assms by (simp add: engine_ok_def wake_ok_def)

lemma fill_loop_fields:
  "shuttingDown (fill_loop v limit gone rest e) = shuttingDown e \<and> global (fill_loop v limit gone rest e) = global e \<and>
   scheduled (fill_loop v limit gone rest e) = scheduled e \<and> finished (fill_loop v limit gone rest e) = finished e"
  by (induction v limit gone rest e rule: fill_loop.induct) simp_all

text \<open>When the loop ends, the slots are full or nothing waits.\<close>

lemma fill_loop_wake:
  assumes "waiting e = gone @ rest" and "\<forall>t \<in> set gone. state_of e t \<noteq> Waiting" and "distinct (waiting e)"
  shows "limit \<le> activeCount (fill_loop v limit gone rest e) \<or> \<not> queued (fill_loop v limit gone rest e)"
  using assms
proof (induction v limit gone rest e rule: fill_loop.induct)
  case (2 v limit gone t rest e)
  show ?case
  proof (cases "activeCount e \<ge> limit \<or> state_of e t \<noteq> Waiting")
    case True
    then show ?thesis using 2(1) 2(3-5) by auto
  next
    case False
    let ?e = "startTask v t (e\<lparr>waiting := gone @ rest\<rparr>)"
    have "limit \<le> activeCount (fill_loop v limit gone rest ?e) \<or> \<not> queued (fill_loop v limit gone rest ?e)"
      by (rule 2(2)) (use False 2(3-5) in auto)
    then show ?thesis using False by simp
  qed
qed (auto simp: queued_def)

lemma engine_ok_fill:
  assumes core: "core_ok [] e" and down: "down_ok e"
  shows "engine_ok (fill v e)"
proof (cases "shuttingDown e")
  case True
  then show ?thesis using assms by (simp add: fill_def engine_ok_def wake_ok_def)
next
  case False
  let ?f = "fill_loop v (size_t_of (max_concurrent (global e))) [] (waiting e) e"
  have dist: "distinct (waiting e)" using core_okE(1) [OF core] by (simp add: queues_ok_def members_def)
  have fields: "\<not> shuttingDown ?f" "global ?f = global e" using fill_loop_fields False by simp_all
  have ok: "core_ok [] ?f" by (rule core_ok_fill_loop [OF core]) simp
  have wake: "wake_ok ?f"
    using fill_loop_wake [of e "[]" "waiting e", OF _ _ dist] fields by (simp add: wake_ok_def slots_def)
  have "down_ok ?f" using fields by (simp add: down_ok_def)
  then have "engine_ok ?f" using ok wake by (simp add: engine_ok_def)
  moreover have "engine_ok (shutdown v False ?f)" if "active ?f = []"
    by (rule engine_ok_shut [OF \<open>engine_ok ?f\<close>]) (use that in \<open>simp add: calm_def\<close>)
  ultimately show ?thesis using False by (simp add: fill_def Let_def)
qed

lemma engine_ok_run_job:
  assumes "engine_ok e" and j: "jobs e = j # js"
  shows "engine_ok (run_job v j (e\<lparr>jobs := js\<rparr>))"
proof -
  note ok = engine_okE [OF assms(1)]
  have popped: "core_ok [] (e\<lparr>jobs := js, scheduled := scheduled e \<and> j \<noteq> Fill\<rparr>)" by (rule next_job [OF ok(1) j])
  show ?thesis
  proof (cases j)
    case Fill
    then have "core_ok [] (e\<lparr>jobs := js, scheduled := False\<rparr>)" using popped by simp
    moreover have "down_ok (e\<lparr>jobs := js, scheduled := False\<rparr>)"
      using ok(3) j Fill by (auto simp: down_ok_def)
    ultimately show ?thesis using Fill engine_ok_fill by simp
  next
    case (Retire t s)
    then have core: "core_ok [] (e\<lparr>jobs := js\<rparr>)" using popped by simp
    have t: "t \<in> set (active e)" "\<not> t_stopping (objs e t)" "s = Complete \<or> s = Failed" "t \<notin> set (retiring js)"
      using core_okE(4) [OF ok(1)] j Retire by (auto simp: jobs_ok_def)
    have "core_ok [] (retire t s (e\<lparr>jobs := js\<rparr>))" by (rule core_ok_retire [OF core]) (use t in auto)
    moreover have "down_ok (retire t s (e\<lparr>jobs := js\<rparr>))"
      using ok(3) t(1,2) j Retire by (auto simp: down_ok_def)
    ultimately show ?thesis using Retire by (simp add: engine_ok_def wake_scheduled)
  next
    case FinishShutdown
    then have core: "core_ok [] (e\<lparr>jobs := js\<rparr>)" using popped by simp
    have "wake_ok (finishShutdown (e\<lparr>jobs := js\<rparr>))" by (rule wake_same [OF ok(2)]) simp_all
    then show ?thesis using core FinishShutdown by (simp add: engine_ok_def down_ok_def)
  qed
qed

lemma tell_all_fields:
  "fold (\<lambda>t. tell (x t)) ts e = e\<lparr>effects := effects e @ map x ts\<rparr>"
  by (induction ts arbitrary: e) (simp_all add: tell_def)

lemma saveSession_effects: "\<exists>x. saveSession e = e\<lparr>effects := x\<rparr>"
proof (cases "save_session (global e) = []")
  case True
  then have "saveSession e = e\<lparr>effects := effects e\<rparr>" by (simp add: saveSession_def)
  then show ?thesis by blast
next
  case False
  then show ?thesis by (auto simp: saveSession_def tell_def)
qed

lemma engine_ok_effects [simp]:
  "engine_ok (e\<lparr>effects := x\<rparr>) = engine_ok e" "engine_ok (e\<lparr>lastCheckpoint := y\<rparr>) = engine_ok e"
  "engine_ok (e\<lparr>lastSessionSave := z\<rparr>) = engine_ok e" "engine_ok (tell w e) = engine_ok e"
  by (simp_all add: engine_ok_def wake_ok_def down_ok_def slots_def activeCount_def queued_def)

lemma calm_effects [simp]:
  "calm v f (e\<lparr>effects := x\<rparr>) = calm v f e" "calm v f (e\<lparr>lastCheckpoint := y\<rparr>) = calm v f e"
  "calm v f (e\<lparr>lastSessionSave := z\<rparr>) = calm v f e"
  by (simp_all add: calm_def quiet_def patient_def)

lemma engine_ok_tick:
  assumes "engine_ok e" and "calm v False e"
  shows "engine_ok (tick v alive now e)"
proof -
  have e1: "engine_ok (tick_checkpoint now e)" "calm v False (tick_checkpoint now e)"
    using assms by (simp_all add: tick_checkpoint_def tell_all_fields)
  define d where "d = tick_session now (tick_checkpoint now e)"
  have d: "engine_ok d" "calm v False d"
    using e1 saveSession_effects [of "(tick_checkpoint now e)\<lparr>lastSessionSave := now\<rparr>"]
    by (auto simp: d_def tick_session_def)
  have stop: "engine_ok (tick_stop v now d)" using d engine_ok_shut by (simp add: tick_stop_def)
  have "engine_ok (shutdown v False (tick_stop v now d))"
  proof (cases "tick_stop v now d = d")
    case True
    then show ?thesis using engine_ok_shut [OF d] by simp
  next
    case False
    then have eq: "tick_stop v now d = shutdown v False d" by (auto simp: tick_stop_def)
    have "shuttingDown (shutdown v False d)"
      by (rule engine_ok_shutdown(2)) (use d in \<open>auto simp: engine_ok_def\<close>)
    then show ?thesis using stop by (simp add: eq shutdown_def [of v False "shutdown v False d"])
  qed
  then show ?thesis using stop by (simp add: tick_def tick_process_def d_def)
qed

section \<open>Pausing and resuming everything\<close>

lemma pause_other:
  assumes "u \<noteq> t"
  shows "u \<in> set (active (pause v t force e)) \<longleftrightarrow> u \<in> set (active e)"
  using stopTask_other(2) [OF assms, of v force Paused "set_resume (gid_of e t) False e"]
  by (simp add: pause_def Let_def split: task_state.splits)

lemma pause_retiring: "retiring (jobs (pause v t force e)) = retiring (jobs e)"
  by (simp add: pause_def Let_def split: task_state.splits)

lemma engine_ok_pause_each:
  assumes "engine_ok e" and "distinct ts" and "set ts \<subseteq> set (active e)" and "\<forall>t \<in> set ts. quiet e t"
  shows "engine_ok (fold (\<lambda>t. pause v t force) ts e)"
  using assms
proof (induction ts arbitrary: e)
  case (Cons t ts)
  have "t \<in> set (members [] e)" using Cons.prems(3) by (simp add: members_def)
  then have "engine_ok (pause v t force e)" using engine_ok_pause Cons.prems by simp
  moreover have "set ts \<subseteq> set (active (pause v t force e))"
  proof
    fix u assume u: "u \<in> set ts"
    then have "u \<noteq> t" using Cons.prems(2) by auto
    then show "u \<in> set (active (pause v t force e))" using pause_other Cons.prems(3) u by auto
  qed
  moreover have "\<forall>u \<in> set ts. quiet (pause v t force e) u"
    using Cons.prems(4) by (simp add: quiet_def pause_retiring)
  ultimately show ?case using Cons.IH [of "pause v t force e"] Cons.prems(2) by simp
qed simp

lemma engine_ok_pause_waiting:
  assumes "engine_ok e" and "set ts \<subseteq> set (waiting e)"
  shows "engine_ok (fold (\<lambda>t e. if state_of e t = Waiting then emit Pause t (set_state t Paused e) else e) ts e)"
  using assms
proof (induction ts arbitrary: e)
  case (Cons t ts)
  let ?e = "emit Pause t (set_state t Paused e)"
  note ok = engine_okE [OF Cons.prems(1)]
  have "engine_ok ?e" if w: "state_of e t = Waiting"
  proof -
    have t: "t \<in> set (waiting e)" using Cons.prems(2) by simp
    have "core_ok [] ?e" using flip_waiting [OF ok(1) t waiting_still [OF ok(1) t w]] by simp
    moreover have "wake_ok ?e" by (rule wake_same [OF ok(2)]) (auto split: if_splits)
    moreover have "down_ok ?e" by (rule down_same [OF ok(3)]) auto
    ultimately show ?thesis by (simp add: engine_ok_def)
  qed
  then show ?case using Cons by simp
qed simp

lemma resume_all_fields [simp]:
  "objs (resume_all b e) = objs e" "active (resume_all b e) = active e" "waiting (resume_all b e) = waiting e"
  "stopped (resume_all b e) = stopped e" "jobs (resume_all b e) = jobs e" "scheduled (resume_all b e) = scheduled e"
  "shuttingDown (resume_all b e) = shuttingDown e" "finished (resume_all b e) = finished e" "global (resume_all b e) = global e"
  "stops (resume_all b e) = stops e"
  by (simp_all add: resume_all_def)

lemma engine_ok_resume_all:
  assumes "engine_ok e"
  shows "engine_ok (resume_all b e)"
proof -
  note ok = engine_okE [OF assms]
  have "wake_ok (resume_all b e)" by (rule wake_same [OF ok(2)]) simp_all
  moreover have "down_ok (resume_all b e)" by (rule down_same [OF ok(3)]) simp_all
  ultimately show ?thesis using ok(1) by (simp add: engine_ok_def)
qed

lemma engine_ok_pauseAll:
  assumes "engine_ok e" and "\<forall>t \<in> set (active e). quiet e t"
  shows "engine_ok (pauseAll v force e)"
proof -
  let ?e = "fold (\<lambda>t. pause v t force) (active e) (resume_all False e)"
  have "distinct (active e)" using core_okE(1) [OF engine_okE(1) [OF assms(1)]] by (simp add: queues_ok_def members_def)
  then have "engine_ok ?e"
    by (intro engine_ok_pause_each) (use assms in \<open>simp_all add: engine_ok_resume_all quiet_def\<close>)
  from engine_ok_pause_waiting [OF this] show ?thesis by (simp add: pauseAll_def Let_def)
qed

lemma core_down_resume_each:
  assumes "core_ok [] e" and "down_ok e" and "set ts \<subseteq> set (waiting e)"
  shows "core_ok [] (fold (\<lambda>t e. if state_of e t = Paused \<and> map_of (moving e) (gid_of e t) = None then set_state t Waiting e else e) ts e) \<and>
         down_ok (fold (\<lambda>t e. if state_of e t = Paused \<and> map_of (moving e) (gid_of e t) = None then set_state t Waiting e else e) ts e)"
  using assms
proof (induction ts arbitrary: e)
  case (Cons t ts)
  have "core_ok [] (set_state t Waiting e)" if "map_of (moving e) (gid_of e t) = None"
    by (rule flip_waiting [OF Cons.prems(1)]) (use Cons.prems(3) that in \<open>simp_all add: still_def\<close>)
  moreover have "down_ok (set_state t Waiting e)" by (rule down_same [OF Cons.prems(2)]) auto
  ultimately show ?case using Cons.IH [of "set_state t Waiting e"] Cons.IH [of e] Cons.prems by simp
qed simp

lemma engine_ok_unpauseAll:
  assumes "engine_ok e"
  shows "engine_ok (unpauseAll e)"
proof -
  let ?e = "resume_all True e"
  let ?f = "fold (\<lambda>t e. if state_of e t = Paused \<and> map_of (moving e) (gid_of e t) = None then set_state t Waiting e else e)
    (waiting ?e) ?e"
  note ok = engine_okE [OF engine_ok_resume_all [OF assms, of True]]
  have f: "core_ok [] ?f" "down_ok ?f" using core_down_resume_each [OF ok(1,3)] by simp_all
  have "down_ok (schedule ?f)" by (rule down_same [OF f(2)]) simp_all
  then show ?thesis using f(1) by (simp add: unpauseAll_def Let_def engine_ok_def wake_scheduled)
qed

section \<open>Changed settings\<close>

lemma schedule_idem [simp]: "schedule (schedule e) = schedule e"
  by (simp add: schedule_def)

lemma schedule_names:
  "fold (\<lambda>name e. if name = m then schedule e else e) names e = (if m \<in> set names then schedule e else e)"
  by (induction names arbitrary: e) auto

text \<open>The parts that only tell others about the change.\<close>

definition only_told :: "engine \<Rightarrow> engine \<Rightarrow> bool" where
  "only_told e e' \<longleftrightarrow> (\<exists>x. e' = e\<lparr>effects := x\<rparr>)"

lemma only_told_refl: "only_told e e"
proof -
  have "e = e\<lparr>effects := effects e\<rparr>" by simp
  then show ?thesis unfolding only_told_def by blast
qed

lemma only_told_tell: "only_told e e' \<Longrightarrow> only_told e (tell x e')"
  by (auto simp: only_told_def tell_def)

lemma only_told_fold:
  assumes "only_told e e'" and "\<And>x d. x \<in> set xs \<Longrightarrow> only_told e d \<Longrightarrow> only_told e (f x d)"
  shows "only_told e (fold f xs e')"
  using assms by (induction xs arbitrary: e') auto

lemma engine_ok_only_told: "only_told e e' \<Longrightarrow> engine_ok e \<Longrightarrow> engine_ok e'"
  by (auto simp: only_told_def)

lemma globalOptionsChanged_told:
  "only_told (if ''max-concurrent-downloads'' \<in> set names then schedule e else e) (globalOptionsChanged live own names e)"
    (is "only_told ?e _")
proof -
  have 1: "only_told ?e (fold (\<lambda>t e. if own t name then e else tell (OptionChanged t name) e) (active d) d)" if "only_told ?e d" for d name
    by (rule only_told_fold [OF that]) (simp add: only_told_tell)
  have 2: "only_told ?e (fold (\<lambda>name e. if live name
      then fold (\<lambda>t e. if own t name then e else tell (OptionChanged t name) e) (active e) e else e) names ?e)"
    by (rule only_told_fold [OF only_told_refl]) (use 1 in \<open>simp del: tell_def\<close>)
  then show ?thesis by (simp add: globalOptionsChanged_def Let_def schedule_names only_told_tell)
qed

lemma engine_ok_settings:
  assumes "engine_ok e" and s: "max_concurrent s = max_concurrent (global e) \<or> ''max-concurrent-downloads'' \<in> set names"
  shows "engine_ok (globalOptionsChanged live own names (e\<lparr>global := s\<rparr>))"
proof -
  note ok = engine_okE [OF assms(1)]
  let ?e = "if ''max-concurrent-downloads'' \<in> set names then schedule (e\<lparr>global := s\<rparr>) else e\<lparr>global := s\<rparr>"
  have core: "core_ok [] ?e" using ok(1) by simp
  have down: "down_ok ?e" by (rule down_same [OF ok(3)]) auto
  have "wake_ok ?e"
  proof (cases "''max-concurrent-downloads'' \<in> set names")
    case False
    then show ?thesis
      using s by (intro wake_mono [OF ok(2)]) (auto simp: slots_def activeCount_def queued_def)
  qed (simp add: wake_scheduled)
  then have "engine_ok ?e" using core down by (simp add: engine_ok_def)
  then show ?thesis by (rule engine_ok_only_told [OF globalOptionsChanged_told])
qed

section \<open>The transition system\<close>

inductive engine_step :: "engine \<Rightarrow> engine \<Rightarrow> bool" where
  object: "t \<notin> set (members [] e) \<Longrightarrow> engine_step e (on_task t f e)"
| add: "fresh e t \<Longrightarrow> engine_step e (add t p e)"
| pause: "t \<in> set (members [] e) \<Longrightarrow> quiet e t \<Longrightarrow> engine_step e (pause v t force e)"
| unpause: "t \<in> set (members [] e) \<Longrightarrow> engine_step e (unpause t e)"
| remove: "t \<in> set (members [] e) \<Longrightarrow> quiet e t \<Longrightarrow> patient v force e t \<Longrightarrow> remove v t force e = Inr e' \<Longrightarrow> engine_step e e'"
| pauseAll: "\<forall>t \<in> set (active e). quiet e t \<Longrightarrow> engine_step e (pauseAll v force e)"
| unpauseAll: "engine_step e (unpauseAll e)"
| relocate: "t \<in> set (members [] e) \<Longrightarrow> quiet e t \<Longrightarrow> relocate v t dir e = Inr e' \<Longrightarrow> engine_step e e'"
| disk_answer: "t \<in> fst ` set (disk_work e) \<Longrightarrow> engine_step e (disk_answer t error e)"
| move_task: "move_task t offset how e = Inr (n, e') \<Longrightarrow> engine_step e e'"
| removeResult: "engine_step e (snd (removeResult g e))"
| purgeResults: "engine_step e (purgeResults e)"
| requeue: "requeue t e = Inr e' \<Longrightarrow> engine_step e e'"
| handOver: "(t \<in> set (active e) \<longrightarrow> \<not> t_stopping (objs e t) \<and> quiet e t) \<Longrightarrow> n \<notin> set (members [] e) \<Longrightarrow>
    \<not> t_stopping (objs e n) \<Longrightarrow> (t_counts (objs e t) \<longrightarrow> t_counts (objs e n)) \<Longrightarrow> engine_step e (handOver v t n e)"
| complete: "t \<in> set (active e) \<Longrightarrow> \<not> t_stopping (objs e t) \<Longrightarrow> quiet e t \<Longrightarrow>
    all_fresh (tell (Checkpointed t) (on_task t (\<lambda>k. k\<lparr>t_errorCode := finished_code, t_errorMessage := []\<rparr>) e)) fs \<Longrightarrow>
    engine_step e (complete fs t e)"
| failed: "t \<in> set (active e) \<Longrightarrow> \<not> t_stopping (objs e t) \<Longrightarrow> quiet e t \<Longrightarrow> engine_step e (failed c m t e)"
| stop_answer: "(t, n) \<in> set (stops e) \<Longrightarrow>
    engine_step e (stop_done v t n (e\<lparr>stops := filter (\<lambda>p. fst p \<noteq> t) (stops e)\<rparr>))"
| job: "jobs e = j # js \<Longrightarrow> engine_step e (run_job v j (e\<lparr>jobs := js\<rparr>))"
| tick: "calm v False e \<Longrightarrow> engine_step e (tick v alive now e)"
| run: "calm v False e \<Longrightarrow> engine_step e (engine_run v alive now e)"
| shutdown: "calm v force e \<Longrightarrow> engine_step e (shutdown v force e)"
| settings: "max_concurrent s = max_concurrent (global e) \<or> ''max-concurrent-downloads'' \<in> set names \<Longrightarrow>
    engine_step e (globalOptionsChanged live own names (e\<lparr>global := s\<rparr>))"
| subsystems: "d \<in> {engine_disk, engine_http, engine_bt, engine_ed2k} \<Longrightarrow> engine_step e (d e)"
| counts: "engine_step e (on_task t (\<lambda>k. k\<lparr>t_counts := True\<rparr>) e)"

definition engine_init :: "engine \<Rightarrow> bool" where
  "engine_init e \<longleftrightarrow> (\<exists>objects options now. e = new_engine objects options now)"

lemma engine_ok_init: "engine_init e \<Longrightarrow> engine_ok e"
  by (auto simp: engine_init_def new_engine_def engine_ok_def core_defs wake_ok_def down_ok_def queued_def members_def
      keys_ascend_def retiring_def)

lemma engine_ok_stranger:
  assumes "engine_ok e" and "t \<notin> set (members [] e)"
  shows "engine_ok (on_task t f e)"
proof -
  note ok = engine_okE [OF assms(1)]
  have "\<And>u. u \<in> set (active e) \<or> u \<in> set (waiting e) \<Longrightarrow> u \<noteq> t" using assms(2) by (auto simp: members_def)
  then have "activeCount (on_task t f e) = activeCount e" "queued (on_task t f e) = queued e"
    by (auto simp: activeCount_def queued_def intro!: arg_cong [where f = length] filter_cong)
  then have "wake_ok (on_task t f e)" by (intro wake_mono [OF ok(2)]) (simp_all add: slots_def)
  moreover have "down_ok (on_task t f e)"
    by (rule down_same [OF ok(3)]) (use assms(2) in \<open>auto simp: members_def\<close>)
  ultimately show ?thesis using core_ok_stranger [OF ok(1) assms(2)] by (simp add: engine_ok_def)
qed

lemma engine_ok_counts:
  assumes "engine_ok e"
  shows "engine_ok (on_task t (\<lambda>k. k\<lparr>t_counts := True\<rparr>) e)"
proof -
  note ok = engine_okE [OF assms(1)]
  let ?e = "on_task t (\<lambda>k. k\<lparr>t_counts := True\<rparr>) e"
  have "length (filter (\<lambda>u. t_counts (objs e u)) xs) \<le> length (filter (\<lambda>u. t_counts (objs ?e u)) xs)" for xs
    by (induction xs) auto
  then have "activeCount e \<le> activeCount ?e" by (simp add: activeCount_def)
  moreover have "queued ?e \<Longrightarrow> queued e" by (auto simp: queued_def split: if_splits)
  ultimately have "wake_ok ?e" by (intro wake_mono [OF ok(2)]) (simp_all add: slots_def)
  moreover have "down_ok ?e" by (rule down_same [OF ok(3)]) auto
  ultimately show ?thesis using ok(1) by (simp add: engine_ok_def core_ok_on_task)
qed

lemma engine_ok_subsystems:
  assumes "engine_ok e" and "d \<in> {engine_disk, engine_http, engine_bt, engine_ed2k}"
  shows "engine_ok (d e)"
  using assms by (auto simp: engine_ok_def engine_disk_def engine_http_def engine_bt_def engine_ed2k_def wake_ok_def
      down_ok_def slots_def activeCount_def queued_def)

lemma engine_ok_run:
  assumes "engine_ok e" and "calm v False e"
  shows "engine_ok (engine_run v alive now e)"
proof -
  note ok = engine_okE [OF engine_ok_tick [OF assms, of alive now]]
  have "down_ok (schedule (tick v alive now e))" by (rule down_same [OF ok(3)]) simp_all
  then show ?thesis using ok(1) by (simp add: engine_run_def engine_ok_def wake_scheduled)
qed

lemma engine_ok_step:
  assumes "engine_ok e" and "engine_step e e'"
  shows "engine_ok e'"
  using assms(2,1) by (induction rule: engine_step.induct) 
    (blast intro: engine_ok_stranger, blast intro: engine_ok_add, blast intro: engine_ok_pause, blast intro: engine_ok_unpause,
      blast intro: engine_ok_remove, blast intro: engine_ok_pauseAll, blast intro: engine_ok_unpauseAll, blast intro: engine_ok_relocate,
      blast intro: engine_ok_disk_answer, blast intro: engine_ok_move_task, blast intro: engine_ok_removeResult, blast intro: engine_ok_purge,
      blast intro: engine_ok_requeue, blast intro: engine_ok_handOver, blast intro: engine_ok_complete, blast intro: engine_ok_failed,
      blast intro: engine_ok_stop_answer, blast intro: engine_ok_run_job, blast intro: engine_ok_tick, blast intro: engine_ok_run,
      blast intro: engine_ok_shut, blast intro: engine_ok_settings, blast intro: engine_ok_subsystems, blast intro: engine_ok_counts)

interpretation eng: transition_system engine_init engine_step engine_ok
  by unfold_locales (fact engine_ok_init, fact engine_ok_step)

abbreviation engine_reachable :: "engine \<Rightarrow> bool" where
  "engine_reachable e \<equiv> \<exists>i. engine_init i \<and> engine_step\<^sup>*\<^sup>* i e"

lemma engine_reachable_ok: "engine_reachable e \<Longrightarrow> engine_ok e"
  using eng.always_ok by blast

section \<open>An example run\<close>

text \<open>Two downloads and one slot: the first starts, the second waits; the first is then asked to pause.\<close>

definition demo_settings :: settings where
  "demo_settings =
     \<lparr>max_concurrent = 1, enable_rpc = True, max_result = 1000, keep_unfinished = True, state_interval = 10,
      session_interval = 0, stop_after = 0, stop_process = 0, save_session = ''session''\<rparr>"

definition demo_virtual :: virtual where
  "demo_virtual = \<lparr>v_start = (\<lambda>_. Started), v_stop = (\<lambda>_ _. Done_later), v_relocation = (\<lambda>_ _. Some [])\<rparr>"

definition demo_added :: engine where
  "demo_added = add 1 None (add 0 None (engine_disk
     (new_engine (\<lambda>t. new_task (word_of_nat (t + 1)) False ''/downloads'') demo_settings 0)))"

definition demo_running :: engine where
  "demo_running = run_job demo_virtual Fill (demo_added\<lparr>jobs := []\<rparr>)"

definition demo_stopping :: engine where
  "demo_stopping = shutdown demo_virtual False demo_running"

definition demo_moving :: engine where
  "demo_moving = projr (relocate demo_virtual 1 ''/elsewhere'' demo_running)"

lemmas demo_defs = demo_settings_def demo_virtual_def new_engine_def new_task_def add_def on_task_def tell_def emit_def
  schedule_def fill_def startTask_def run_start_def shutdown_def stopTask_def activeCount_def queued_def size_t_of_def
  engine_disk_def relocate_def moveFilesOf_def Let_def

lemma demo_added: "jobs demo_added = [Fill]" "waiting demo_added = [0, 1]" "active demo_added = []" "stopped demo_added = []"
  by (simp_all add: demo_added_def demo_defs)

lemma demo_running:
  "active demo_running = [0]" "waiting demo_running = [1]" "stopped demo_running = []" "jobs demo_running = []"
  "stops demo_running = []" "tasks demo_running = [(1, 0), (2, 1)]" "\<not> shuttingDown demo_running"
  "t_state (objs demo_running 1) = Waiting" "moving demo_running = []" "has_disk demo_running" "t_gid (objs demo_running 1) = 2"
  "\<not> finished demo_running"
  by (simp_all add: demo_running_def demo_added_def demo_defs)

lemma demo_added_reachable: "engine_reachable demo_added"
proof -
  let ?i = "new_engine (\<lambda>t. new_task (word_of_nat (t + 1)) False ''/downloads'') demo_settings 0"
  have "engine_init ?i" unfolding engine_init_def by blast
  moreover have "engine_step ?i (engine_disk ?i)" by (rule engine_step.subsystems) simp
  moreover have "engine_step (engine_disk ?i) (add 0 None (engine_disk ?i))"
    by (rule engine_step.add) (simp add: fresh_def members_def demo_defs)
  moreover have "engine_step (add 0 None (engine_disk ?i)) demo_added"
    unfolding demo_added_def by (rule engine_step.add) (simp add: fresh_def members_def demo_defs)
  ultimately show ?thesis by (meson rtranclp.rtrancl_refl rtranclp.rtrancl_into_rtrancl)
qed

lemma engine_reachable_step: "engine_reachable e \<Longrightarrow> engine_step e e' \<Longrightarrow> engine_reachable e'"
  by (meson rtranclp.rtrancl_into_rtrancl)

lemma demo_running_reachable: "engine_reachable demo_running"
  unfolding demo_running_def
  by (rule engine_reachable_step [OF demo_added_reachable engine_step.job]) (simp add: demo_added)

lemma demo_stopping:
  "active demo_stopping = [0]" "shuttingDown demo_stopping" "\<not> finished demo_stopping" "stops demo_stopping = [(0, Waiting)]"
  by (simp_all add: demo_stopping_def demo_running_def demo_added_def demo_defs)

lemma demo_stopping_reachable: "engine_reachable demo_stopping"
  unfolding demo_stopping_def
  by (rule engine_reachable_step [OF demo_running_reachable engine_step.shutdown])
    (simp add: calm_def quiet_def demo_running)

lemma demo_moving: "relocate demo_virtual 1 ''/elsewhere'' demo_running = Inr demo_moving"
  "fst ` set (disk_work demo_moving) = {1}"
  by (simp_all add: demo_moving_def demo_running_def demo_added_def demo_defs)

lemma demo_moving_reachable: "engine_reachable demo_moving"
  by (rule engine_reachable_step [OF demo_running_reachable engine_step.relocate [OF _ _ demo_moving(1)]])
    (simp_all add: quiet_def demo_running members_def)

end
