(* ===== verification/Engine_Claims.thy ===== *)
theory Engine_Claims
  imports Engine_Run
begin

text \<open>
  What the engine promises: consistent queues, no forgotten task, a shutdown that ends, moves that
  nothing disturbs, starting in order, the limit on results and finding by prefix. The last section
  shows what happens without the conditions on the steps.
\<close>

section \<open>Queues\<close>





text \<open>
  C7. A shutdown never gets stuck: until it has finished, the handler that finishes it is pending, or
  every task that still runs has been asked to stop; each answer leaves one running task less, and the
  answer of the last one, like that handler, finishes the shutdown.
\<close>

theorem shutdown_not_stuck:
  assumes "engine_reachable e" and "shuttingDown e" and "\<not> finished e"
  shows "(FinishShutdown \<in> set (jobs e) \<or> active e \<noteq> [] \<and> (\<forall>t \<in> set (active e). \<exists>n. (t, n) \<in> set (stops e))) \<and>
    (\<forall>v t n. (t, n) \<in> set (stops e) \<longrightarrow>
      (let e' = stop_done v t n (e\<lparr>stops := filter (\<lambda>p. fst p \<noteq> t) (stops e)\<rparr>)
       in Suc (length (active e')) = length (active e) \<and> (active e' = [] \<longrightarrow> finished e'))) \<and>
    (\<forall>v. finished (run_job v FinishShutdown e))"
proof -
  note ok = engine_okE [OF engine_reachable_ok [OF assms(1)]]
  have pending: "\<exists>n. (t, n) \<in> set (stops e)" if "t \<in> set (active e)" "t_stopping (objs e t)" for t
  proof -
    have "t \<in> fst ` set (stops e)" using core_okE(3) [OF ok(1)] that by (simp add: stops_ok_def members_def)
    then show ?thesis by auto
  qed
  have "FinishShutdown \<in> set (jobs e) \<or> active e \<noteq> [] \<and> (\<forall>t \<in> set (active e). \<exists>n. (t, n) \<in> set (stops e))"
    using ok(3) assms(2,3) pending unfolding down_ok_def by blast
  moreover have "Suc (length (removeAll t (active e))) = length (active e)" if "(t, n) \<in> set (stops e)" for t n
  proof -
    have "fst ` set (stops e) \<subseteq> set (active e)" using core_okE(3) [OF ok(1)] by (simp add: stops_ok_def)
    then have "t \<in> set (active e)" using that by (auto dest: image_eqI [of t fst "(t, n)", OF fst_conv [symmetric]])
    moreover have "distinct (active e)" using core_okE(1) [OF ok(1)] by (simp add: queues_ok_def members_def)
    moreover have "0 < length (active e)" using \<open>t \<in> set (active e)\<close> by (rule length_pos_if_in_set)
    ultimately show ?thesis by (simp add: distinct_remove1_removeAll [symmetric] length_remove1 length_pos_if_in_set Suc_diff_1)
  qed
  ultimately show ?thesis using assms(2) by (simp add: Let_def stop_done_finished)
qed

theorem shutdown_not_stuck_witness:
  "shuttingDown demo_stopping \<and> \<not> finished demo_stopping \<and> (0, Waiting) \<in> set (stops demo_stopping) \<and>
   finished (stop_done demo_virtual 0 Waiting (demo_stopping\<lparr>stops := []\<rparr>))"
  using shutdown_not_stuck [OF demo_stopping_reachable demo_stopping(2,3)] by (simp add: demo_stopping Let_def)



section \<open>Starting in order\<close>

lemma fill_loop_order:
  assumes "waiting e = gone @ rest" and "distinct (gone @ rest)" and "\<forall>t \<in> set rest. t_counts (objs e t)"
  shows "active (fill_loop v limit gone rest e) =
           active e @ take (limit - activeCount e) (filter (\<lambda>t. state_of e t = Waiting) rest) \<and>
         waiting (fill_loop v limit gone rest e) =
           gone @ filter (\<lambda>t. t \<notin> set (take (limit - activeCount e) (filter (\<lambda>t. state_of e t = Waiting) rest))) rest"
  using assms
proof (induction v limit gone rest e rule: fill_loop.induct)
  case (2 v limit gone t rest e)
  have out: "t \<notin> set rest" using 2(4) by simp
  show ?case
  proof (cases "activeCount e \<ge> limit")
    case True
    then show ?thesis using 2(3) by simp
  next
    case room: False
    show ?thesis
    proof (cases "state_of e t = Waiting")
      case True
      let ?e = "startTask v t (e\<lparr>waiting := gone @ rest\<rparr>)"
      have count: "activeCount ?e = Suc (activeCount e)" using 2(5) by (simp add: activeCount_def)
      have same: "filter (\<lambda>u. state_of ?e u = Waiting) rest = filter (\<lambda>u. state_of e u = Waiting) rest"
        using out by (intro filter_cong) auto
      have ih: "active (fill_loop v limit gone rest ?e) =
           active ?e @ take (limit - activeCount ?e) (filter (\<lambda>u. state_of ?e u = Waiting) rest) \<and>
         waiting (fill_loop v limit gone rest ?e) =
           gone @ filter (\<lambda>u. u \<notin> set (take (limit - activeCount ?e) (filter (\<lambda>u. state_of ?e u = Waiting) rest))) rest"
        by (rule 2(2)) (use room True 2(4,5) in auto)
      have tk: "take (limit - activeCount e) (filter (\<lambda>u. state_of e u = Waiting) (t # rest))
          = t # take (limit - activeCount ?e) (filter (\<lambda>u. state_of ?e u = Waiting) rest)"
        using True room unfolding count same by (simp add: take_Suc_conv_app_nth take_Cons')
      have flt: "filter (\<lambda>u. u \<notin> set (t # xs)) (t # rest) = filter (\<lambda>u. u \<notin> set xs) rest" for xs
        using out by (auto intro: filter_cong)
      show ?thesis unfolding tk flt using ih room True by simp
    next
      case False
      have ih: "active (fill_loop v limit (gone @ [t]) rest e) =
           active e @ take (limit - activeCount e) (filter (\<lambda>u. state_of e u = Waiting) rest) \<and>
         waiting (fill_loop v limit (gone @ [t]) rest e) =
           (gone @ [t]) @ filter (\<lambda>u. u \<notin> set (take (limit - activeCount e) (filter (\<lambda>u. state_of e u = Waiting) rest))) rest"
        by (rule 2(1)) (use room False 2(3-5) in auto)
      have "t \<notin> set (take (limit - activeCount e) (filter (\<lambda>u. state_of e u = Waiting) rest))"
        using out by (auto dest: in_set_takeD)
      then show ?thesis using ih room False by simp
    qed
  qed
qed simp



section \<open>The limit on results\<close>

lemma trim_results_spec:
  assumes "trim_results limit keeps n ts = (kept, gone)" and "n = k + length ts"
  shows "(\<forall>t \<in> set gone. \<not> keeps t) \<and> (k + length kept \<le> limit \<or> (\<forall>t \<in> set kept. keeps t)) \<and>
    min limit n \<le> k + length kept"
  using assms
proof (induction limit keeps n ts arbitrary: k kept gone rule: trim_results.induct)
  case (2 limit keeps n t ts)
  show ?case
  proof (cases "n \<le> limit")
    case True
    then show ?thesis using 2(3,4) by auto
  next
    case big: False
    show ?thesis
    proof (cases "keeps t")
      case True
      obtain a b where r: "trim_results limit keeps n ts = (a, b)" by fastforce
      then have "(\<forall>t \<in> set b. \<not> keeps t) \<and> (Suc k + length a \<le> limit \<or> (\<forall>t \<in> set a. keeps t)) \<and> min limit n \<le> Suc k + length a"
        by (intro 2(1) [OF big True r]) (use 2(4) in simp)
      then show ?thesis using 2(3) big True r by auto
    next
      case False
      obtain a b where r: "trim_results limit keeps (n - 1) ts = (a, b)" by fastforce
      then have "(\<forall>t \<in> set b. \<not> keeps t) \<and> (k + length a \<le> limit \<or> (\<forall>t \<in> set a. keeps t)) \<and> min limit (n - 1) \<le> k + length a"
        by (intro 2(2) [OF big False r]) (use 2(4) in simp)
      then show ?thesis using 2(3) big False r by auto
    qed
  qed
qed simp

lemma trim_results_newest:
  assumes "trim_results limit (\<lambda>_. False) (length ts) ts = (kept, gone)"
  shows "kept = drop (length ts - limit) ts"
  using assms
proof (induction ts arbitrary: kept gone)
  case (Cons t ts)
  show ?case
  proof (cases "length (t # ts) \<le> limit")
    case False
    obtain a b where "trim_results limit (\<lambda>_. False) (length ts) ts = (a, b)" by fastforce
    then show ?thesis using Cons False by (simp add: Suc_diff_le)
  qed (use Cons in auto)
qed simp

text \<open>
  A retired task's result is the newest one. Without \<open>keep-unfinished-download-result\<close> exactly the
  newest \<open>max-download-result\<close> results stay; with it only completed results are dropped, oldest first,
  until the limit holds or no completed one is left; and never more are dropped than the limit asks.
\<close>

theorem results_limit:
  assumes "distinct (stopped e @ [t])"
  shows "let limit = size_t_of (max_result (global e)); all = stopped e @ [t]; e' = retire t s e
    in stopped e' = filter (\<lambda>u. u \<in> set (stopped e')) all \<and>
       min limit (length all) \<le> length (stopped e') \<and>
       (\<not> keep_unfinished (global e) \<longrightarrow> stopped e' = drop (length all - limit) all) \<and>
       (keep_unfinished (global e) \<longrightarrow>
          (\<forall>u \<in> set all - set (stopped e'). state_of e' u = Complete) \<and>
          (length (stopped e') \<le> limit \<or> (\<forall>u \<in> set (stopped e'). state_of e' u \<noteq> Complete)))"
proof -
  obtain kept gone where r: "results_after t s e = (kept, gone)" by fastforce
  note r' = r [unfolded results_after_def]
  note flt = trim_results_filter [OF r' assms]
  have spec: "(\<forall>u \<in> set gone. \<not> (keep_unfinished (global e) \<and> t_state (((objs e)(t := (objs e t)\<lparr>t_state := s\<rparr>)) u) \<noteq> Complete)) \<and>
      (0 + length kept \<le> size_t_of (max_result (global e)) \<or>
       (\<forall>u \<in> set kept. keep_unfinished (global e) \<and> t_state (((objs e)(t := (objs e t)\<lparr>t_state := s\<rparr>)) u) \<noteq> Complete)) \<and>
      min (size_t_of (max_result (global e))) (Suc (length (stopped e))) \<le> 0 + length kept"
    by (rule trim_results_spec [OF r']) simp
  have kept: "stopped (retire t s e) = kept" by (simp add: r)
  have sub: "kept = filter (\<lambda>u. u \<in> set kept) (stopped e @ [t])"
    using flt(1) by (metis (mono_tags, lifting) filter_cong mem_Collect_eq set_filter)
  have newest: "kept = drop (length (stopped e @ [t]) - size_t_of (max_result (global e))) (stopped e @ [t])"
    if "\<not> keep_unfinished (global e)"
    using trim_results_newest [of "size_t_of (max_result (global e))" "stopped e @ [t]" kept gone] r' that by simp
  have gone: "u \<in> set gone" if "u \<in> set (stopped e @ [t]) - set kept" for u
    using that unfolding flt(1) set_filter by blast
  have st: "state_of (retire t s e) u = t_state (((objs e)(t := (objs e t)\<lparr>t_state := s\<rparr>)) u)" for u by simp
  show ?thesis
    unfolding Let_def kept st using sub newest gone spec by (auto simp del: filter_append fun_upd_apply)
qed


section \<open>Finding by prefix\<close>

abbreviation prefix_of :: "string \<Rightarrow> gid \<Rightarrow> bool" where
  "prefix_of text g \<equiv> take (length text) (gidText g) = text"

lemma find_prefix_found: "find_prefix text ts (Some x) = (if \<exists>(g, t) \<in> set ts. prefix_of text g then None else Some x)"
  by (induction ts) auto

lemma find_prefix_unique:
  assumes "keys_ascend ts"
  shows "find_prefix text ts None = Some t \<longleftrightarrow>
    (\<exists>g. (g, t) \<in> set ts \<and> prefix_of text g \<and> (\<forall>(h, u) \<in> set ts. prefix_of text h \<longrightarrow> h = g))"
  using assms
proof (induction ts)
  case (Cons p ts)
  obtain g u where p: "p = (g, u)" by fastforce
  have ks: "keys_ascend ts" and new: "\<forall>(h, w) \<in> set ts. h \<noteq> g"
    using Cons(2) by (auto simp: keys_ascend_def p)
  show ?case
  proof (cases "prefix_of text g")
    case True
    then show ?thesis using new by (auto simp: p find_prefix_found split: if_splits)
  next
    case False
    then show ?thesis using Cons.IH [OF ks] by (auto simp: p)
  qed
qed simp

lemma task_entries:
  assumes core: "core_ok [] e"
  shows "map_of (tasks e) g = Some u \<longleftrightarrow> u \<in> set (members [] e) \<and> gid_of e u = g"
    and "(g, u) \<in> set (tasks e) \<longleftrightarrow> u \<in> set (members [] e) \<and> gid_of e u = g"
proof -
  show table: "map_of (tasks e) g = Some u \<longleftrightarrow> u \<in> set (members [] e) \<and> gid_of e u = g" for g u
    using core_okE(2) [OF core] by (simp add: table_ok_def)
  show "(g, u) \<in> set (tasks e) \<longleftrightarrow> u \<in> set (members [] e) \<and> gid_of e u = g"
    using map_of_in_set [OF keys_tasks [OF core]] table by metis
qed

lemma find_prefix_members:
  assumes core: "core_ok [] e"
  shows "find_prefix text (tasks e) None = Some t \<longleftrightarrow>
      t \<in> set (members [] e) \<and> prefix_of text (gid_of e t) \<and> (\<forall>u \<in> set (members [] e). prefix_of text (gid_of e u) \<longrightarrow> u = t)"
    (is "?found \<longleftrightarrow> ?unique")
proof
  assume ?found
  then obtain g where g: "(g, t) \<in> set (tasks e)" "prefix_of text g"
    and one: "\<forall>(h, u) \<in> set (tasks e). prefix_of text h \<longrightarrow> h = g" unfolding find_prefix_unique [OF keys_tasks [OF core]] by blast
  have t: "t \<in> set (members [] e)" "gid_of e t = g" using task_entries(2) [OF core] g(1) by auto
  have "u = t" if u: "u \<in> set (members [] e)" "prefix_of text (gid_of e u)" for u
  proof -
    have "(gid_of e u, u) \<in> set (tasks e)" using task_entries(2) [OF core] u(1) by simp
    then have "gid_of e u = gid_of e t" using one u(2) t(2) by blast
    then show ?thesis using same_gid [OF core u(1) t(1)] by simp
  qed
  then show ?unique using t g(2) by blast
next
  assume u: ?unique
  have "(gid_of e t, t) \<in> set (tasks e)" using task_entries(2) [OF core] u by simp
  moreover have "h = gid_of e t" if "(h, u) \<in> set (tasks e)" "prefix_of text h" for h u
    using task_entries(2) [OF core] that u by auto
  ultimately show ?found unfolding find_prefix_unique [OF keys_tasks [OF core]] using u by blast
qed

text \<open>
  \<open>find\<close> with a text returns a task exactly when the text is the full identifier of that task, or
  when it is no full identifier, consists of 1 to 16 hexadecimal digits and the printed identifier of
  that task alone begins with it.
\<close>

theorem find_text_unique:
  assumes "engine_reachable e"
  shows "find_text e text = Some t \<longleftrightarrow>
    t \<in> set (members [] e) \<and>
    (case parseGid text of
       Some g \<Rightarrow> gid_of e t = g
     | None \<Rightarrow> text \<noteq> [] \<and> length text \<le> 16 \<and> set text \<subseteq> set ''0123456789abcdefABCDEF'' \<and>
         prefix_of text (gid_of e t) \<and> (\<forall>u \<in> set (members [] e). prefix_of text (gid_of e u) \<longrightarrow> u = t))"
proof -
  have core: "core_ok [] e" using engine_okE(1) [OF engine_reachable_ok [OF assms]] .
  define D where "D = set ''0123456789abcdefABCDEF''"
  have digits: "(\<exists>c \<in> set text. c \<notin> D) \<longleftrightarrow> \<not> set text \<subseteq> D" by blast
  show ?thesis
  proof (cases "parseGid text")
    case (Some g)
    then show ?thesis by (simp add: find_text_def find_gid_def task_entries(1) [OF core])
  next
    case None
    show ?thesis
    proof (cases "text = [] \<or> 16 < length text \<or> \<not> set text \<subseteq> D")
      case True
      then show ?thesis unfolding find_text_def D_def [symmetric] digits by (auto simp only: None option.case if_True not_less)
    next
      case False
      then have eq: "find_text e text = find_prefix text (tasks e) None"
        unfolding find_text_def D_def [symmetric] digits by (simp only: None option.case if_False)
      have shape: "text \<noteq> []" "length text \<le> 16" "set text \<subseteq> D" using False by auto
      show ?thesis unfolding D_def [symmetric] eq find_prefix_members [OF core] None option.case by (simp only: shape simp_thms)
    qed
  qed
qed


section \<open>Without the conditions\<close>

text \<open>A pause that arrives between \<open>complete()\<close> and the handler that files the result, for a task that
  stops at once: the task ends up waiting and stopped.\<close>

lemma stop_done_paused:
  "waiting (stop_done v t Paused e) = t # waiting e" "stopped (stop_done v t Paused e) = stopped e"
  "jobs (stop_done v t Paused e) = jobs (schedule e)"
  by (auto simp: stop_done_def stop_leave_back Let_def schedule_def)

lemma stop_done_removed:
  "waiting (stop_done v t Removed e) = waiting e"
  "stopped (stop_done v t Removed e) = fst (results_after t Removed
     (on_task t (\<lambda>k. k\<lparr>t_stopping := False, t_errorCode := removed_code, t_errorMessage := ''Removed''\<rparr>)
       ((tell (Checkpointed t) e)\<lparr>active := removeAll t (active e)\<rparr>)))"
  by (auto simp: stop_done_def stop_leave_out Let_def)

lemma results_below_limit:
  assumes "Suc (length (stopped e)) \<le> size_t_of (max_result (global e))"
  shows "fst (results_after t s e) = stopped e @ [t]"
  using assms by (cases "stopped e") (simp_all add: results_after_def)

lemma demo_running_task:
  "t_state (objs demo_running 0) = Active" "\<not> t_stopping (objs demo_running 0)" "\<not> scheduled demo_running"
  "size_t_of (max_result (global demo_running)) = 1000"
  by (simp_all add: demo_running_def demo_added_def demo_defs)

lemma pause_after_outcome_duplicates:
  "let v = demo_virtual\<lparr>v_stop := (\<lambda>_ _. Done_now)\<rparr>;
       e = pause v 0 False (complete [] 0 demo_running);
       e' = run_job v (Retire 0 Complete) (e\<lparr>jobs := tl (jobs e)\<rparr>)
   in hd (jobs e) = Retire 0 Complete \<and> 0 \<in> set (waiting e') \<and> 0 \<in> set (stopped e')"
proof -
  define c where "c = on_task 0 (\<lambda>k. k\<lparr>t_stopping := True\<rparr>) (complete [] 0 demo_running)"
  have c: "stopped c = []" "hd (jobs (schedule c)) = Retire 0 Complete" "size_t_of (max_result (global c)) = 1000"
    by (simp_all add: c_def complete_def taskCompleted_def demo_running demo_running_task schedule_def)
  have p: "pause (demo_virtual\<lparr>v_stop := (\<lambda>_ _. Done_now)\<rparr>) 0 False (complete [] 0 demo_running)
      = stop_done (demo_virtual\<lparr>v_stop := (\<lambda>_ _. Done_now)\<rparr>) 0 Paused c"
    by (simp add: pause_def set_resume_def stopTask_def c_def complete_def taskCompleted_def demo_running demo_running_task)
  show ?thesis using c by (simp add: p Let_def stop_done_paused results_below_limit)
qed

text \<open>A stop that is answered twice, first by the callback of a pause and then by that of a forced
  removal: again two queues.\<close>

lemma two_callbacks_duplicate:
  "let e = projr (remove demo_virtual 0 True (pause demo_virtual 0 False demo_running));
       e' = stop_done demo_virtual 0 Removed (stop_done demo_virtual 0 Paused (e\<lparr>stops := []\<rparr>))
   in stops e = [(0, Paused), (0, Removed)] \<and> 0 \<in> set (waiting e') \<and> 0 \<in> set (stopped e')"
proof -
  have v: "v_stop demo_virtual 0 b = Done_later" for b by (simp add: demo_virtual_def)
  define p where "p = (on_task 0 (\<lambda>k. k\<lparr>t_stopping := True\<rparr>) demo_running)\<lparr>stops := [(0, Paused)]\<rparr>"
  have "pause demo_virtual 0 False demo_running = p"
    by (simp add: p_def pause_def set_resume_def stopTask_def v demo_running demo_running_task)
  moreover have "projr (remove demo_virtual 0 True p)
      = (on_task 0 (\<lambda>k. k\<lparr>t_stopping := True\<rparr>) p)\<lparr>stops := [(0, Paused), (0, Removed)]\<rparr>"
    by (simp add: remove_def stopTask_def v p_def demo_running demo_running_task)
  ultimately show ?thesis
    by (simp add: Let_def stop_done_removed stop_done_paused results_below_limit p_def demo_running demo_running_task)
qed

text \<open>A task that stops counting toward the limit: a slot is free, a task waits, and nothing is pending.\<close>

lemma detached_task_loses_wakeup:
  "let e = on_task 0 (\<lambda>k. k\<lparr>t_counts := False\<rparr>) demo_running
   in activeCount e < slots e \<and> queued e \<and> jobs e = [] \<and> \<not> shuttingDown e"
  by (simp add: demo_running_def demo_added_def demo_defs slots_def)

text \<open>
  The three conditions on the steps are needed: a pause between an outcome and its handler, or two
  answers to two stops, put a task into two queues, and a running task that stops counting toward the
  limit leaves a free slot and a waiting task with nothing pending.
\<close>

theorem engine_conditions_needed:
  "(\<exists>v e. e = pause v 0 False (complete [] 0 demo_running) \<and> jobs e \<noteq> [] \<and>
     (let e' = run_job v (hd (jobs e)) (e\<lparr>jobs := tl (jobs e)\<rparr>) in 0 \<in> set (waiting e') \<and> 0 \<in> set (stopped e'))) \<and>
   (\<exists>v e. remove v 0 True (pause v 0 False demo_running) = Inr e \<and> stops e = [(0, Paused), (0, Removed)] \<and>
     (let e' = stop_done v 0 Removed (stop_done v 0 Paused (e\<lparr>stops := []\<rparr>)) in 0 \<in> set (waiting e') \<and> 0 \<in> set (stopped e'))) \<and>
   (let e = on_task 0 (\<lambda>k. k\<lparr>t_counts := False\<rparr>) demo_running
    in activeCount e < slots e \<and> queued e \<and> jobs e = [] \<and> \<not> shuttingDown e)"
proof (intro conjI)
  have "jobs (pause (demo_virtual\<lparr>v_stop := (\<lambda>_ _. Done_now)\<rparr>) 0 False (complete [] 0 demo_running)) \<noteq> []"
    using pause_after_outcome_duplicates
    by (simp add: pause_def set_resume_def stopTask_def complete_def taskCompleted_def demo_running demo_running_task
        stop_done_paused schedule_def)
  then show "\<exists>v e. e = pause v 0 False (complete [] 0 demo_running) \<and> jobs e \<noteq> [] \<and>
     (let e' = run_job v (hd (jobs e)) (e\<lparr>jobs := tl (jobs e)\<rparr>) in 0 \<in> set (waiting e') \<and> 0 \<in> set (stopped e'))"
    using pause_after_outcome_duplicates unfolding Let_def by metis
  have "remove demo_virtual 0 True (pause demo_virtual 0 False demo_running) \<noteq> Inl m" for m
    by (simp add: remove_def pause_def set_resume_def stopTask_def demo_virtual_def demo_running demo_running_task)
  then obtain e where "remove demo_virtual 0 True (pause demo_virtual 0 False demo_running) = Inr e"
    by (metis sumE)
  then show "\<exists>v e. remove v 0 True (pause v 0 False demo_running) = Inr e \<and> stops e = [(0, Paused), (0, Removed)] \<and>
     (let e' = stop_done v 0 Removed (stop_done v 0 Paused (e\<lparr>stops := []\<rparr>)) in 0 \<in> set (waiting e') \<and> 0 \<in> set (stopped e'))"
    using two_callbacks_duplicate unfolding Let_def by (metis sum.sel(2))
qed (rule detached_task_loses_wakeup)

text \<open>
  C28. \<open>relocate\<close> refuses exactly a task that is already being moved, one of a kind that cannot move and
  one that is finished. Otherwise a queued task is paused and its files go to the disk threads, which
  crashes when no disk threads have been created yet; a running one waits for its stop.
\<close>

theorem relocate_outcome:
  "case relocate v t dir e of
     Inl m \<Rightarrow> map_of (moving e) (gid_of e t) \<noteq> None \<or> v_relocation v t dir = None \<or>
              state_of e t \<in> {Complete, Failed, Removed}
   | Inr e' \<Rightarrow> map_of (moving e) (gid_of e t) = None \<and> v_relocation v t dir \<noteq> None \<and>
       (if state_of e t = Active then t_stopping (objs e t) \<longrightarrow> objs e' = objs e \<and> stops e' = stops e
        else state_of e t \<in> {Waiting, Paused} \<and> state_of e' t = Paused \<and> t \<in> fst ` set (disk_work e') \<and>
          (crashed e' \<longleftrightarrow> crashed e \<or> \<not> has_disk e))"
proof -
  have put: "map_of (map_put (gid_of e t) m (moving e)) (gid_of e t) = Some m" for m by (simp add: map_simps)
  show ?thesis
    by (cases "state_of e t") (auto simp: relocate_def Let_def moveFilesOf_def put split: option.splits)
qed

theorem relocate_outcome_witness:
  "crashed (projr (relocate demo_virtual 1 ''/elsewhere'' (demo_running\<lparr>has_disk := False\<rparr>)))"
proof -
  let ?e = "demo_running\<lparr>has_disk := False\<rparr>"
  have "relocate demo_virtual 1 ''/elsewhere'' ?e \<noteq> Inl m" for m
    by (simp add: relocate_def demo_virtual_def demo_running demo_running(8) [unfolded One_nat_def] Let_def)
  then show ?thesis
    using relocate_outcome [where v = demo_virtual and t = 1 and dir = "''/elsewhere''" and e = ?e] demo_running(8)
    by (cases "relocate demo_virtual 1 ''/elsewhere'' ?e") simp_all
qed

text \<open>Prefixes are compared with the lower-case text only, although upper-case digits pass the check.\<close>

lemma uppercase_prefix_not_found:
  "let e = demo_running\<lparr>tasks := [(0xABCDEF0123456789, 0)]\<rparr>
   in find_text e ''abc'' = Some 0 \<and> find_text e ''ABC'' = None \<and> find_text e ''ABCDEF0123456789'' = Some 0"
proof -
  have "parseGid ''ABCDEF0123456789'' = Some 0xABCDEF0123456789"
    by (simp add: parseGid_iff hexValue_def hex_number_def)
  moreover have "parseGid ''abc'' = None" "parseGid ''ABC'' = None"
    by (auto simp: parseGid_def split: option.splits)
  moreover have "take (Suc (Suc (Suc 0))) (gidText 0xABCDEF0123456789) = ''abc''" by (simp add: gidText_def hex_digit_def upt_rec)
  ultimately show ?thesis by (simp add: find_text_def find_gid_def Let_def)
qed

end
