(* ===== verification/Packet.thy ===== *)
theory Packet
  imports Text "HOL-Library.Monad_Syntax"
begin

unbundle bit_operations_syntax

text \<open>
  The wire format of the eD2k protocols (\<open>ed2k/Packet.cc\<close>, \<open>ed2k/Endpoint.cc\<close>): little-endian
  integers, packet headers, tags and network addresses.

  A \<open>std::string\<close> that holds protocol data is a list of bytes, an unsigned integer a word of
  its width. A reader takes the data and the offset and returns the value with the new offset;
  \<open>None\<close> is a thrown \<open>ProtocolError\<close>, after which the sources drop the connection or datagram.
  \<open>return false\<close> is an ordinary result of a parser.

  The locale \<open>codec\<close> is the contract between a writer and its reader: reading at the place
  where a value was written gives the value back and stops behind it, whatever surrounds it, and
  a reader never passes the end of its data. The integers, strings of fixed length, addresses and
  tags interpret it, and sequences of values inherit it.
\<close>

named_theorems codec_simps

type_synonym byte = "8 word"

section \<open>Integers\<close>

definition readByte :: "byte list \<Rightarrow> nat \<Rightarrow> (byte \<times> nat) option" where
  "readByte data off = (if off \<ge> length data then None else Some (data ! off, off + 1))"

definition readBytes :: "byte list \<Rightarrow> nat \<Rightarrow> nat \<Rightarrow> (byte list \<times> nat) option" where
  "readBytes data off n =
     (if n > length data \<or> off > length data - n then None else Some (take n (drop off data), off + n))"

definition readUInt16 :: "byte list \<Rightarrow> 16 word" where
  "readUInt16 b = ucast (b ! 0) OR push_bit 8 (ucast (b ! 1))"

definition readUInt32 :: "byte list \<Rightarrow> 32 word" where
  "readUInt32 b = ucast (b ! 0) OR push_bit 8 (ucast (b ! 1)) OR push_bit 16 (ucast (b ! 2)) OR
     push_bit 24 (ucast (b ! 3))"

definition readUInt64 :: "byte list \<Rightarrow> 64 word" where
  "readUInt64 b = foldl (\<lambda>v i. v OR push_bit (i * 8) (ucast (b ! i))) 0 [0..<8]"

definition packUInt16 :: "16 word \<Rightarrow> byte list" where
  "packUInt16 v = [ucast v, ucast (drop_bit 8 v)]"

definition packUInt32 :: "32 word \<Rightarrow> byte list" where
  "packUInt32 v = map (\<lambda>i. ucast (drop_bit (i * 8) v)) [0..<4]"

definition packUInt64 :: "64 word \<Rightarrow> byte list" where
  "packUInt64 v = map (\<lambda>i. ucast (drop_bit (i * 8) v)) [0..<8]"

text \<open>The idiom \<open>readUInt16(readBytes(data, offset, 2).data())\<close> and its wider forms.\<close>

definition takeUInt16 :: "byte list \<Rightarrow> nat \<Rightarrow> (16 word \<times> nat) option" where
  "takeUInt16 data off = do { (b, off) \<leftarrow> readBytes data off 2; Some (readUInt16 b, off) }"

definition takeUInt32 :: "byte list \<Rightarrow> nat \<Rightarrow> (32 word \<times> nat) option" where
  "takeUInt32 data off = do { (b, off) \<leftarrow> readBytes data off 4; Some (readUInt32 b, off) }"

definition takeUInt64 :: "byte list \<Rightarrow> nat \<Rightarrow> (64 word \<times> nat) option" where
  "takeUInt64 data off = do { (b, off) \<leftarrow> readBytes data off 8; Some (readUInt64 b, off) }"

section \<open>Packets\<close>

record packet_header =
  ph_protocol :: byte
  ph_size :: "32 word"
  ph_opcode :: byte

definition payloadSize :: "packet_header \<Rightarrow> nat" where
  "payloadSize h = (if ph_size h = 0 then 0 else unat (ph_size h - 1))"

definition createPacket :: "byte \<Rightarrow> byte \<Rightarrow> byte list \<Rightarrow> byte list" where
  "createPacket protocol opcode payload =
     protocol # packUInt32 (of_nat (length payload + 1)) @ opcode # payload"

definition createDatagram :: "byte \<Rightarrow> byte \<Rightarrow> byte list \<Rightarrow> byte list" where
  "createDatagram protocol opcode payload = protocol # opcode # payload"

text \<open>The header is an out-parameter: it comes back with the result.\<close>

definition readPacketHeader :: "packet_header \<Rightarrow> byte list \<Rightarrow> bool \<times> packet_header" where
  "readPacketHeader header data =
     (if length data < 6 then (False, header)
      else let header = \<lparr>ph_protocol = data ! 0, ph_size = readUInt32 (drop 1 data), ph_opcode = data ! 5\<rparr>
           in (ph_size header > 0, header))"

definition readDatagramHeader :: "packet_header \<Rightarrow> byte list \<Rightarrow> bool \<times> packet_header" where
  "readDatagramHeader header data =
     (if length data < 2 then (False, header)
      else (True, \<lparr>ph_protocol = data ! 0, ph_size = of_nat (length data - 1), ph_opcode = data ! 1\<rparr>))"

section \<open>Tags\<close>

definition HASH_LENGTH :: nat where
  "HASH_LENGTH = 16"

datatype tag_value_type = UNKNOWN | STRING | UINT | HASH | BLOB

record tag =
  tag_id :: byte
  tag_name :: "byte list"
  rawType :: byte
  valueType :: tag_value_type
  stringValue :: "byte list"
  intValue :: "64 word"
  binaryValue :: "byte list"

definition new_tag :: tag where
  "new_tag = \<lparr>tag_id = 0, tag_name = [], rawType = 0, valueType = UNKNOWN, stringValue = [], intValue = 0,
     binaryValue = []\<rparr>"

text \<open>The identifier: one byte when the high bit of the type is set, else a counted name, of
  which a single byte is also the identifier.\<close>

definition read_tag_name :: "byte list \<Rightarrow> nat \<Rightarrow> byte \<Rightarrow> tag \<Rightarrow> (tag \<times> nat) option" where
  "read_tag_name data off tagTypeWithName tag =
     (if tagTypeWithName AND 0x80 \<noteq> 0 then do {
        (i, off) \<leftarrow> readByte data off;
        Some (tag\<lparr>tag_id := i\<rparr>, off)
      } else do {
        (nameSize, off) \<leftarrow> takeUInt16 data off;
        (name, off) \<leftarrow> readBytes data off (unat nameSize);
        let tag = tag\<lparr>tag_name := name\<rparr>;
        Some (if length name = 1 then tag\<lparr>tag_id := name ! 0\<rparr> else tag, off)
      })"

text \<open>The value, by the type of the tag.\<close>

definition read_tag_value :: "byte list \<Rightarrow> nat \<Rightarrow> byte \<Rightarrow> tag \<Rightarrow> (tag \<times> nat) option" where
  "read_tag_value data off tagType tag =
     (if tagType = 0x01 then do {
        (v, off) \<leftarrow> readBytes data off HASH_LENGTH;
        Some (tag\<lparr>valueType := HASH, binaryValue := v\<rparr>, off)
      } else if tagType = 0x02 then do {
        (sz, off) \<leftarrow> takeUInt16 data off;
        (v, off) \<leftarrow> readBytes data off (unat sz);
        Some (tag\<lparr>valueType := STRING, stringValue := v\<rparr>, off)
      } else if tagType = 0x03 then do {
        (v, off) \<leftarrow> takeUInt32 data off;
        Some (tag\<lparr>valueType := UINT, intValue := ucast v\<rparr>, off)
      } else if tagType = 0x07 then do {
        (sz, off) \<leftarrow> takeUInt32 data off;
        (v, off) \<leftarrow> readBytes data off (unat sz);
        Some (tag\<lparr>valueType := BLOB, binaryValue := v\<rparr>, off)
      } else if tagType = 0x08 then do {
        (v, off) \<leftarrow> takeUInt16 data off;
        Some (tag\<lparr>valueType := UINT, intValue := ucast v\<rparr>, off)
      } else if tagType = 0x09 then do {
        (v, off) \<leftarrow> readByte data off;
        Some (tag\<lparr>valueType := UINT, intValue := ucast v\<rparr>, off)
      } else if tagType = 0x0b then do {
        (v, off) \<leftarrow> takeUInt64 data off;
        Some (tag\<lparr>valueType := UINT, intValue := v\<rparr>, off)
      } else if tagType \<ge> 0x11 \<and> tagType \<le> 0x20 then do {
        (v, off) \<leftarrow> readBytes data off (unat tagType - 0x11 + 1);
        Some (tag\<lparr>valueType := STRING, stringValue := v\<rparr>, off)
      } else Some (tag, off))"

definition readTag :: "byte list \<Rightarrow> nat \<Rightarrow> (tag \<times> nat) option" where
  "readTag data off = do {
     (tagTypeWithName, off) \<leftarrow> readByte data off;
     let tagType = tagTypeWithName AND 0x7f;
     (tag, off) \<leftarrow> read_tag_name data off tagTypeWithName (new_tag\<lparr>rawType := tagType\<rparr>);
     read_tag_value data off tagType tag
   }"

definition skipTag :: "byte list \<Rightarrow> nat \<Rightarrow> nat option" where
  "skipTag data off = do { (_, off) \<leftarrow> readTag data off; Some off }"

definition createTagHeader :: "byte \<Rightarrow> byte \<Rightarrow> byte list" where
  "createTagHeader type i = [type OR 0x80, i]"

definition createUInt32Tag :: "byte \<Rightarrow> 32 word \<Rightarrow> byte list" where
  "createUInt32Tag i v = createTagHeader 0x03 i @ packUInt32 v"

definition createUInt64Tag :: "byte \<Rightarrow> 64 word \<Rightarrow> byte list" where
  "createUInt64Tag i v = createTagHeader 0x0b i @ packUInt64 v"

definition createStringTag :: "byte \<Rightarrow> byte list \<Rightarrow> byte list" where
  "createStringTag i v =
     (if v \<noteq> [] \<and> length v \<le> 16 then createTagHeader (of_nat (0x11 + length v - 1)) i @ v
      else createTagHeader 0x02 i @ packUInt16 (of_nat (length v)) @ v)"

text \<open>A loop that reads a counted number of values with the same reader.\<close>

fun read_list :: "(byte list \<Rightarrow> nat \<Rightarrow> ('a \<times> nat) option) \<Rightarrow> nat \<Rightarrow> byte list \<Rightarrow> nat \<Rightarrow> ('a list \<times> nat) option" where
  "read_list rd 0 data off = Some ([], off)"
| "read_list rd (Suc n) data off = do {
     (v, off) \<leftarrow> rd data off;
     (vs, off) \<leftarrow> read_list rd n data off;
     Some (v # vs, off)
   }"

text \<open>A loop that writes values one after another; a writer may throw.\<close>

fun write_list :: "('a \<Rightarrow> byte list option) \<Rightarrow> 'a list \<Rightarrow> byte list option" where
  "write_list wr [] = Some []"
| "write_list wr (v # vs) = do { b \<leftarrow> wr v; bs \<leftarrow> write_list wr vs; Some (b @ bs) }"

text \<open>\<open>tags\<close> is an out-parameter, left alone by the early returns.\<close>

definition parseTagList :: "tag list \<Rightarrow> byte list \<Rightarrow> (bool \<times> tag list) option" where
  "parseTagList tags payload =
     (if length payload < 4 then Some (False, tags)
      else do {
        (count, off) \<leftarrow> takeUInt32 payload 0;
        if count > 10000 then Some (False, tags)
        else do {
          (tags, off) \<leftarrow> read_list readTag (unat count) payload off;
          Some (off = length payload, tags)
        }
      })"

section \<open>Addresses\<close>

record endpoint =
  host :: string
  port :: "16 word"
  cryptOptions :: "16 word"
  userHash :: "byte list"

definition new_endpoint :: endpoint where
  "new_endpoint = \<lparr>host = [], port = 0, cryptOptions = 0, userHash = []\<rparr>"

definition ipv4FromEndpoint :: "32 word \<Rightarrow> string" where
  "ipv4FromEndpoint ip =
     decimal (unat (ip AND 0xff)) @ ''.'' @ decimal (unat (drop_bit 8 ip AND 0xff)) @ ''.'' @
     decimal (unat (drop_bit 16 ip AND 0xff)) @ ''.'' @ decimal (unat (drop_bit 24 ip AND 0xff))"

text \<open>
  \<open>std::getline(ss, part, '.')\<close>: fails when nothing is left, else gives the text up to the
  next point, which it drops.
\<close>

definition getline :: "string \<Rightarrow> (string \<times> string) option" where
  "getline ss =
     (if ss = [] then None
      else Some (takeWhile (\<lambda>c. c \<noteq> CHR ''.'') ss, tl (dropWhile (\<lambda>c. c \<noteq> CHR ''.'') ss)))"

fun ipv4_octets :: "nat list \<Rightarrow> string \<Rightarrow> 32 word \<Rightarrow> (32 word \<times> string) option" where
  "ipv4_octets [] ss v = Some (v, ss)"
| "ipv4_octets (i # is) ss v = do {
     (part, ss) \<leftarrow> getline ss;
     octet \<leftarrow> toInt part;
     if octet < 0 \<or> octet > 255 then None
     else ipv4_octets is ss (v OR push_bit (i * 8) (of_int octet))
   }"

definition ipv4ToEndpointValue :: "string \<Rightarrow> 32 word option" where
  "ipv4ToEndpointValue address = do {
     (v, ss) \<leftarrow> ipv4_octets [0, 1, 2, 3] address 0;
     if getline ss \<noteq> None then None else Some v
   }"

definition readEndpoint :: "byte list \<Rightarrow> nat \<Rightarrow> (endpoint \<times> nat) option" where
  "readEndpoint data off = do {
     (ip, off) \<leftarrow> takeUInt32 data off;
     (p, off) \<leftarrow> takeUInt16 data off;
     Some (new_endpoint\<lparr>host := ipv4FromEndpoint ip, port := p\<rparr>, off)
   }"

definition packEndpoint :: "endpoint \<Rightarrow> byte list option" where
  "packEndpoint e = do {
     ip \<leftarrow> ipv4ToEndpointValue (host e);
     Some (packUInt32 ip @ packUInt16 (port e))
   }"

section \<open>Integers read back\<close>

text \<open>The little-endian value of a list of bytes, the reference for the three widths.\<close>

primrec le_value :: "byte list \<Rightarrow> 'a::len word" where
  "le_value [] = 0"
| "le_value (b # bs) = ucast b OR push_bit 8 (le_value bs)"

primrec le_bytes :: "nat \<Rightarrow> 'a::len word \<Rightarrow> byte list" where
  "le_bytes 0 v = []"
| "le_bytes (Suc n) v = ucast v # le_bytes n (drop_bit 8 v)"

lemma length_le_bytes [simp]: "length (le_bytes n v) = n"
  by (induction n arbitrary: v) simp_all

lemma le_value_bytes: "le_value (le_bytes n v) = take_bit (n * 8) v"
proof (induction n arbitrary: v)
  case (Suc n)
  show ?case
    by (rule bit_word_eqI)
      (auto simp: Suc bit_or_iff bit_ucast_iff bit_push_bit_iff bit_take_bit_iff bit_drop_bit_eq)
qed simp

lemma le_bytes_value:
  assumes "length bs * 8 \<le> LENGTH('a::len)"
  shows "le_bytes (length bs) (le_value bs :: 'a word) = bs"
  using assms
proof (induction bs)
  case (Cons b bs)
  have "8 \<le> LENGTH('a)" using Cons.prems by simp
  then have "ucast (le_value (b # bs) :: 'a word) = b"
    by (intro bit_word_eqI) (auto simp: bit_ucast_iff bit_or_iff bit_push_bit_iff bit_imp_le_length)
  moreover have "take_bit (length bs * 8) (le_value bs :: 'a word) = le_value bs"
    using Cons by (metis le_value_bytes add_leD2 length_Cons mult_Suc)
  then have "\<not> bit (le_value bs :: 'a word) n" if "n \<ge> length bs * 8" for n
    using that by (metis bit_take_bit_iff linorder_not_less)
  then have "drop_bit 8 (le_value (b # bs) :: 'a word) = le_value bs"
    using Cons.prems
    by (intro bit_word_eqI) (auto simp: bit_ucast_iff bit_or_iff bit_push_bit_iff bit_drop_bit_eq dest: bit_imp_le_length)
  ultimately show ?case using Cons by simp
qed simp

lemma upt_numerals: "[0..<4] = [0, 1, 2, 3::nat]" "[0..<8] = [0, 1, 2, 3, 4, 5, 6, 7::nat]"
  by (simp_all add: upt_rec)

lemma list_of_length:
  "length b = 2 \<Longrightarrow> b = [b ! 0, b ! 1]"
  "length c = 4 \<Longrightarrow> c = [c ! 0, c ! 1, c ! 2, c ! 3]"
  "length d = 8 \<Longrightarrow> d = [d ! 0, d ! 1, d ! 2, d ! 3, d ! 4, d ! 5, d ! 6, d ! 7]"
  by (auto simp: numeral_eq_Suc length_Suc_conv)

lemma read_le:
  "length b = 2 \<Longrightarrow> readUInt16 b = le_value b"
  "length c = 4 \<Longrightarrow> readUInt32 c = le_value c"
  "length d = 8 \<Longrightarrow> readUInt64 d = le_value d"
  using arg_cong [OF list_of_length(1), of b "le_value :: _ \<Rightarrow> 16 word"] arg_cong [OF list_of_length(2), of c "le_value :: _ \<Rightarrow> 32 word"]
    arg_cong [OF list_of_length(3), of d "le_value :: _ \<Rightarrow> 64 word"]
  by (simp_all add: readUInt16_def readUInt32_def readUInt64_def upt_numerals push_bit_or or.assoc)

lemma pack_le:
  "packUInt16 v = le_bytes 2 v" "packUInt32 w = le_bytes 4 w" "packUInt64 x = le_bytes 8 x"
  by (simp_all add: packUInt16_def packUInt32_def packUInt64_def upt_numerals numeral_eq_Suc)

lemma length_pack [simp]:
  "length (packUInt16 v) = 2" "length (packUInt32 w) = 4" "length (packUInt64 x) = 8"
  by (simp_all add: pack_le)

lemma read_pack [codec_simps]:
  "readUInt16 (packUInt16 v) = v" "readUInt32 (packUInt32 w) = w" "readUInt64 (packUInt64 x) = x"
  by (simp_all add: read_le pack_le le_value_bytes take_bit_word_eq_self)

lemma pack_read:
  "length b = 2 \<Longrightarrow> packUInt16 (readUInt16 b) = b"
  "length c = 4 \<Longrightarrow> packUInt32 (readUInt32 c) = c"
  "length d = 8 \<Longrightarrow> packUInt64 (readUInt64 d) = d"
  using le_bytes_value [of b, where ?'a = 16] le_bytes_value [of c, where ?'a = 32] le_bytes_value [of d, where ?'a = 64]
  by (simp_all add: read_le pack_le)

section \<open>Readers and writers\<close>

text \<open>The reader stands at \<open>off\<close>, and \<open>rest\<close> is the data it has not read.\<close>

definition cursor :: "byte list \<Rightarrow> nat \<Rightarrow> byte list \<Rightarrow> bool" where
  "cursor data off rest \<longleftrightarrow> off \<le> length data \<and> drop off data = rest"

lemma cursor_start [simp]: "cursor data 0 data"
  by (simp add: cursor_def)

lemma cursor_advance: "cursor data off (bs @ rest) \<Longrightarrow> cursor data (off + length bs) rest"
  by (auto simp: cursor_def add.commute [of off] drop_drop [symmetric] dest: arg_cong [of _ _ length])

lemma cursor_step: "cursor data off (bs @ rest) \<Longrightarrow> m = off + length bs \<Longrightarrow> cursor data m rest"
  by (simp add: cursor_advance)

lemma cursor_end: "cursor data off rest \<Longrightarrow> off + length rest = length data"
  by (auto simp: cursor_def)

lemma cursor_readBytes:
  assumes "cursor data off (bs @ rest)" and "n = length bs"
  shows "readBytes data off n = Some (bs, off + n)"
  using assms cursor_end [OF assms(1)] by (auto simp: cursor_def readBytes_def)

lemma cursor_readByte:
  assumes "cursor data off (b # rest)"
  shows "readByte data off = Some (b, Suc off)"
proof -
  have d: "off < length data" "drop off data = b # rest"
    using assms cursor_end [OF assms] by (auto simp: cursor_def)
  then show ?thesis using hd_drop_conv_nth [OF d(1)] by (simp add: readByte_def)
qed

lemma readByte_bounds: "readByte data off = Some (v, off') \<Longrightarrow> off' = off + 1 \<and> off' \<le> length data"
  by (auto simp: readByte_def split: if_splits)

lemma readBytes_bounds:
  "readBytes data off n = Some (v, off') \<Longrightarrow> off' = off + n \<and> off' \<le> length data \<and> length v = n"
  by (auto simp: readBytes_def split: if_splits)

locale reader =
  fixes dec :: "byte list \<Rightarrow> nat \<Rightarrow> ('b \<times> nat) option"
    and least :: nat
  assumes dec_bounds: "dec data off = Some (v, off') \<Longrightarrow> off + least \<le> off' \<and> off' \<le> length data"
begin

lemma list_bounds:
  "read_list dec n data off = Some (vs, off') \<Longrightarrow> off \<le> length data \<Longrightarrow>
     length vs = n \<and> off + n * least \<le> off' \<and> off' \<le> length data"
proof (induction n arbitrary: off vs)
  case (Suc n)
  then obtain v mid ws where v: "dec data off = Some (v, mid)" "read_list dec n data mid = Some (ws, off')" "vs = v # ws"
    by (auto split: bind_splits)
  show ?case using Suc.IH [OF v(2)] dec_bounds [OF v(1)] v(3) by auto
qed simp

end

locale codec = reader dec least
  for dec :: "byte list \<Rightarrow> nat \<Rightarrow> ('b \<times> nat) option" and least :: nat +
  fixes enc :: "'a \<Rightarrow> byte list option"
    and canon :: "'a \<Rightarrow> 'b"
    and ok :: "'a \<Rightarrow> bool"
  assumes dec_enc: "enc v = Some bs \<Longrightarrow> ok v \<Longrightarrow> cursor data off (bs @ rest) \<Longrightarrow>
    dec data off = Some (canon v, off + length bs)"
begin

lemma list_roundtrip:
  "write_list enc vs = Some bs \<Longrightarrow> list_all ok vs \<Longrightarrow> cursor data off (bs @ rest) \<Longrightarrow>
     read_list dec (length vs) data off = Some (map canon vs, off + length bs)"
proof (induction vs arbitrary: bs off)
  case (Cons v vs)
  then obtain b cs where b: "enc v = Some b" "write_list enc vs = Some cs" "bs = b @ cs" by (auto split: bind_splits)
  have c: "cursor data off (b @ cs @ rest)" using Cons.prems b by simp
  then have "dec data off = Some (canon v, off + length b)" using Cons.prems b dec_enc by simp
  moreover have "read_list dec (length vs) data (off + length b) = Some (map canon vs, off + length b + length cs)"
    using Cons.prems by (intro Cons.IH [OF b(2)] cursor_advance [OF c]) simp
  ultimately show ?case using b by simp
qed simp

text \<open>No encoding is the beginning of another: the values are read unambiguously.\<close>

lemma unambiguous:
  assumes "enc v = Some a" and "enc w = Some b" and "ok v" and "ok w" and "a @ r = b @ s"
  shows "canon v = canon w \<and> r = s"
proof -
  have v: "dec (a @ r) 0 = Some (canon v, length a)" using dec_enc [OF assms(1,3), of "a @ r" 0 r] by simp
  have w: "dec (a @ r) 0 = Some (canon w, length b)"
    using dec_enc [OF assms(2,4), of "a @ r" 0 s] assms(5) by simp
  show ?thesis using v w assms(5) by auto
qed

end

section \<open>The interpretations\<close>

lemma takeUInt_bounds:
  "takeUInt16 data off = Some (v, off') \<Longrightarrow> off' = off + 2 \<and> off' \<le> length data"
  "takeUInt32 data off = Some (w, off') \<Longrightarrow> off' = off + 4 \<and> off' \<le> length data"
  "takeUInt64 data off = Some (x, off') \<Longrightarrow> off' = off + 8 \<and> off' \<le> length data"
  by (auto simp: takeUInt16_def takeUInt32_def takeUInt64_def split: bind_splits dest: readBytes_bounds)

lemma cursor_takeUInt:
  "cursor data off (packUInt16 v @ rest) \<Longrightarrow> takeUInt16 data off = Some (v, off + 2)"
  "cursor data off (packUInt32 w @ rest) \<Longrightarrow> takeUInt32 data off = Some (w, off + 4)"
  "cursor data off (packUInt64 x @ rest) \<Longrightarrow> takeUInt64 data off = Some (x, off + 8)"
  by (simp_all add: takeUInt16_def takeUInt32_def takeUInt64_def cursor_readBytes read_pack)

interpretation u16: codec takeUInt16 2 "\<lambda>v. Some (packUInt16 v)" "\<lambda>v. v" "\<lambda>v. True"
  by unfold_locales (use takeUInt_bounds cursor_takeUInt in fastforce)+

interpretation u32: codec takeUInt32 4 "\<lambda>v. Some (packUInt32 v)" "\<lambda>v. v" "\<lambda>v. True"
  by unfold_locales (use takeUInt_bounds cursor_takeUInt in fastforce)+

interpretation u64: codec takeUInt64 8 "\<lambda>v. Some (packUInt64 v)" "\<lambda>v. v" "\<lambda>v. True"
  by unfold_locales (use takeUInt_bounds cursor_takeUInt in fastforce)+

text \<open>Hashes and other strings of fixed length are written as they are.\<close>

interpretation fixed: codec "\<lambda>data off. readBytes data off n" n Some "\<lambda>v. v" "\<lambda>v. length v = n" for n
  by unfold_locales (auto simp: cursor_readBytes dest: readBytes_bounds)

lemma read_tag_name_bounds:
  "read_tag_name data off type t = Some (t', off') \<Longrightarrow> off + 1 \<le> off' \<and> off' \<le> length data"
  by (auto simp: read_tag_name_def Let_def split: if_splits bind_splits
      dest!: readByte_bounds readBytes_bounds takeUInt_bounds)

lemma read_tag_value_bounds:
  "read_tag_value data off type t = Some (t', off') \<Longrightarrow> off \<le> length data \<Longrightarrow> off \<le> off' \<and> off' \<le> length data"
  by (auto simp: read_tag_value_def Let_def split: if_splits bind_splits
      dest!: readByte_bounds readBytes_bounds takeUInt_bounds)

lemma readTag_bounds: "readTag data off = Some (t, off') \<Longrightarrow> off + 2 \<le> off' \<and> off' \<le> length data"
  by (fastforce simp: readTag_def Let_def split: bind_splits
      dest: readByte_bounds read_tag_name_bounds read_tag_value_bounds)

text \<open>The tags the client writes, and what reading one of them gives.\<close>

datatype out_tag = UInt32Tag byte "32 word" | UInt64Tag byte "64 word" | StringTag byte "byte list"

fun create_tag :: "out_tag \<Rightarrow> byte list" where
  "create_tag (UInt32Tag i v) = createUInt32Tag i v"
| "create_tag (UInt64Tag i v) = createUInt64Tag i v"
| "create_tag (StringTag i v) = createStringTag i v"

fun tag_of :: "out_tag \<Rightarrow> tag" where
  "tag_of (UInt32Tag i v) = new_tag\<lparr>tag_id := i, rawType := 0x03, valueType := UINT, intValue := ucast v\<rparr>"
| "tag_of (UInt64Tag i v) = new_tag\<lparr>tag_id := i, rawType := 0x0b, valueType := UINT, intValue := v\<rparr>"
| "tag_of (StringTag i v) = new_tag\<lparr>tag_id := i,
     rawType := (if v \<noteq> [] \<and> length v \<le> 16 then of_nat (0x10 + length v) else 0x02),
     valueType := STRING, stringValue := v\<rparr>"

fun tag_ok :: "out_tag \<Rightarrow> bool" where
  "tag_ok (StringTag i v) = (length v < 2 ^ 16)"
| "tag_ok _ = True"

text \<open>Reading a tag whose header has the high bit set.\<close>

lemma readTag_header:
  assumes "cursor data off (createTagHeader type i @ rest)" and "type AND 0x7f = type"
  shows "readTag data off =
    read_tag_value data (off + 2) type (new_tag\<lparr>rawType := type, tag_id := i\<rparr>)"
proof -
  have c: "cursor data off ((type OR 0x80) # i # rest)" using assms(1) by (simp add: createTagHeader_def)
  have c1: "cursor data (Suc off) (i # rest)" using cursor_advance [of data off "[type OR 0x80]"] c by simp
  have t: "(type OR 0x80) AND 0x7f = type" using assms(2) by (simp add: bit.conj_disj_distrib2)
  have u: "(type OR 0x80) AND 0x80 = 0x80" by (rule bit_word_eqI) (auto simp: bit_and_iff bit_or_iff)
  show ?thesis
    by (simp add: readTag_def read_tag_name_def cursor_readByte [OF c] cursor_readByte [OF c1] t u Let_def)
qed

lemma short_tag_type:
  assumes "0 < n" and "n \<le> 16"
  shows "(of_nat (0x11 + n - 1) :: byte) AND 0x7f = of_nat (0x10 + n)" "(of_nat (0x11 + n - 1) :: byte) = of_nat (0x10 + n)"
    "unat (of_nat (0x10 + n) :: byte) = 0x10 + n"
proof -
  define w :: byte where "w = of_nat (0x10 + n)"
  have u: "unat w = 0x10 + n" unfolding w_def by (subst unat_of_nat) (use assms in simp)
  then show "unat (of_nat (0x10 + n) :: byte) = 0x10 + n" by (simp only: w_def)
  have e: "0x11 + n - 1 = 0x10 + n" by simp
  then show "(of_nat (0x11 + n - 1) :: byte) = of_nat (0x10 + n)" by (simp only:)
  have "w AND 0x7f = take_bit 7 w" by (simp add: take_bit_eq_mask mask_eq_exp_minus_1)
  moreover have "take_bit 7 w = w"
    by (rule unsigned_word_eqI [where ?'a = nat]) (use u assms in \<open>simp add: unsigned_take_bit_eq take_bit_nat_eq_self\<close>)
  ultimately show "(of_nat (0x11 + n - 1) :: byte) AND 0x7f = of_nat (0x10 + n)" by (simp only: e w_def)
qed

lemma cursor_createTag:
  assumes "tag_ok t" and "cursor data off (create_tag t @ rest)"
  shows "readTag data off = Some (tag_of t, off + length (create_tag t))"
proof (cases t)
  case (UInt32Tag i v)
  have c: "cursor data off (createTagHeader 3 i @ packUInt32 v @ rest)"
    using assms(2) by (simp add: UInt32Tag createUInt32Tag_def)
  have d: "cursor data (off + 2) (packUInt32 v @ rest)" using cursor_advance [OF c] by (simp add: createTagHeader_def)
  show ?thesis using readTag_header [OF c] cursor_takeUInt(2) [OF d]
    by (simp add: UInt32Tag read_tag_value_def createUInt32Tag_def createTagHeader_def)
next
  case (UInt64Tag i v)
  have c: "cursor data off (createTagHeader 0x0b i @ packUInt64 v @ rest)"
    using assms(2) by (simp add: UInt64Tag createUInt64Tag_def)
  have d: "cursor data (off + 2) (packUInt64 v @ rest)" using cursor_advance [OF c] by (simp add: createTagHeader_def)
  show ?thesis using readTag_header [OF c] cursor_takeUInt(3) [OF d]
    by (simp add: UInt64Tag read_tag_value_def createUInt64Tag_def createTagHeader_def)
next
  case (StringTag i v)
  show ?thesis
  proof (cases "v \<noteq> [] \<and> length v \<le> 16")
    case True
    then have n: "0 < length v" "length v \<le> 16" by auto
    note ty = short_tag_type [OF n]
    have c: "cursor data off (createTagHeader (of_nat (0x10 + length v)) i @ v @ rest)"
      using assms(2) True ty(2) by (simp add: StringTag createStringTag_def)
    have d: "cursor data (off + 2) (v @ rest)" using cursor_advance [OF c] by (simp add: createTagHeader_def)
    have "of_nat (0x10 + length v) \<ge> (0x11 :: byte)" "of_nat (0x10 + length v) \<le> (0x20 :: byte)"
      using n ty(3) by (simp_all only: word_le_nat_alt) (simp_all add: Suc_le_eq)
    moreover have "of_nat (0x10 + length v) \<noteq> (w :: byte)" if "unat w < 0x10" for w using that ty(3) by auto
    ultimately show ?thesis
      using True ty readTag_header [OF c] cursor_readBytes [OF d refl] n
      by (simp add: StringTag read_tag_value_def createStringTag_def createTagHeader_def)
  next
    case False
    then have e: "createStringTag i v = createTagHeader 0x02 i @ packUInt16 (of_nat (length v)) @ v"
      unfolding createStringTag_def by (rule if_not_P)
    have c: "cursor data off (createTagHeader 0x02 i @ packUInt16 (of_nat (length v)) @ v @ rest)"
      using assms(2) by (simp add: StringTag e)
    have d: "cursor data (off + 2) (packUInt16 (of_nat (length v)) @ v @ rest)"
      using cursor_advance [OF c] by (simp add: createTagHeader_def)
    have f: "cursor data (Suc (Suc (Suc (Suc off)))) (v @ rest)" by (rule cursor_step [OF d]) simp
    have "unat (of_nat (length v) :: 16 word) = length v" using assms(1) by (simp add: StringTag unat_of_nat)
    then show ?thesis
      using False readTag_header [OF c] cursor_takeUInt(1) [OF d] cursor_readBytes [OF f refl]
      by (auto simp: StringTag read_tag_value_def e createTagHeader_def)
  qed
qed

interpretation tags: codec readTag 2 "\<lambda>t. Some (create_tag t)" tag_of tag_ok
  by unfold_locales (use readTag_bounds cursor_createTag in blast)+

lemma write_total: "write_list (\<lambda>v. Some (f v)) vs = Some (concat (map f vs))"
  by (induction vs) simp_all

lemma tag_list_read:
  assumes "list_all tag_ok ts" and "length ts \<le> 10000"
  shows "parseTagList old (packUInt32 (of_nat (length ts)) @ concat (map create_tag ts)) = Some (True, map tag_of ts)"
proof -
  define p where "p = packUInt32 (of_nat (length ts)) @ concat (map create_tag ts)"
  have c: "cursor p 0 (packUInt32 (of_nat (length ts)) @ concat (map create_tag ts))" by (simp add: p_def)
  have d: "cursor p 4 (concat (map create_tag ts) @ [])" using cursor_step [OF c] by simp
  have n: "unat (of_nat (length ts) :: 32 word) = length ts" using assms(2) by (simp add: unat_of_nat)
  then have "\<not> (of_nat (length ts) :: 32 word) > 10000" using assms(2) by (simp add: word_less_nat_alt)
  then have "parseTagList old p = Some (True, map tag_of ts)"
    using cursor_takeUInt(2) [OF c] tags.list_roundtrip [OF write_total assms(1) d] cursor_end [OF c] n
    by (simp add: parseTagList_def)
  then show ?thesis by (simp add: p_def)
qed

section \<open>Addresses read back\<close>

lemma toInt_decimal: "n < 2 ^ 63 \<Longrightarrow> toInt (decimal n) = Some (int n)"
  using toInt_roundtrip by blast

lemma getline_decimal [simp]:
  "getline (decimal n @ CHR ''.'' # s) = Some (decimal n, s)" "getline (decimal n) = Some (decimal n, [])"
proof -
  have d: "list_all is_digit (decimal n)" "decimal n \<noteq> []" using decimal_digits [of n] by auto
  then have p: "\<forall>c \<in> set (decimal n). c \<noteq> CHR ''.''" by (auto simp: list_all_iff is_digit_def)
  then have q: "dropWhile (\<lambda>c. c \<noteq> CHR ''.'') (decimal n) = []" by (simp add: dropWhile_eq_Nil_conv)
  from p show "getline (decimal n @ CHR ''.'' # s) = Some (decimal n, s)" "getline (decimal n) = Some (decimal n, [])"
    using d by (simp_all add: q getline_def takeWhile_append2 dropWhile_append2 takeWhile_eq_all_conv)
qed

lemma low_octet: "w AND 0xff = take_bit 8 (w :: 32 word)"
  by (simp add: take_bit_eq_mask mask_eq_exp_minus_1)

lemma octet_bounds: "unat (w AND 0xff :: 32 word) < 256"
  using take_bit_nat_less_exp [of 8 "unat w"] by (simp add: low_octet unsigned_take_bit_eq)

lemma octets_of_word:
  "(ip AND 0xff) OR push_bit 8 (drop_bit 8 ip AND 0xff) OR push_bit 16 (drop_bit 16 ip AND 0xff) OR
     push_bit 24 (drop_bit 24 ip AND 0xff) = (ip :: 32 word)"
proof -
  have "w AND 0xff = ucast (ucast w :: byte)" for w :: "32 word"
    unfolding low_octet by (rule bit_word_eqI) (auto simp: bit_ucast_iff bit_take_bit_iff)
  then show ?thesis
    using read_pack(2) [of ip] by (simp add: readUInt32_def packUInt32_def upt_numerals)
qed

lemma ipv4_roundtrip: "ipv4ToEndpointValue (ipv4FromEndpoint ip) = Some ip"
proof -
  have b: "int (unat (w AND 0xff :: 32 word)) \<le> 255" for w using octet_bounds [of w] by linarith
  have b': "unat (w AND 0xff :: 32 word) < 2 ^ 63" for w using octet_bounds [of w] by simp
  have "getline [] = None" by (simp add: getline_def)
  then show ?thesis using b b' octets_of_word [of ip]
    by (simp add: ipv4ToEndpointValue_def ipv4FromEndpoint_def toInt_decimal not_less or.assoc)
qed

text \<open>The addresses the client keeps in packets: dotted, and without the fields a packet has no room for.\<close>

definition bare :: "endpoint \<Rightarrow> endpoint" where
  "bare e = e\<lparr>cryptOptions := 0, userHash := []\<rparr>"

definition dotted :: "string \<Rightarrow> bool" where
  "dotted s \<longleftrightarrow> (case ipv4ToEndpointValue s of None \<Rightarrow> False | Some ip \<Rightarrow> s = ipv4FromEndpoint ip)"

lemma dotted_ipv4 [simp]: "dotted (ipv4FromEndpoint ip)"
  by (simp add: dotted_def ipv4_roundtrip)

lemma length_packEndpoint: "packEndpoint e = Some bs \<Longrightarrow> length bs = 6"
  by (auto simp: packEndpoint_def split: bind_splits)

lemma cursor_packEndpoint:
  assumes "packEndpoint e = Some bs" and "dotted (host e)" and "cursor data off (bs @ rest)"
  shows "readEndpoint data off = Some (bare e, off + 6)"
proof -
  obtain ip where ip: "host e = ipv4FromEndpoint ip" using assms(2) by (auto simp: dotted_def split: option.splits)
  then have bs: "bs = packUInt32 ip @ packUInt16 (port e)" using assms(1) by (simp add: packEndpoint_def ipv4_roundtrip)
  have c: "cursor data off (packUInt32 ip @ packUInt16 (port e) @ rest)" using assms(3) bs by simp
  have d: "cursor data (off + 4) (packUInt16 (port e) @ rest)" by (rule cursor_step [OF c]) simp
  show ?thesis
    by (cases e) (use cursor_takeUInt(2) [OF c] cursor_takeUInt(1) [OF d] ip in
      \<open>simp add: readEndpoint_def new_endpoint_def bare_def\<close>)
qed

lemma readEndpoint_bounds: "readEndpoint data off = Some (e, off') \<Longrightarrow> off' = off + 6 \<and> off' \<le> length data"
  by (auto simp: readEndpoint_def split: bind_splits dest!: takeUInt_bounds)

interpretation endpoints: codec readEndpoint 6 packEndpoint bare "\<lambda>e. dotted (host e)"
  by unfold_locales (use readEndpoint_bounds cursor_packEndpoint length_packEndpoint in fastforce)+

section \<open>Properties\<close>

text \<open>The bytes a parsed tag keeps.\<close>

definition tag_weight :: "tag \<Rightarrow> nat" where
  "tag_weight t = length (tag_name t) + length (stringValue t) + length (binaryValue t)"

lemma read_tag_name_weight:
  "read_tag_name data off type (new_tag\<lparr>rawType := r\<rparr>) = Some (t', off') \<Longrightarrow>
     off + 1 + length (tag_name t') \<le> off' \<and> stringValue t' = [] \<and> binaryValue t' = []"
  by (auto simp: read_tag_name_def new_tag_def Let_def split: if_splits bind_splits
      dest!: readByte_bounds readBytes_bounds takeUInt_bounds)

lemma read_tag_value_weight:
  "read_tag_value data off type t = Some (t', off') \<Longrightarrow> stringValue t = [] \<Longrightarrow> binaryValue t = [] \<Longrightarrow>
     off + length (stringValue t') + length (binaryValue t') \<le> off' \<and> tag_name t' = tag_name t"
  by (auto simp: read_tag_value_def Let_def split: if_splits bind_splits
      dest!: readByte_bounds readBytes_bounds takeUInt_bounds)

lemma readTag_weight: "readTag data off = Some (t, off') \<Longrightarrow> off + 2 + tag_weight t \<le> off'"
  by (fastforce simp: readTag_def tag_weight_def Let_def split: bind_splits
      dest: readByte_bounds read_tag_name_weight read_tag_value_weight)

lemma read_tags_weight:
  "read_list readTag n data off = Some (ts, off') \<Longrightarrow> off + 2 * n + sum_list (map tag_weight ts) \<le> off'"
proof (induction n arbitrary: off ts)
  case (Suc n)
  then obtain t mid us where t: "readTag data off = Some (t, mid)" "read_list readTag n data mid = Some (us, off')" "ts = t # us"
    by (auto split: bind_splits)
  show ?case using Suc.IH [OF t(2)] readTag_weight [OF t(1)] t(3) by simp
qed simp

text \<open>
  C17. Tags survive the wire: a list of at most 10000 integer and string tags, written with its
  count in front, is parsed back in full, whatever the list held before; the strings must be
  shorter than 64 KiB, since \<open>createStringTag\<close> writes their length in 16 bits.
\<close>

theorem tag_list_roundtrip:
  assumes "list_all tag_ok ts" and "length ts \<le> 10000"
  shows "parseTagList old (packUInt32 (of_nat (length ts)) @ concat (map create_tag ts)) = Some (True, map tag_of ts)"
  using assms by (rule tag_list_read)

theorem tag_list_roundtrip_witness:
  "parseTagList [] (packUInt32 3 @ createUInt32Tag 0xf9 0x12345678 @ createStringTag 0x01 [97, 98] @ createUInt64Tag 2 5) =
     Some (True, [new_tag\<lparr>tag_id := 0xf9, rawType := 0x03, valueType := UINT, intValue := 0x12345678\<rparr>,
       new_tag\<lparr>tag_id := 0x01, rawType := 0x12, valueType := STRING, stringValue := [97, 98]\<rparr>,
       new_tag\<lparr>tag_id := 2, rawType := 0x0b, valueType := UINT, intValue := 5\<rparr>])"
  using tag_list_roundtrip [of "[UInt32Tag 0xf9 0x12345678, StringTag 0x01 [97, 98], UInt64Tag 2 5]" "[]"] by simp

text \<open>
  C29. A hostile tag list costs no more than the bytes that were sent: whatever the count in the
  payload claims, an accepted list has at most 10000 tags, each at least two bytes long, and the
  names, strings and blobs of all tags together fit into the payload.
\<close>

theorem tag_list_bounded:
  assumes "parseTagList old payload = Some (True, ts)"
  shows "length ts \<le> 10000 \<and> 4 + 2 * length ts + sum_list (map tag_weight ts) \<le> length payload"
proof -
  obtain count off off' where r: "takeUInt32 payload 0 = Some (count, off)" "\<not> count > 10000"
    "read_list readTag (unat count) payload off = Some (ts, off')" "off' = length payload"
    using assms by (auto simp: parseTagList_def split: if_splits bind_splits)
  have "off = 4" "off \<le> length payload" using takeUInt_bounds(2) [OF r(1)] by auto
  moreover have "unat count \<le> 10000" using r(2) by (simp add: word_less_nat_alt)
  ultimately show ?thesis
    using read_tags_weight [OF r(3)] tags.list_bounds [OF r(3)] r(4) by auto
qed

theorem tag_list_bounded_witness:
  "(\<exists>ts. parseTagList [] (packUInt32 1 @ createStringTag 7 [1, 2, 3]) = Some (True, ts) \<and> length ts \<le> 10000 \<and>
     4 + 2 * length ts + sum_list (map tag_weight ts) \<le> 9)"
proof -
  have e: "parseTagList [] (packUInt32 1 @ createStringTag 7 [1, 2, 3]) = Some (True, map tag_of [StringTag 7 [1, 2, 3]])"
    using tag_list_read [of "[StringTag 7 [1, 2, 3]]" "[]"] by simp
  show ?thesis
    using e tag_list_bounded [OF e] by (intro exI [of _ "map tag_of [StringTag 7 [1, 2, 3]]"])
      (simp add: createStringTag_def createTagHeader_def)
qed

end
