(* ===== verification/Peer_Protocol.thy ===== *)
theory Peer_Protocol
  imports Packet
begin

unbundle bit_operations_syntax

text \<open>
  The messages eD2k clients exchange (\<open>ed2k/PeerProtocol.cc\<close>): file status, hash sets, part
  requests, queue ranks, source exchange, multipackets, the eMule info and hello handshakes, and
  the UDP re-ask messages, each writer and each parser.

  Out-parameters are passed in and come back with the result, so that a parser that returns
  false after having written to them shows it. \<open>None\<close> is a thrown \<open>ProtocolError\<close>.
\<close>

section \<open>Data\<close>

definition SOURCE_EXCHANGE2_VERSION :: byte where
  "SOURCE_EXCHANGE2_VERSION = 4"

record part_range =
  pr_begin :: int
  pr_end :: int

record source_entry =
  se_endpoint :: endpoint
  se_server :: endpoint
  se_userHash :: "byte list"
  se_cryptOptions :: byte

definition new_source_entry :: source_entry where
  "new_source_entry = \<lparr>se_endpoint = new_endpoint, se_server = new_endpoint, se_userHash = [], se_cryptOptions = 0\<rparr>"

record source_answer =
  sa_version :: byte
  sa_entries :: "source_entry list"

record source_request =
  sr_opcode :: byte
  sr_payload :: "byte list"

record misc_options =
  aichVersion :: byte
  unicode :: bool
  udpVersion :: byte
  dataCompressionVersion :: byte
  secureIdentVersion :: byte
  sourceExchange1Version :: byte
  extendedRequestsVersion :: byte
  multiPacket :: bool

definition new_misc_options :: misc_options where
  "new_misc_options = \<lparr>aichVersion = 0, unicode = False, udpVersion = 0, dataCompressionVersion = 0,
     secureIdentVersion = 0, sourceExchange1Version = 0, extendedRequestsVersion = 0, multiPacket = False\<rparr>"

record misc_options2 =
  kadVersion :: byte
  supportsLargeFiles :: bool
  supportsExtendedMultipacket :: bool
  supportsSourceExchange2 :: bool
  supportsCryptLayer :: bool
  requestsCryptLayer :: bool
  requiresCryptLayer :: bool
  supportsDirectCallback :: bool

definition new_misc_options2 :: misc_options2 where
  "new_misc_options2 = \<lparr>kadVersion = 0, supportsLargeFiles = False, supportsExtendedMultipacket = False,
     supportsSourceExchange2 = False, supportsCryptLayer = False, requestsCryptLayer = False,
     requiresCryptLayer = False, supportsDirectCallback = False\<rparr>"

record peer_info =
  pi_userHash :: "byte list"
  pi_version :: byte
  pi_protocolVersion :: byte
  udpPort :: "16 word"
  miscOptions :: misc_options
  miscOptions2 :: misc_options2

definition new_peer_info :: peer_info where
  "new_peer_info = \<lparr>pi_userHash = [], pi_version = 0, pi_protocolVersion = 0, udpPort = 0,
     miscOptions = new_misc_options, miscOptions2 = new_misc_options2\<rparr>"

record udp_reask =
  ur_fileHash :: "byte list"
  ur_partStatus :: "bool list"
  ur_completeSources :: "16 word"
  ur_hasCompleteSources :: bool

record udp_reask_ack =
  ua_bitfield :: "bool list"
  ua_rank :: "16 word"

record multipacket_answer =
  hasFileName :: bool
  fileName :: "byte list"
  hasFileStatus :: bool
  ma_partStatus :: "bool list"
  completeSource :: bool
  hasAichRootHash :: bool
  aichRootHash :: "byte list"

definition new_multipacket_answer :: multipacket_answer where
  "new_multipacket_answer = \<lparr>hasFileName = False, fileName = [], hasFileStatus = False, ma_partStatus = [],
     completeSource = False, hasAichRootHash = False, aichRootHash = []\<rparr>"

section \<open>Helpers\<close>

definition validateHashLength :: "byte list \<Rightarrow> unit option" where
  "validateHashLength hash = (if length hash \<noteq> HASH_LENGTH then None else Some ())"

definition emuleMiscOptionsValue :: "misc_options \<Rightarrow> 32 word" where
  "emuleMiscOptionsValue opts =
     push_bit 29 (ucast (aichVersion opts) AND 0x07) OR push_bit 28 (of_bool (unicode opts)) OR
     push_bit 24 (ucast (udpVersion opts) AND 0x0f) OR push_bit 20 (ucast (dataCompressionVersion opts) AND 0x0f) OR
     push_bit 16 (ucast (secureIdentVersion opts) AND 0x0f) OR
     push_bit 12 (ucast (sourceExchange1Version opts) AND 0x0f) OR
     push_bit 8 (ucast (extendedRequestsVersion opts) AND 0x0f) OR push_bit 1 (of_bool (multiPacket opts))"

definition parseEmuleMiscOptions :: "32 word \<Rightarrow> misc_options" where
  "parseEmuleMiscOptions v =
     \<lparr>aichVersion = ucast (drop_bit 29 v AND 0x07), unicode = (drop_bit 28 v AND 0x01 \<noteq> 0),
      udpVersion = ucast (drop_bit 24 v AND 0x0f), dataCompressionVersion = ucast (drop_bit 20 v AND 0x0f),
      secureIdentVersion = ucast (drop_bit 16 v AND 0x0f),
      sourceExchange1Version = ucast (drop_bit 12 v AND 0x0f),
      extendedRequestsVersion = ucast (drop_bit 8 v AND 0x0f), multiPacket = (drop_bit 1 v AND 0x01 \<noteq> 0)\<rparr>"

definition emuleMiscOptions2Value :: "misc_options2 \<Rightarrow> 32 word" where
  "emuleMiscOptions2Value opts =
     (ucast (kadVersion opts) AND 0x0f) OR push_bit 4 (of_bool (supportsLargeFiles opts)) OR
     push_bit 5 (of_bool (supportsExtendedMultipacket opts)) OR push_bit 7 (of_bool (supportsCryptLayer opts)) OR
     push_bit 8 (of_bool (requestsCryptLayer opts)) OR push_bit 9 (of_bool (requiresCryptLayer opts)) OR
     push_bit 10 (of_bool (supportsSourceExchange2 opts)) OR push_bit 12 (of_bool (supportsDirectCallback opts))"

definition parseEmuleMiscOptions2 :: "32 word \<Rightarrow> misc_options2" where
  "parseEmuleMiscOptions2 v =
     (let crypt = (drop_bit 7 v AND 0x01 \<noteq> 0); requests = (crypt \<and> drop_bit 8 v AND 0x01 \<noteq> 0)
      in \<lparr>kadVersion = ucast (v AND 0x0f), supportsLargeFiles = (drop_bit 4 v AND 0x01 \<noteq> 0),
          supportsExtendedMultipacket = (drop_bit 5 v AND 0x01 \<noteq> 0),
          supportsSourceExchange2 = (drop_bit 10 v AND 0x01 \<noteq> 0), supportsCryptLayer = crypt,
          requestsCryptLayer = requests, requiresCryptLayer = (requests \<and> drop_bit 9 v AND 0x01 \<noteq> 0),
          supportsDirectCallback = (drop_bit 12 v AND 0x01 \<noteq> 0)\<rparr>)"

text \<open>
  Bit fields are written and read bit by bit; \<open>flag\<close> is the bit of its byte that stands for an
  index, from the low end in part status and from the high end in the UDP acknowledgement.
\<close>

definition low_first :: "nat \<Rightarrow> byte" where
  "low_first k = push_bit k 1"

definition high_first :: "nat \<Rightarrow> byte" where
  "high_first k = drop_bit k 0x80"

definition put_bits :: "(nat \<Rightarrow> byte) \<Rightarrow> bool list \<Rightarrow> nat \<Rightarrow> byte list \<Rightarrow> byte list" where
  "put_bits flag bitfield dataOffset payload =
     foldl (\<lambda>p i. if bitfield ! i
                  then p[dataOffset + i div 8 := p ! (dataOffset + i div 8) OR flag (i mod 8)] else p)
       payload [0..<length bitfield]"

definition get_bits :: "(nat \<Rightarrow> byte) \<Rightarrow> nat \<Rightarrow> byte list \<Rightarrow> bool list" where
  "get_bits flag bitCount raw = map (\<lambda>i. raw ! (i div 8) AND flag (i mod 8) \<noteq> 0) [0..<bitCount]"

definition appendPartStatus :: "byte list \<Rightarrow> bool list \<Rightarrow> byte list option" where
  "appendPartStatus payload bitfield =
     (if length bitfield > 65535 then None
      else let payload = payload @ packUInt16 (of_nat (length bitfield));
               payload = payload @ replicate ((length bitfield + 7) div 8) 0;
               dataOffset = length payload - (length bitfield + 7) div 8
           in Some (put_bits low_first bitfield dataOffset payload))"

definition readPartStatus :: "bool list \<Rightarrow> byte list \<Rightarrow> nat \<Rightarrow> (bool \<times> bool list \<times> nat) option" where
  "readPartStatus bitfield payload off =
     (if off + 2 > length payload then Some (False, bitfield, off)
      else do {
        (bitCount, off) \<leftarrow> takeUInt16 payload off;
        let byteCount = (unat bitCount + 7) div 8;
        if off + byteCount > length payload then Some (False, bitfield, off)
        else do {
          (raw, off) \<leftarrow> readBytes payload off byteCount;
          Some (True, get_bits low_first (unat bitCount) raw, off)
        }
      })"

definition readUInt16String :: "byte list \<Rightarrow> nat \<Rightarrow> (byte list \<times> nat) option" where
  "readUInt16String payload off = do {
     (n, off) \<leftarrow> takeUInt16 payload off;
     readBytes payload off (unat n)
   }"

section \<open>Messages about a file\<close>

definition createFileStatusPayload :: "byte list \<Rightarrow> bool list \<Rightarrow> byte list option" where
  "createFileStatusPayload fileHash bitfield = do {
     validateHashLength fileHash;
     appendPartStatus fileHash bitfield
   }"

definition parseFileStatusPayload :: "bool list \<Rightarrow> byte list \<Rightarrow> byte list \<Rightarrow> (bool \<times> bool list) option" where
  "parseFileStatusPayload bitfield payload expectedFileHash = do {
     validateHashLength expectedFileHash;
     (hash, off) \<leftarrow> readBytes payload 0 HASH_LENGTH;
     if hash \<noteq> expectedFileHash then Some (False, bitfield)
     else do {
       (ok, bitfield, off) \<leftarrow> readPartStatus bitfield payload off;
       Some (ok \<and> off = length payload, bitfield)
     }
   }"

definition parseFileStatusPayload_count ::
  "bool list \<Rightarrow> byte list \<Rightarrow> byte list \<Rightarrow> nat \<Rightarrow> (bool \<times> bool list) option" where
  "parseFileStatusPayload_count bitfield payload expectedFileHash expectedPartCount = do {
     (ok, bitfield) \<leftarrow> parseFileStatusPayload bitfield payload expectedFileHash;
     if \<not> ok then Some (False, bitfield)
     else let bitfield = (if bitfield = [] \<and> expectedPartCount > 0 then replicate expectedPartCount True else bitfield)
          in Some (bitfield = [] \<or> length bitfield = expectedPartCount, bitfield)
   }"

definition parsePartStatusPayload :: "bool list \<Rightarrow> byte list \<Rightarrow> nat \<Rightarrow> (bool \<times> bool list \<times> nat) option" where
  "parsePartStatusPayload bitfield payload off = readPartStatus bitfield payload off"

definition createHashSetAnswerPayload :: "byte list \<Rightarrow> byte list list \<Rightarrow> byte list option" where
  "createHashSetAnswerPayload fileHash pieceHashes = do {
     validateHashLength fileHash;
     if length pieceHashes > 65535 then None
     else do {
       hashes \<leftarrow> write_list (\<lambda>hash. do { validateHashLength hash; Some hash }) pieceHashes;
       Some (fileHash @ packUInt16 (of_nat (length pieceHashes)) @ hashes)
     }
   }"

definition parseHashSetAnswerPayload ::
  "byte list list \<Rightarrow> byte list \<Rightarrow> byte list \<Rightarrow> (bool \<times> byte list list) option" where
  "parseHashSetAnswerPayload pieceHashes payload expectedFileHash = do {
     validateHashLength expectedFileHash;
     (hash, off) \<leftarrow> readBytes payload 0 HASH_LENGTH;
     if hash \<noteq> expectedFileHash then Some (False, pieceHashes)
     else do {
       (count, off) \<leftarrow> takeUInt16 payload off;
       (pieceHashes, off) \<leftarrow> read_list (\<lambda>data off. readBytes data off HASH_LENGTH) (unat count) payload off;
       Some (True, pieceHashes)
     }
   }"

text \<open>One offset of a part request, 32 or 64 bits wide; a value out of range throws.\<close>

definition pack_offset :: "bool \<Rightarrow> int \<Rightarrow> byte list" where
  "pack_offset use64BitOffsets v = (if use64BitOffsets then packUInt64 (of_int v) else packUInt32 (of_int v))"

definition offset_bad :: "bool \<Rightarrow> int \<Rightarrow> bool" where
  "offset_bad use64BitOffsets v \<longleftrightarrow> v < 0 \<or> \<not> use64BitOffsets \<and> v > 2 ^ 32 - 1"

definition createRequestPartsPayload :: "byte list \<Rightarrow> part_range list \<Rightarrow> bool \<Rightarrow> byte list option" where
  "createRequestPartsPayload fileHash ranges use64BitOffsets = do {
     validateHashLength fileHash;
     if length ranges > 3 then None
     else do {
       begins \<leftarrow> write_list (\<lambda>i.
         let v = (if i < length ranges then pr_begin (ranges ! i) else 0)
         in if offset_bad use64BitOffsets v then None else Some (pack_offset use64BitOffsets v)) [0..<3];
       ends \<leftarrow> write_list (\<lambda>i.
         let v = (if i < length ranges then pr_end (ranges ! i) else 0)
         in if offset_bad use64BitOffsets v \<or> i < length ranges \<and> v \<le> pr_begin (ranges ! i) then None
            else Some (pack_offset use64BitOffsets v)) [0..<3];
       Some (fileHash @ begins @ ends)
     }
   }"

definition createQueueRankPayload :: "32 word \<Rightarrow> byte list" where
  "createQueueRankPayload rank = packUInt32 rank"

definition parseQueueRankPayload :: "16 word \<Rightarrow> byte list \<Rightarrow> bool \<times> 16 word" where
  "parseQueueRankPayload rank payload =
     (if length payload = 2 then (True, readUInt16 payload)
      else if length payload = 4 then
        let v = readUInt32 payload in if v > 65535 then (False, rank) else (True, ucast v)
      else (False, rank))"

section \<open>Source exchange and multipackets\<close>

definition OP_REQUESTSOURCES :: byte where
  "OP_REQUESTSOURCES = 0x81"

definition OP_REQUESTSOURCES2 :: byte where
  "OP_REQUESTSOURCES2 = 0x83"

definition OP_REQUESTFILENAME :: byte where
  "OP_REQUESTFILENAME = 0x58"

definition OP_REQFILENAMEANSWER :: byte where
  "OP_REQFILENAMEANSWER = 0x59"

definition OP_SETREQFILEID :: byte where
  "OP_SETREQFILEID = 0x4f"

definition OP_FILESTATUS :: byte where
  "OP_FILESTATUS = 0x50"

definition OP_AICHFILEHASHANS :: byte where
  "OP_AICHFILEHASHANS = 0x9d"

definition OP_AICHFILEHASHREQ :: byte where
  "OP_AICHFILEHASHREQ = 0x9e"

definition createRequestSources2Payload :: "byte list \<Rightarrow> byte list option" where
  "createRequestSources2Payload fileHash = do {
     validateHashLength fileHash;
     Some ([SOURCE_EXCHANGE2_VERSION] @ packUInt16 0 @ fileHash)
   }"

definition createRequestSourcesPayload :: "byte list \<Rightarrow> peer_info \<Rightarrow> source_request option" where
  "createRequestSourcesPayload fileHash peerInfo =
     (if supportsSourceExchange2 (miscOptions2 peerInfo) then do {
        payload \<leftarrow> createRequestSources2Payload fileHash;
        Some \<lparr>sr_opcode = OP_REQUESTSOURCES2, sr_payload = payload\<rparr>
      } else if sourceExchange1Version (miscOptions peerInfo) > 1 then
        Some \<lparr>sr_opcode = OP_REQUESTSOURCES, sr_payload = fileHash\<rparr>
      else Some \<lparr>sr_opcode = 0, sr_payload = []\<rparr>)"

definition parseRequestSources2Payload :: "byte \<Rightarrow> byte list \<Rightarrow> byte list \<Rightarrow> (bool \<times> byte) option" where
  "parseRequestSources2Payload version payload expectedFileHash = do {
     validateHashLength expectedFileHash;
     if length payload = HASH_LENGTH then Some (payload = expectedFileHash, 1)
     else if length payload \<noteq> HASH_LENGTH + 3 then Some (False, version)
     else do {
       (parsedVersion, off) \<leftarrow> readByte payload 0;
       (_, off) \<leftarrow> takeUInt16 payload off;
       (hash, off) \<leftarrow> readBytes payload off HASH_LENGTH;
       if parsedVersion = 0 \<or> parsedVersion > SOURCE_EXCHANGE2_VERSION \<or> hash \<noteq> expectedFileHash
       then Some (False, version)
       else Some (True, parsedVersion)
     }
   }"

definition createMultipacketFileRequestPayload ::
  "byte list \<Rightarrow> int \<Rightarrow> bool list \<Rightarrow> peer_info \<Rightarrow> bool \<Rightarrow> byte list option" where
  "createMultipacketFileRequestPayload fileHash fileSize localPartStatus peerInfo extendedMultipacket = do {
     validateHashLength fileHash;
     if fileSize < 0 then None
     else do {
       let payload = fileHash;
       let payload = (if extendedMultipacket then payload @ packUInt64 (of_int fileSize) else payload);
       let payload = payload @ [OP_REQUESTFILENAME];
       payload \<leftarrow> (if extendedRequestsVersion (miscOptions peerInfo) > 0
                  then appendPartStatus payload localPartStatus else Some payload);
       let payload = (if extendedRequestsVersion (miscOptions peerInfo) > 1
                      then payload @ packUInt16 0 else payload);
       let payload = (if length localPartStatus > 1 then payload @ [OP_SETREQFILEID] else payload);
       let payload = (if supportsSourceExchange2 (miscOptions2 peerInfo)
                      then payload @ [OP_REQUESTSOURCES2, SOURCE_EXCHANGE2_VERSION] @ packUInt16 0
                      else if sourceExchange1Version (miscOptions peerInfo) > 1
                      then payload @ [OP_REQUESTSOURCES] else payload);
       Some (if aichVersion (miscOptions peerInfo) > 0 then payload @ [OP_AICHFILEHASHREQ] else payload)
     }
   }"

text \<open>One record of a multipacket answer; \<open>None\<close> inside stands for \<open>return false\<close>.\<close>

definition multipacket_record ::
  "byte list \<Rightarrow> nat \<Rightarrow> multipacket_answer \<Rightarrow> (multipacket_answer \<times> nat) option option" where
  "multipacket_record payload off parsed = do {
     (opcode, off) \<leftarrow> readByte payload off;
     if opcode = OP_REQFILENAMEANSWER then do {
       (name, off) \<leftarrow> readUInt16String payload off;
       Some (Some (parsed\<lparr>fileName := name, hasFileName := True\<rparr>, off))
     } else if opcode = OP_FILESTATUS then do {
       (ok, status, off) \<leftarrow> readPartStatus (ma_partStatus parsed) payload off;
       if \<not> ok then Some None
       else let parsed = parsed\<lparr>ma_partStatus := status\<rparr>;
                parsed = (if status = [] then parsed\<lparr>completeSource := True\<rparr> else parsed)
            in Some (Some (parsed\<lparr>hasFileStatus := True\<rparr>, off))
     } else if opcode = OP_AICHFILEHASHANS then
       (if off + 20 > length payload then Some None
        else do {
          (root, off) \<leftarrow> readBytes payload off 20;
          Some (Some (parsed\<lparr>aichRootHash := root, hasAichRootHash := True\<rparr>, off))
        })
     else Some None
   }"

lemma readPartStatus_bounds:
  "readPartStatus bitfield payload off = Some (True, bs, off') \<Longrightarrow> off + 2 \<le> off' \<and> off' \<le> length payload"
  by (auto simp: readPartStatus_def Let_def split: if_splits bind_splits
      dest!: takeUInt_bounds readBytes_bounds)

lemma multipacket_record_bounds:
  "multipacket_record payload off parsed = Some (Some (parsed', off')) \<Longrightarrow> off < off' \<and> off' \<le> length payload"
  by (auto simp: multipacket_record_def readUInt16String_def Let_def split: if_splits bind_splits
      dest!: readByte_bounds readBytes_bounds takeUInt_bounds readPartStatus_bounds)

text \<open>The loop over the records; every record is at least one byte long, so it ends.\<close>

function multipacket_loop ::
  "byte list \<Rightarrow> nat \<Rightarrow> multipacket_answer \<Rightarrow> multipacket_answer option option" where
  "multipacket_loop payload off parsed =
     (if off \<ge> length payload then Some (Some parsed)
      else case multipacket_record payload off parsed of
          None \<Rightarrow> None
        | Some None \<Rightarrow> Some None
        | Some (Some (parsed', off')) \<Rightarrow> multipacket_loop payload off' parsed')"
  by pat_completeness auto
termination
  by (relation "measure (\<lambda>(payload, off, _). length payload - off)")
    (auto dest!: multipacket_record_bounds)

declare multipacket_loop.simps [simp del]

definition parseMultipacketAnswerPayload ::
  "multipacket_answer \<Rightarrow> byte list \<Rightarrow> byte list \<Rightarrow> (bool \<times> multipacket_answer) option" where
  "parseMultipacketAnswerPayload answer payload expectedFileHash = do {
     validateHashLength expectedFileHash;
     if length payload < HASH_LENGTH \<or> take HASH_LENGTH payload \<noteq> expectedFileHash then Some (False, answer)
     else do {
       parsed \<leftarrow> multipacket_loop payload HASH_LENGTH new_multipacket_answer;
       Some (case parsed of None \<Rightarrow> (False, answer) | Some parsed \<Rightarrow> (True, parsed))
     }
   }"

text \<open>The body of the loops over source entries.\<close>

definition write_source :: "byte \<Rightarrow> source_entry \<Rightarrow> byte list option" where
  "write_source version entry = do {
     a \<leftarrow> packEndpoint (se_endpoint entry);
     b \<leftarrow> packEndpoint (se_server entry);
     c \<leftarrow> (if version \<ge> 2 then do { validateHashLength (se_userHash entry); Some (se_userHash entry) } else Some []);
     Some (a @ b @ c @ (if version \<ge> 4 then [se_cryptOptions entry] else []))
   }"

definition createAnswerSourcesPayload :: "byte list \<Rightarrow> byte \<Rightarrow> source_entry list \<Rightarrow> byte list option" where
  "createAnswerSourcesPayload fileHash version entries = do {
     validateHashLength fileHash;
     if version = 0 \<or> version > SOURCE_EXCHANGE2_VERSION then None
     else if length entries > 500 then None
     else do {
       body \<leftarrow> write_list (write_source version) entries;
       Some (fileHash @ packUInt16 (of_nat (length entries)) @ body)
     }
   }"

definition createAnswerSources2Payload_version ::
  "byte list \<Rightarrow> byte \<Rightarrow> source_entry list \<Rightarrow> byte list option" where
  "createAnswerSources2Payload_version fileHash version entries = do {
     validateHashLength fileHash;
     if version = 0 \<or> version > SOURCE_EXCHANGE2_VERSION then None
     else if length entries > 500 then None
     else do {
       body \<leftarrow> write_list (write_source version) entries;
       Some ([version] @ fileHash @ packUInt16 (of_nat (length entries)) @ body)
     }
   }"

definition createAnswerSources2Payload :: "byte list \<Rightarrow> source_entry list \<Rightarrow> byte list option" where
  "createAnswerSources2Payload fileHash entries =
     createAnswerSources2Payload_version fileHash SOURCE_EXCHANGE2_VERSION entries"

text \<open>The size of an entry in each version.\<close>

definition entry_size :: "byte \<Rightarrow> nat" where
  "entry_size version = (if version = 1 then 12 else if version < 4 then 28 else 29)"

definition read_source :: "byte \<Rightarrow> byte list \<Rightarrow> nat \<Rightarrow> (source_entry \<times> nat) option" where
  "read_source version payload off = do {
     (a, off) \<leftarrow> readEndpoint payload off;
     (b, off) \<leftarrow> readEndpoint payload off;
     let entry = new_source_entry\<lparr>se_endpoint := a, se_server := b\<rparr>;
     (entry, off) \<leftarrow> (if version \<ge> 2 then do {
         (h, off) \<leftarrow> readBytes payload off HASH_LENGTH;
         Some (entry\<lparr>se_userHash := h, se_endpoint := a\<lparr>userHash := h\<rparr>\<rparr>, off)
       } else Some (entry, off));
     if version \<ge> 4 then do {
       (c, off) \<leftarrow> readByte payload off;
       Some (entry\<lparr>se_cryptOptions := c, se_endpoint := (se_endpoint entry)\<lparr>cryptOptions := ucast c\<rparr>\<rparr>, off)
     } else Some (entry, off)
   }"

text \<open>The second form puts the user hash into the endpoint only together with the options.\<close>

definition read_source2 :: "byte \<Rightarrow> byte list \<Rightarrow> nat \<Rightarrow> (source_entry \<times> nat) option" where
  "read_source2 version payload off = do {
     (a, off) \<leftarrow> readEndpoint payload off;
     (b, off) \<leftarrow> readEndpoint payload off;
     let entry = new_source_entry\<lparr>se_endpoint := a, se_server := b\<rparr>;
     (entry, off) \<leftarrow> (if version \<ge> 2 then do {
         (h, off) \<leftarrow> readBytes payload off HASH_LENGTH;
         Some (entry\<lparr>se_userHash := h\<rparr>, off)
       } else Some (entry, off));
     if version \<ge> 4 then do {
       (c, off) \<leftarrow> readByte payload off;
       Some (entry\<lparr>se_cryptOptions := c,
         se_endpoint := (se_endpoint entry)\<lparr>cryptOptions := ucast c, userHash := se_userHash entry\<rparr>\<rparr>, off)
     } else Some (entry, off)
   }"

definition parseAnswerSourcesPayload ::
  "source_answer \<Rightarrow> byte list \<Rightarrow> byte list \<Rightarrow> byte \<Rightarrow> (bool \<times> source_answer) option" where
  "parseAnswerSourcesPayload answer payload expectedFileHash sourceExchangeVersion = do {
     validateHashLength expectedFileHash;
     if sourceExchangeVersion = 0 \<or> sourceExchangeVersion > SOURCE_EXCHANGE2_VERSION \<or>
        length payload < HASH_LENGTH + 2 then Some (False, answer)
     else do {
       (hash, off) \<leftarrow> readBytes payload 0 HASH_LENGTH;
       if hash \<noteq> expectedFileHash then Some (False, answer)
       else do {
         (count, off) \<leftarrow> takeUInt16 payload off;
         if count > 500 then Some (False, answer)
         else if length payload - off \<noteq> entry_size sourceExchangeVersion * unat count then Some (False, answer)
         else do {
           (entries, off) \<leftarrow> read_list (read_source sourceExchangeVersion) (unat count) payload off;
           Some (True, \<lparr>sa_version = sourceExchangeVersion, sa_entries = entries\<rparr>)
         }
       }
     }
   }"

definition parseAnswerSources2Payload ::
  "source_answer \<Rightarrow> byte list \<Rightarrow> byte list \<Rightarrow> (bool \<times> source_answer) option" where
  "parseAnswerSources2Payload answer payload expectedFileHash = do {
     validateHashLength expectedFileHash;
     (version, off) \<leftarrow> readByte payload 0;
     (hash, off) \<leftarrow> readBytes payload off HASH_LENGTH;
     if hash \<noteq> expectedFileHash \<or> version = 0 \<or> version > SOURCE_EXCHANGE2_VERSION then Some (False, answer)
     else do {
       (count, off) \<leftarrow> takeUInt16 payload off;
       if count > 500 then Some (False, answer)
       else if length payload - off \<noteq> entry_size version * unat count then Some (False, answer)
       else do {
         (entries, off) \<leftarrow> read_list (read_source2 version) (unat count) payload off;
         Some (True, \<lparr>sa_version = version, sa_entries = entries\<rparr>)
       }
     }
   }"

section \<open>Handshakes\<close>

definition createEmuleInfoPayload :: "peer_info \<Rightarrow> byte list" where
  "createEmuleInfoPayload info =
     [pi_version info, pi_protocolVersion info] @ packUInt32 9 @
     createUInt32Tag 0x20 (ucast (dataCompressionVersion (miscOptions info))) @
     createUInt32Tag 0x21 (ucast (udpPort info)) @
     createUInt32Tag 0x22 (ucast (udpVersion (miscOptions info))) @
     createUInt32Tag 0x23 (ucast (sourceExchange1Version (miscOptions info))) @
     createUInt32Tag 0x24 0 @
     createUInt32Tag 0x25 (ucast (extendedRequestsVersion (miscOptions info))) @
     createUInt32Tag 0x26 0x03 @
     createUInt32Tag 0x27 (ucast (secureIdentVersion (miscOptions info)) AND 0x03) @
     createStringTag 0x55 (map of_char ''aria2-next'')"

text \<open>What the loop over the tags does with one of them.\<close>

definition emule_info_tag :: "tag \<Rightarrow> peer_info \<Rightarrow> peer_info" where
  "emule_info_tag t info =
     (let v = intValue t; m = miscOptions info
      in if valueType t \<noteq> UINT then info
         else if tag_id t = 0x20 then info\<lparr>miscOptions := m\<lparr>dataCompressionVersion := ucast (v AND 0xff)\<rparr>\<rparr>
         else if tag_id t = 0x21 then info\<lparr>udpPort := ucast (v AND 0xffff)\<rparr>
         else if tag_id t = 0x22 then info\<lparr>miscOptions := m\<lparr>udpVersion := ucast (v AND 0xff)\<rparr>\<rparr>
         else if tag_id t = 0x23 then info\<lparr>miscOptions := m\<lparr>sourceExchange1Version := ucast (v AND 0xff)\<rparr>\<rparr>
         else if tag_id t = 0x25 then info\<lparr>miscOptions := m\<lparr>extendedRequestsVersion := ucast (v AND 0xff)\<rparr>\<rparr>
         else if tag_id t = 0x27 then info\<lparr>miscOptions := m\<lparr>secureIdentVersion := ucast (v AND 0x03)\<rparr>\<rparr>
         else if tag_id t = 0xfa then info\<lparr>miscOptions := parseEmuleMiscOptions (ucast v)\<rparr>
         else if tag_id t = 0xfe then info\<lparr>miscOptions2 := parseEmuleMiscOptions2 (ucast v)\<rparr>
         else info)"

definition parseEmuleInfoPayload :: "peer_info \<Rightarrow> byte list \<Rightarrow> (bool \<times> peer_info) option" where
  "parseEmuleInfoPayload info payload =
     (if length payload < 6 then Some (False, info)
      else do {
        let info = info\<lparr>pi_version := payload ! 0, pi_protocolVersion := payload ! 1\<rparr>;
        (ok, tags) \<leftarrow> parseTagList [] (drop 2 payload);
        if \<not> ok then Some (False, info) else Some (True, fold emule_info_tag tags info)
      })"

definition createLocalEmulePeerInfo :: peer_info where
  "createLocalEmulePeerInfo = new_peer_info\<lparr>pi_version := 0x3c, pi_protocolVersion := 0x01,
     miscOptions := new_misc_options\<lparr>aichVersion := 1, unicode := True, dataCompressionVersion := 1,
       sourceExchange1Version := 3, extendedRequestsVersion := 2, multiPacket := True\<rparr>,
     miscOptions2 := new_misc_options2\<lparr>kadVersion := 0x08, supportsLargeFiles := True,
       supportsExtendedMultipacket := True, supportsSourceExchange2 := True, supportsCryptLayer := True,
       requestsCryptLayer := True\<rparr>\<rparr>"

definition createPeerHelloPayload ::
  "byte list \<Rightarrow> 32 word \<Rightarrow> 16 word \<Rightarrow> endpoint \<Rightarrow> byte list \<Rightarrow> peer_info \<Rightarrow> bool \<Rightarrow> byte list option" where
  "createPeerHelloPayload clientHash clientId listenPort server clientName info helloPacket = do {
     validateHashLength clientHash;
     address \<leftarrow> (if host server = [] \<or> port server = 0 then Some (replicate 6 0) else packEndpoint server);
     Some ((if helloPacket then [of_nat HASH_LENGTH] else []) @ clientHash @ packUInt32 clientId @
       packUInt16 listenPort @ packUInt32 7 @
       createStringTag 0x01 clientName @
       createUInt32Tag 0x11 0x3c @
       createUInt32Tag 0xf9 (push_bit 16 (ucast (udpPort info)) OR ucast (udpPort info)) @
       createUInt32Tag 0xfb (push_bit 24 0x03 OR push_bit 17 3) @
       createUInt32Tag 0xfa (emuleMiscOptionsValue (miscOptions info)) @
       createUInt32Tag 0xfe (emuleMiscOptions2Value (miscOptions2 info)) @
       createUInt32Tag 0xef 1 @ address)
   }"

definition hello_tag :: "tag \<Rightarrow> peer_info \<Rightarrow> peer_info" where
  "hello_tag t info =
     (let v = intValue t
      in if valueType t \<noteq> UINT then info
         else if tag_id t = 0xfa then info\<lparr>miscOptions := parseEmuleMiscOptions (ucast v)\<rparr>
         else if tag_id t = 0xfe then info\<lparr>miscOptions2 := parseEmuleMiscOptions2 (ucast v)\<rparr>
         else if tag_id t = 0xf9 then info\<lparr>udpPort := ucast (v AND 0xffff)\<rparr>
         else if tag_id t = 0x21 then info\<lparr>udpPort := ucast (v AND 0xffff)\<rparr>
         else if tag_id t = 0x22 then info\<lparr>miscOptions := (miscOptions info)\<lparr>udpVersion := ucast (v AND 0xff)\<rparr>\<rparr>
         else info)"

definition parsePeerHelloPayload :: "peer_info \<Rightarrow> byte list \<Rightarrow> bool \<Rightarrow> (bool \<times> peer_info) option" where
  "parsePeerHelloPayload info payload helloPacket = do {
     let prefixSize = (if helloPacket then 1 else 0);
     let fixedSize = prefixSize + HASH_LENGTH + 4 + 2 + 6;
     if length payload < fixedSize then Some (False, info)
     else do {
       (hash, off) \<leftarrow> readBytes payload prefixSize HASH_LENGTH;
       let info = info\<lparr>pi_userHash := hash\<rparr>;
       let off = off + (4 + 2);
       let serverOffset = length payload - 6;
       if off > serverOffset then Some (False, info)
       else do {
         (ok, tags) \<leftarrow> parseTagList [] (take (serverOffset - off) (drop off payload));
         if \<not> ok then Some (False, info) else Some (True, fold hello_tag tags info)
       }
     }
   }"

definition parsePeerHelloUserHash :: "byte list \<Rightarrow> byte list \<Rightarrow> bool \<Rightarrow> bool \<times> byte list" where
  "parsePeerHelloUserHash hash payload helloPacket =
     (let off = (if helloPacket then 1 else 0)
      in if length payload < off + HASH_LENGTH then (False, hash) else (True, take HASH_LENGTH (drop off payload)))"

section \<open>UDP re-asks\<close>

definition createUdpReaskFilePingPayload :: "byte list \<Rightarrow> 16 word \<Rightarrow> byte list option" where
  "createUdpReaskFilePingPayload fileHash completeSources = do {
     validateHashLength fileHash;
     Some (fileHash @ packUInt16 completeSources)
   }"

definition createUdpReaskFilePingPayload_status :: "byte list \<Rightarrow> bool list \<Rightarrow> 16 word \<Rightarrow> byte list option" where
  "createUdpReaskFilePingPayload_status fileHash partStatus completeSources = do {
     validateHashLength fileHash;
     payload \<leftarrow> appendPartStatus fileHash partStatus;
     Some (payload @ packUInt16 completeSources)
   }"

text \<open>The last two bytes of a ping, when they are there.\<close>

definition ping_sources :: "byte list \<Rightarrow> nat \<Rightarrow> udp_reask \<Rightarrow> (udp_reask \<times> nat) option" where
  "ping_sources payload off parsed = do {
     (n, off) \<leftarrow> takeUInt16 payload off;
     Some (parsed\<lparr>ur_completeSources := n, ur_hasCompleteSources := True\<rparr>, off)
   }"

definition parseUdpReaskFilePingPayload :: "udp_reask \<Rightarrow> byte list \<Rightarrow> (bool \<times> udp_reask) option" where
  "parseUdpReaskFilePingPayload reask payload =
     (if length payload < HASH_LENGTH then Some (False, reask)
      else do {
        (hash, off) \<leftarrow> readBytes payload 0 HASH_LENGTH;
        let parsed = \<lparr>ur_fileHash = hash, ur_partStatus = [], ur_completeSources = 0, ur_hasCompleteSources = False\<rparr>;
        r \<leftarrow> (if length payload = HASH_LENGTH + 2 then do { (parsed, off) \<leftarrow> ping_sources payload off parsed; Some (Some (parsed, off)) }
            else if off < length payload then do {
              (ok, status, off) \<leftarrow> parsePartStatusPayload [] payload off;
              if \<not> ok \<or> length payload - off > 2 then Some None
              else let parsed = parsed\<lparr>ur_partStatus := status\<rparr>
                   in if length payload - off = 2
                      then do { (parsed, off) \<leftarrow> ping_sources payload off parsed; Some (Some (parsed, off)) }
                      else Some (Some (parsed, off))
            } else Some (Some (parsed, off)));
        Some (case r of None \<Rightarrow> (False, reask)
              | Some (parsed, off) \<Rightarrow> if off \<noteq> length payload then (False, reask) else (True, parsed))
      })"

definition createUdpReaskAckPayload :: "16 word \<Rightarrow> byte list" where
  "createUdpReaskAckPayload rank = packUInt16 rank"

definition createUdpReaskAckPayload_status :: "bool list \<Rightarrow> 16 word \<Rightarrow> byte list option" where
  "createUdpReaskAckPayload_status bitfield rank =
     (if length bitfield > 65535 then None
      else let payload = packUInt16 (of_nat (length bitfield)) @ replicate ((length bitfield + 7) div 8) 0
           in Some (put_bits high_first bitfield 2 payload @ packUInt16 rank))"

definition parseUdpReaskAckPayload :: "udp_reask_ack \<Rightarrow> byte list \<Rightarrow> (bool \<times> udp_reask_ack) option" where
  "parseUdpReaskAckPayload ack payload =
     (if length payload \<noteq> 2 \<and> length payload < 4 then Some (False, ack)
      else do {
        r \<leftarrow> (if length payload > 2 then do {
              (bitCount, off) \<leftarrow> takeUInt16 payload 0;
              let byteCount = (unat bitCount + 7) div 8;
              if length payload - off \<noteq> byteCount + 2 then Some None
              else do {
                (raw, off) \<leftarrow> readBytes payload off byteCount;
                Some (Some (get_bits high_first (unat bitCount) raw, off))
              }
            } else Some (Some ([], 0)));
        case r of None \<Rightarrow> Some (False, ack)
        | Some (bitfield, off) \<Rightarrow> do {
            (rank, _) \<leftarrow> takeUInt16 payload off;
            Some (True, \<lparr>ua_bitfield = bitfield, ua_rank = rank\<rparr>)
          }
      })"

end
