(* ===== verification/Peer_Messages.thy ===== *)
theory Peer_Messages
  imports Peer_Protocol
begin

unbundle bit_operations_syntax

text \<open>
  What the client messages carry: each parser recovers what the matching writer put into the
  payload. Bit fields are treated once for both bit orders, in the locale \<open>bit_order\<close>; source
  lists and hash sets are sequences of \<open>codec\<close> values.
\<close>

section \<open>Bit fields\<close>

locale bit_order =
  fixes flag :: "nat \<Rightarrow> byte"
  assumes flag_disjoint: "i < 8 \<Longrightarrow> j < 8 \<Longrightarrow> (flag i AND flag j \<noteq> 0) = (i = j)"
begin

lemma put_step:
  assumes "i div 8 < length p"
  shows "p[k div 8 := p ! (k div 8) OR flag (k mod 8)] ! (i div 8) AND flag (i mod 8) \<noteq> 0 \<longleftrightarrow>
    i = k \<or> p ! (i div 8) AND flag (i mod 8) \<noteq> 0"
proof (cases "i div 8 = k div 8")
  case True
  have "i mod 8 = k mod 8 \<longleftrightarrow> i = k" using True by (metis div_mult_mod_eq)
  then have "flag (k mod 8) AND flag (i mod 8) = 0 \<longleftrightarrow> i \<noteq> k" using flag_disjoint [of "k mod 8" "i mod 8"] by auto
  then show ?thesis using True assms by (auto simp: bit.conj_disj_distrib2 or_eq_0_iff)
qed (use assms in auto)

lemma put_bits_inv:
  assumes "k \<le> length bits" and "length bits \<le> 8 * n"
  shows "let p = foldl (\<lambda>p i. if bits ! i then p[i div 8 := p ! (i div 8) OR flag (i mod 8)] else p)
               (replicate n 0) [0..<k]
    in length p = n \<and> (\<forall>i < length bits. (p ! (i div 8) AND flag (i mod 8) \<noteq> 0) = (i < k \<and> bits ! i))"
  using assms(1)
proof (induction k)
  case 0
  have "i div 8 < n" if "i < length bits" for i using that assms(2) by (simp add: less_mult_imp_div_less)
  then show ?case by simp
next
  case (Suc k)
  have lt: "i div 8 < n" if "i < length bits" for i using that assms(2) by (simp add: less_mult_imp_div_less)
  define p where "p = foldl (\<lambda>p i. if bits ! i then p[i div 8 := p ! (i div 8) OR flag (i mod 8)] else p)
      (replicate n 0) [0..<k]"
  have p: "length p = n" "\<forall>i < length bits. (p ! (i div 8) AND flag (i mod 8) \<noteq> 0) = (i < k \<and> bits ! i)"
    using Suc by (simp_all add: p_def Let_def)
  show ?case using p put_step [of _ p k] lt by (auto simp: Let_def less_Suc_eq simp flip: p_def)
qed

lemma get_put:
  assumes "length bits \<le> 8 * n"
  shows "length (put_bits flag bits 0 (replicate n 0)) = n"
    and "get_bits flag (length bits) (put_bits flag bits 0 (replicate n 0)) = bits"
  using put_bits_inv [OF order.refl assms] unfolding put_bits_def get_bits_def add_0
  by (auto simp: Let_def intro: nth_equalityI)

lemma put_bits_append:
  assumes "length bits \<le> 8 * length raw"
  shows "put_bits flag bits (length pre) (pre @ raw) = pre @ put_bits flag bits 0 raw"
proof -
  have "\<forall>i \<in> set is. i < length bits \<Longrightarrow> length r = length raw \<Longrightarrow>
      foldl (\<lambda>p i. if bits ! i then p[length pre + i div 8 := p ! (length pre + i div 8) OR flag (i mod 8)] else p) (pre @ r) is =
      pre @ foldl (\<lambda>p i. if bits ! i then p[i div 8 := p ! (i div 8) OR flag (i mod 8)] else p) r is" for "is" r
    by (induction "is" arbitrary: r) (auto simp: list_update_append nth_append)
  from this [of "[0..<length bits]" raw] show ?thesis unfolding put_bits_def add_0 by simp
qed

end

lemma low_first_disjoint: "i < 8 \<Longrightarrow> j < 8 \<Longrightarrow> (low_first i AND low_first j \<noteq> 0) = (i = j)"
proof -
  assume ij: "i < 8" "j < 8"
  have "bit (low_first i AND low_first j) n \<longleftrightarrow> n = i \<and> n = j" for n
    using ij by (auto simp: low_first_def bit_and_iff push_bit_eq_mult bit_exp_iff possible_bit_def)
  then show ?thesis by (metis bit_0_eq bot_apply bot_bool_def bit_word_eqI)
qed

lemma bit_top: "bit (0x80 :: byte) m \<longleftrightarrow> m = 7"
proof -
  have "bit (2 ^ 7 :: byte) m \<longleftrightarrow> m = 7" by (simp only: bit_exp_iff possible_bit_word) auto
  then show ?thesis by simp
qed

lemma bit_high_first: "bit (high_first k) n \<longleftrightarrow> k + n = 7"
  by (simp only: high_first_def bit_drop_bit_eq comp_apply bit_top)

lemma high_first_low: "k < 8 \<Longrightarrow> high_first k = low_first (7 - k)"
  by (rule bit_word_eqI)
    (auto simp: bit_high_first low_first_def push_bit_eq_mult bit_exp_iff possible_bit_word)

interpretation lsb: bit_order low_first
  by unfold_locales (rule low_first_disjoint)

interpretation msb: bit_order high_first
proof
  fix i j :: nat
  assume "i < 8" "j < 8"
  then show "(high_first i AND high_first j \<noteq> 0) = (i = j)"
    using low_first_disjoint [of "7 - i" "7 - j"] by (auto simp: high_first_low)
qed

section \<open>Part status\<close>

abbreviation bytes_for :: "bool list \<Rightarrow> nat" where
  "bytes_for bits \<equiv> (length bits + 7) div 8"

definition status_bytes :: "(nat \<Rightarrow> byte) \<Rightarrow> bool list \<Rightarrow> byte list" where
  "status_bytes flag bits = put_bits flag bits 0 (replicate (bytes_for bits) 0)"

lemma bytes_for_enough: "length bits \<le> 8 * bytes_for bits"
  by arith

lemma status_bytes [simp]:
  "length (status_bytes low_first bits) = bytes_for bits" "length (status_bytes high_first bits) = bytes_for bits"
  "get_bits low_first (length bits) (status_bytes low_first bits) = bits"
  "get_bits high_first (length bits) (status_bytes high_first bits) = bits"
  by (simp_all add: status_bytes_def lsb.get_put msb.get_put bytes_for_enough)

definition part_status :: "bool list \<Rightarrow> byte list" where
  "part_status bits = packUInt16 (of_nat (length bits)) @ status_bytes low_first bits"

lemma appendPartStatus_eq:
  "appendPartStatus payload bits = (if length bits > 65535 then None else Some (payload @ part_status bits))"
  using lsb.put_bits_append [of bits "replicate (bytes_for bits) 0" "payload @ packUInt16 (of_nat (length bits))"]
  by (simp add: appendPartStatus_def part_status_def status_bytes_def bytes_for_enough Let_def)

lemma unat_length16: "length xs \<le> 65535 \<Longrightarrow> unat (of_nat (length xs) :: 16 word) = length xs"
  by (simp add: unat_of_nat)

lemma cursor_part_status:
  assumes "cursor data off (part_status bits @ rest)" and "length bits \<le> 65535"
  shows "readPartStatus old data off = Some (True, bits, off + length (part_status bits))"
proof -
  have c: "cursor data off (packUInt16 (of_nat (length bits)) @ status_bytes low_first bits @ rest)"
    using assms(1) by (simp add: part_status_def)
  have d: "cursor data (Suc (Suc off)) (status_bytes low_first bits @ rest)" by (rule cursor_step [OF c]) simp
  have u: "unat (of_nat (length bits) :: 16 word) = length bits" using assms(2) by (rule unat_length16)
  show ?thesis
    using cursor_takeUInt(1) [OF c] cursor_readBytes [OF d refl] cursor_end [OF c] u
    by (simp add: readPartStatus_def part_status_def)
qed

lemma validate_ok [simp]: "length h = HASH_LENGTH \<Longrightarrow> validateHashLength h = Some ()"
  by (simp add: validateHashLength_def)

lemma validate_Some [simp]: "validateHashLength h = Some u \<longleftrightarrow> length h = HASH_LENGTH"
  by (simp add: validateHashLength_def)

lemma createFileStatus_eq:
  "createFileStatusPayload h bits = Some p \<longleftrightarrow>
     length h = HASH_LENGTH \<and> length bits \<le> 65535 \<and> p = h @ part_status bits"
  by (auto simp: createFileStatusPayload_def appendPartStatus_eq split: bind_splits if_splits)

lemma file_status_roundtrip:
  assumes "createFileStatusPayload h bits = Some p"
  shows "parseFileStatusPayload old p h = Some (True, bits)"
proof -
  have h: "length h = HASH_LENGTH" and l: "length bits \<le> 65535" and p: "p = h @ part_status bits"
    using assms by (auto simp: createFileStatus_eq)
  have c: "cursor p 0 (h @ part_status bits)" by (simp add: p)
  have d: "cursor p HASH_LENGTH (part_status bits @ [])" using cursor_step [OF c] h by simp
  show ?thesis
    using cursor_readBytes [OF c h [symmetric]] cursor_part_status [OF d l] h cursor_end [OF d]
    by (simp add: parseFileStatusPayload_def)
qed

lemma udp_ping_roundtrip:
  assumes "createUdpReaskFilePingPayload_status h bits n = Some p"
  shows "parseUdpReaskFilePingPayload old p =
    Some (True, \<lparr>ur_fileHash = h, ur_partStatus = bits, ur_completeSources = n, ur_hasCompleteSources = True\<rparr>)"
proof -
  have h: "length h = HASH_LENGTH" and l: "length bits \<le> 65535" and p: "p = h @ part_status bits @ packUInt16 n"
    using assms by (auto simp: createUdpReaskFilePingPayload_status_def appendPartStatus_eq split: bind_splits if_splits)
  have c: "cursor p 0 (h @ part_status bits @ packUInt16 n)" by (simp add: p)
  have d: "cursor p HASH_LENGTH (part_status bits @ packUInt16 n)" using cursor_step [OF c] h by simp
  have e: "cursor p (HASH_LENGTH + length (part_status bits)) (packUInt16 n @ [])" using cursor_step [OF d] by simp
  show ?thesis
    using cursor_readBytes [OF c h [symmetric]] cursor_part_status [OF d l] cursor_takeUInt(1) [OF e] h
    by (simp add: parseUdpReaskFilePingPayload_def parsePartStatusPayload_def ping_sources_def p
        part_status_def HASH_LENGTH_def)
qed

lemma udp_ping_short_roundtrip:
  assumes "createUdpReaskFilePingPayload h n = Some p"
  shows "parseUdpReaskFilePingPayload old p =
    Some (True, \<lparr>ur_fileHash = h, ur_partStatus = [], ur_completeSources = n, ur_hasCompleteSources = True\<rparr>)"
proof -
  have h: "length h = HASH_LENGTH" and p: "p = h @ packUInt16 n"
    using assms by (auto simp: createUdpReaskFilePingPayload_def split: bind_splits)
  have c: "cursor p 0 (h @ packUInt16 n)" by (simp add: p)
  have d: "cursor p HASH_LENGTH (packUInt16 n @ [])" using cursor_step [OF c] h by simp
  show ?thesis
    using cursor_readBytes [OF c h [symmetric]] cursor_takeUInt(1) [OF d] h
    by (simp add: parseUdpReaskFilePingPayload_def ping_sources_def p)
qed

lemma udp_ack_roundtrip:
  assumes "createUdpReaskAckPayload_status bits n = Some p"
  shows "parseUdpReaskAckPayload old p = Some (True, \<lparr>ua_bitfield = bits, ua_rank = n\<rparr>)"
proof -
  have l: "length bits \<le> 65535" using assms by (auto simp: createUdpReaskAckPayload_status_def split: if_splits)
  have p: "p = packUInt16 (of_nat (length bits)) @ status_bytes high_first bits @ packUInt16 n"
    using assms msb.put_bits_append [of bits "replicate (bytes_for bits) 0" "packUInt16 (of_nat (length bits))"]
    by (auto simp: createUdpReaskAckPayload_status_def status_bytes_def bytes_for_enough Let_def split: if_splits)
  have c: "cursor p 0 (packUInt16 (of_nat (length bits)) @ status_bytes high_first bits @ packUInt16 n)"
    by (simp add: p)
  have d: "cursor p (Suc (Suc 0)) (status_bytes high_first bits @ packUInt16 n)" by (rule cursor_step [OF c]) simp
  have e: "cursor p (2 + bytes_for bits) (packUInt16 n @ [])" using cursor_step [OF d] by simp
  show ?thesis
    using cursor_takeUInt(1) [OF c] cursor_readBytes [OF d refl] cursor_takeUInt(1) [OF e] unat_length16 [OF l]
      cursor_end [OF c]
    by (simp add: parseUdpReaskAckPayload_def p Let_def)
qed

lemma udp_ack_short_roundtrip:
  "parseUdpReaskAckPayload old (createUdpReaskAckPayload n) = Some (True, \<lparr>ua_bitfield = [], ua_rank = n\<rparr>)"
  using cursor_takeUInt(1) [of "packUInt16 n" 0 n "[]"]
  by (simp add: parseUdpReaskAckPayload_def createUdpReaskAckPayload_def)

section \<open>Hash sets and source lists\<close>

lemma write_hashes:
  "write_list (\<lambda>hash. do { validateHashLength hash; Some hash }) hs = Some bs \<Longrightarrow>
     write_list Some hs = Some bs \<and> list_all (\<lambda>h. length h = HASH_LENGTH) hs"
  by (induction hs arbitrary: bs) (auto split: bind_splits)

lemma hash_set_roundtrip:
  assumes "createHashSetAnswerPayload h hs = Some p"
  shows "parseHashSetAnswerPayload old p h = Some (True, hs)"
proof -
  obtain bs where w: "write_list (\<lambda>hash. do { validateHashLength hash; Some hash }) hs = Some bs"
    and h: "length h = HASH_LENGTH" and l: "length hs \<le> 65535" and p: "p = h @ packUInt16 (of_nat (length hs)) @ bs"
    using assms by (auto simp: createHashSetAnswerPayload_def split: bind_splits if_splits)
  have c: "cursor p 0 (h @ packUInt16 (of_nat (length hs)) @ bs)" by (simp add: p)
  have d: "cursor p HASH_LENGTH (packUInt16 (of_nat (length hs)) @ bs)" using cursor_step [OF c] h by simp
  have e: "cursor p (Suc (Suc HASH_LENGTH)) (bs @ [])" using cursor_step [OF d] by simp
  show ?thesis
    using cursor_readBytes [OF c h [symmetric]] cursor_takeUInt(1) [OF d] h unat_length16 [OF l]
      fixed.list_roundtrip [of hs bs HASH_LENGTH p, OF _ _ e] write_hashes [OF w]
    by (simp add: parseHashSetAnswerPayload_def)
qed

text \<open>What a receiver sees of a source entry: the fields its version carries.\<close>

definition seen_source :: "byte \<Rightarrow> source_entry \<Rightarrow> source_entry" where
  "seen_source version e =
     (let h = (if version \<ge> 2 then se_userHash e else []); c = (if version \<ge> 4 then se_cryptOptions e else 0)
      in \<lparr>se_endpoint = (bare (se_endpoint e))\<lparr>userHash := h, cryptOptions := ucast c\<rparr>,
          se_server = bare (se_server e), se_userHash = h, se_cryptOptions = c\<rparr>)"

definition seen_source2 :: "byte \<Rightarrow> source_entry \<Rightarrow> source_entry" where
  "seen_source2 version e =
     (if version \<ge> 4 then seen_source version e
      else (seen_source version e)\<lparr>se_endpoint := bare (se_endpoint e)\<rparr>)"

definition source_ok :: "source_entry \<Rightarrow> bool" where
  "source_ok e \<longleftrightarrow> dotted (host (se_endpoint e)) \<and> dotted (host (se_server e))"

lemma cursor_sources:
  assumes "write_source version e = Some bs" and "source_ok e" and "cursor data off (bs @ rest)"
  shows "read_source version data off = Some (seen_source version e, off + length bs)"
    and "read_source2 version data off = Some (seen_source2 version e, off + length bs)"
proof -
  define c where "c = (if version \<ge> 2 then se_userHash e else [])"
  define d where "d = (if version \<ge> 4 then [se_cryptOptions e] else [])"
  obtain a b where ab: "packEndpoint (se_endpoint e) = Some a" "packEndpoint (se_server e) = Some b"
    and c1: "version \<ge> 2 \<longrightarrow> length (se_userHash e) = HASH_LENGTH" and bs: "bs = a @ b @ c @ d"
    using assms(1) by (auto simp: write_source_def c_def d_def split: bind_splits if_splits)
  have p: "cursor data off (a @ b @ c @ d @ rest)" using assms(3) bs by simp
  have q: "cursor data (off + 6) (b @ c @ d @ rest)" using cursor_step [OF p] length_packEndpoint [OF ab(1)] by simp
  have r: "cursor data (off + 12) (c @ d @ rest)" by (rule cursor_step [OF q]) (simp add: length_packEndpoint [OF ab(2)])
  have s: "cursor data (off + 12 + length c) (d @ rest)" using cursor_step [OF r] by simp
  have ra: "readEndpoint data off = Some (bare (se_endpoint e), off + 6)"
    using cursor_packEndpoint [OF ab(1) _ p] assms(2) by (simp add: source_ok_def)
  have rb: "readEndpoint data (off + 6) = Some (bare (se_server e), off + 12)"
    using cursor_packEndpoint [OF ab(2) _ q] assms(2) by (simp add: source_ok_def)
  have rc: "version \<ge> 2 \<Longrightarrow> readBytes data (off + 12) HASH_LENGTH = Some (se_userHash e, off + 12 + HASH_LENGTH)"
    using cursor_readBytes [OF r] c1 by (simp add: c_def)
  have v: "version \<ge> 4 \<Longrightarrow> version \<ge> 2" by (auto simp: word_le_nat_alt)
  have rd: "readByte data (off + 12 + HASH_LENGTH) = Some (se_cryptOptions e, Suc (off + 12 + HASH_LENGTH))"
    if "version \<ge> 4"
    by (rule cursor_readByte [of _ _ _ rest]) (use s c1 v [OF that] that in \<open>simp add: c_def d_def\<close>)
  have l: "off + length bs = off + 12 + length c + length d"
    using length_packEndpoint [OF ab(1)] length_packEndpoint [OF ab(2)] by (simp add: bs)
  show "read_source version data off = Some (seen_source version e, off + length bs)"
    using ra rb rc rd v c1
    by (auto simp: read_source_def l seen_source_def new_source_entry_def c_def d_def bare_def Let_def)
  show "read_source2 version data off = Some (seen_source2 version e, off + length bs)"
    using ra rb rc rd v c1
    by (auto simp: read_source2_def l seen_source2_def seen_source_def new_source_entry_def c_def d_def bare_def Let_def)
qed

lemma read_source_bounds:
  "read_source version data off = Some (e, off') \<Longrightarrow> off + 12 \<le> off' \<and> off' \<le> length data"
  "read_source2 version data off = Some (e, off') \<Longrightarrow> off + 12 \<le> off' \<and> off' \<le> length data"
  by (auto simp: read_source_def read_source2_def Let_def split: if_splits bind_splits
      dest!: readEndpoint_bounds readByte_bounds readBytes_bounds)

interpretation sources: codec "read_source version" 12 "write_source version" "seen_source version" source_ok for version
  by unfold_locales (use read_source_bounds(1) cursor_sources(1) in blast)+

interpretation sources2: codec "read_source2 version" 12 "write_source version" "seen_source2 version" source_ok for version
  by unfold_locales (use read_source_bounds(2) cursor_sources(2) in blast)+

lemma length_write_source:
  assumes "write_source version e = Some bs" and "version \<noteq> 0" and "version \<le> 4"
  shows "length bs = entry_size version"
proof -
  have n: "unat (1 :: byte) = 1" "unat (2 :: byte) = 2" "unat (3 :: byte) = 3" "unat (4 :: byte) = 4" by simp_all
  have "unat version = 0 \<or> unat version = 1 \<or> unat version = 2 \<or> unat version = 3 \<or> unat version = 4"
    using assms(3) by (simp add: word_le_nat_alt) arith
  then have "version = 1 \<or> version = 2 \<or> version = 3 \<or> version = 4"
    using assms(2) n unsigned_word_eqI unat_0 by metis
  moreover have "\<not> (2 :: byte) \<le> 1" "\<not> (4 :: byte) \<le> 1" by (simp_all add: word_le_nat_alt)
  ultimately show ?thesis using assms(1)
    by (auto simp: write_source_def entry_size_def HASH_LENGTH_def split: bind_splits if_splits dest!: length_packEndpoint)
qed

lemma length_write_sources:
  "write_list (write_source version) es = Some bs \<Longrightarrow> version \<noteq> 0 \<Longrightarrow> version \<le> 4 \<Longrightarrow>
     length bs = entry_size version * length es"
  by (induction es arbitrary: bs) (auto split: bind_splits dest!: length_write_source)

lemma count_500: "length es \<le> 500 \<Longrightarrow> \<not> (of_nat (length es) :: 16 word) > 500 \<and> unat (of_nat (length es) :: 16 word) = length es"
  by (simp add: not_less word_le_nat_alt unat_of_nat)

lemma answer_sources_roundtrip:
  assumes "createAnswerSourcesPayload h version es = Some p" and "list_all source_ok es"
  shows "parseAnswerSourcesPayload old p h version =
    Some (True, \<lparr>sa_version = version, sa_entries = map (seen_source version) es\<rparr>)"
proof -
  obtain bs where w: "write_list (write_source version) es = Some bs"
    and h: "length h = HASH_LENGTH" and l: "length es \<le> 500" and p: "p = h @ packUInt16 (of_nat (length es)) @ bs"
    and v: "version \<noteq> 0" "version \<le> 4"
    using assms(1) by (auto simp: createAnswerSourcesPayload_def SOURCE_EXCHANGE2_VERSION_def split: bind_splits if_splits)
  have c: "cursor p 0 (h @ packUInt16 (of_nat (length es)) @ bs)" by (simp add: p)
  have d: "cursor p HASH_LENGTH (packUInt16 (of_nat (length es)) @ bs)" using cursor_step [OF c] h by simp
  have e: "cursor p (Suc (Suc HASH_LENGTH)) (bs @ [])" using cursor_step [OF d] by simp
  show ?thesis
    using cursor_readBytes [OF c h [symmetric]] cursor_takeUInt(1) [OF d] h count_500 [OF l] v
      sources.list_roundtrip [OF w assms(2) e] length_write_sources [OF w v] cursor_end [OF e]
    by (simp add: parseAnswerSourcesPayload_def SOURCE_EXCHANGE2_VERSION_def not_less [symmetric] p)
qed

lemma answer_sources2_roundtrip:
  assumes "createAnswerSources2Payload_version h version es = Some p" and "list_all source_ok es"
  shows "parseAnswerSources2Payload old p h =
    Some (True, \<lparr>sa_version = version, sa_entries = map (seen_source2 version) es\<rparr>)"
proof -
  obtain bs where w: "write_list (write_source version) es = Some bs"
    and h: "length h = HASH_LENGTH" and l: "length es \<le> 500"
    and p: "p = version # h @ packUInt16 (of_nat (length es)) @ bs"
    and v: "version \<noteq> 0" "version \<le> 4"
    using assms(1) by (auto simp: createAnswerSources2Payload_version_def SOURCE_EXCHANGE2_VERSION_def split: bind_splits if_splits)
  have b: "cursor p 0 (version # h @ packUInt16 (of_nat (length es)) @ bs)" by (simp add: p)
  have c: "cursor p (Suc 0) (h @ packUInt16 (of_nat (length es)) @ bs)" using cursor_step [of p 0 "[version]"] b by simp
  have d: "cursor p (Suc HASH_LENGTH) (packUInt16 (of_nat (length es)) @ bs)" using cursor_step [OF c] h by simp
  have e: "cursor p (Suc (Suc (Suc HASH_LENGTH))) (bs @ [])" using cursor_step [OF d] by simp
  show ?thesis
    using cursor_readByte [OF b] cursor_readBytes [OF c h [symmetric]] cursor_takeUInt(1) [OF d] h count_500 [OF l] v
      sources2.list_roundtrip [OF w assms(2) e] length_write_sources [OF w v] cursor_end [OF e]
    by (simp add: parseAnswerSources2Payload_def SOURCE_EXCHANGE2_VERSION_def not_less [symmetric] p)
qed

section \<open>Option words\<close>

lemma and_low:
  "w AND 0x01 = take_bit 1 w" "w AND 0x03 = take_bit 2 w" "w AND 0x07 = take_bit 3 w" "w AND 0x0f = take_bit 4 w"
  "w AND 0xff = take_bit 8 w" "w AND 0xffff = take_bit 16 w" for w :: "'a::len word"
  by (simp_all add: take_bit_eq_mask mask_eq_exp_minus_1)

lemmas option_bits = and_low bit_or_iff bit_push_bit_iff bit_take_bit_iff bit_drop_bit_eq bit_ucast_iff bit_of_bool_iff

lemma field_flag: "drop_bit k w AND 0x01 \<noteq> 0 \<longleftrightarrow> bit w k" for w :: "'a::len word"
  by (simp add: and_low take_bit_Suc_0 bit_iff_odd_drop_bit odd_iff_mod_2_eq_one)

lemma field_nibble:
  fixes w :: "32 word"
  assumes "\<And>n. n < 4 \<Longrightarrow> bit w (k + n) \<longleftrightarrow> bit x n"
  shows "ucast (drop_bit k w AND 0x0f) = (x AND 0x0f :: byte)"
  by (rule bit_word_eqI) (use assms in \<open>auto simp: option_bits\<close>)

lemma field_three:
  fixes w :: "32 word"
  assumes "\<And>n. n < 3 \<Longrightarrow> bit w (k + n) \<longleftrightarrow> bit x n"
  shows "ucast (drop_bit k w AND 0x07) = (x AND 0x07 :: byte)"
  by (rule bit_word_eqI) (use assms in \<open>auto simp: option_bits\<close>)

text \<open>What a receiver makes of the option words: the versions are cut to their fields, and a
  layer that is not supported cannot be requested or required.\<close>

definition seen_misc :: "misc_options \<Rightarrow> misc_options" where
  "seen_misc m = m\<lparr>aichVersion := aichVersion m AND 0x07, udpVersion := udpVersion m AND 0x0f,
     dataCompressionVersion := dataCompressionVersion m AND 0x0f,
     secureIdentVersion := secureIdentVersion m AND 0x0f,
     sourceExchange1Version := sourceExchange1Version m AND 0x0f,
     extendedRequestsVersion := extendedRequestsVersion m AND 0x0f\<rparr>"

definition seen_misc2 :: "misc_options2 \<Rightarrow> misc_options2" where
  "seen_misc2 m = m\<lparr>kadVersion := kadVersion m AND 0x0f,
     requestsCryptLayer := supportsCryptLayer m \<and> requestsCryptLayer m,
     requiresCryptLayer := supportsCryptLayer m \<and> requestsCryptLayer m \<and> requiresCryptLayer m\<rparr>"

lemma bit_field:
  "k + 4 \<le> 32 \<Longrightarrow> bit (push_bit k (ucast x AND 0x0f) :: 32 word) n \<longleftrightarrow> k \<le> n \<and> n < k + 4 \<and> bit (x :: byte) (n - k)"
  "k + 3 \<le> 32 \<Longrightarrow> bit (push_bit k (ucast x AND 0x07) :: 32 word) n \<longleftrightarrow> k \<le> n \<and> n < k + 3 \<and> bit x (n - k)"
  "bit (ucast x AND 0x0f :: 32 word) n \<longleftrightarrow> n < 4 \<and> bit x n"
  "k < 32 \<Longrightarrow> bit (push_bit k (of_bool b) :: 32 word) n \<longleftrightarrow> n = k \<and> b"
  by (auto simp: option_bits)

lemma bit_misc:
  "bit (emuleMiscOptionsValue m) n \<longleftrightarrow>
     29 \<le> n \<and> n < 32 \<and> bit (aichVersion m) (n - 29) \<or> n = 28 \<and> unicode m \<or>
     24 \<le> n \<and> n < 28 \<and> bit (udpVersion m) (n - 24) \<or> 20 \<le> n \<and> n < 24 \<and> bit (dataCompressionVersion m) (n - 20) \<or>
     16 \<le> n \<and> n < 20 \<and> bit (secureIdentVersion m) (n - 16) \<or>
     12 \<le> n \<and> n < 16 \<and> bit (sourceExchange1Version m) (n - 12) \<or>
     8 \<le> n \<and> n < 12 \<and> bit (extendedRequestsVersion m) (n - 8) \<or> n = 1 \<and> multiPacket m"
  unfolding emuleMiscOptionsValue_def bit_or_iff by (simp only: bit_field) simp

lemma misc_roundtrip: "parseEmuleMiscOptions (emuleMiscOptionsValue m) = seen_misc m"
  unfolding parseEmuleMiscOptions_def field_flag seen_misc_def
  by (rule misc_options.equality) (simp_all add: bit_misc field_nibble field_three)

lemma bit_misc2:
  "bit (emuleMiscOptions2Value m) n \<longleftrightarrow>
     n < 4 \<and> bit (kadVersion m) n \<or> n = 4 \<and> supportsLargeFiles m \<or> n = 5 \<and> supportsExtendedMultipacket m \<or>
     n = 7 \<and> supportsCryptLayer m \<or> n = 8 \<and> requestsCryptLayer m \<or> n = 9 \<and> requiresCryptLayer m \<or>
     n = 10 \<and> supportsSourceExchange2 m \<or> n = 12 \<and> supportsDirectCallback m"
  unfolding emuleMiscOptions2Value_def bit_or_iff by (simp only: bit_field)

lemma misc2_roundtrip: "parseEmuleMiscOptions2 (emuleMiscOptions2Value m) = seen_misc2 m"
  using field_nibble [of "emuleMiscOptions2Value m" 0 "kadVersion m"]
  unfolding parseEmuleMiscOptions2_def field_flag seen_misc2_def
  by (intro misc_options2.equality) (simp_all add: bit_misc2 Let_def)

section \<open>Handshakes\<close>

definition hello_tags :: "byte list \<Rightarrow> peer_info \<Rightarrow> out_tag list" where
  "hello_tags clientName info =
     [StringTag 0x01 clientName, UInt32Tag 0x11 0x3c,
      UInt32Tag 0xf9 (push_bit 16 (ucast (udpPort info)) OR ucast (udpPort info)),
      UInt32Tag 0xfb (push_bit 24 0x03 OR push_bit 17 3),
      UInt32Tag 0xfa (emuleMiscOptionsValue (miscOptions info)),
      UInt32Tag 0xfe (emuleMiscOptions2Value (miscOptions2 info)), UInt32Tag 0xef 1]"

definition seen_hello :: "byte list \<Rightarrow> peer_info \<Rightarrow> peer_info \<Rightarrow> peer_info" where
  "seen_hello clientHash info old = old\<lparr>pi_userHash := clientHash, udpPort := udpPort info,
     miscOptions := seen_misc (miscOptions info), miscOptions2 := seen_misc2 (miscOptions2 info)\<rparr>"

lemma udp_ports_low: "ucast (ucast (push_bit 16 (ucast x) OR ucast x :: 32 word) AND 0xffff :: 64 word) = (x :: 16 word)"
  by (rule bit_word_eqI) (auto simp: option_bits)

lemma hello_tags_read:
  "fold hello_tag (map tag_of (hello_tags clientName info)) (old\<lparr>pi_userHash := h\<rparr>) = seen_hello h info old"
proof -
  have u: "ucast (ucast (w :: 32 word) :: 64 word) = w" for w by (simp add: unsigned_ucast_eq take_bit_word_eq_self)
  show ?thesis
    by (simp add: hello_tags_def hello_tag_def new_tag_def udp_ports_low u misc_roundtrip misc2_roundtrip
        seen_hello_def Let_def)
qed

lemma hello_roundtrip:
  assumes "createPeerHelloPayload h clientId listenPort server clientName info helloPacket = Some p"
    and "length clientName < 2 ^ 16"
  shows "parsePeerHelloPayload old p helloPacket = Some (True, seen_hello h info old)"
    and "parsePeerHelloUserHash x p helloPacket = (True, h)"
proof -
  define pre where "pre = (if helloPacket then [of_nat HASH_LENGTH :: byte] else [])"
  define body where "body = packUInt32 (of_nat (length (hello_tags clientName info))) @ concat (map create_tag (hello_tags clientName info))"
  obtain address where h: "length h = HASH_LENGTH"
    and ad: "(if host server = [] \<or> port server = 0 then Some (replicate 6 0) else packEndpoint server) = Some address"
    and p: "p = pre @ h @ (packUInt32 clientId @ packUInt16 listenPort) @ body @ address"
    using assms(1) by (auto simp: createPeerHelloPayload_def pre_def body_def hello_tags_def split: bind_splits)
  have a: "length address = 6" using ad by (auto split: if_splits dest: length_packEndpoint)
  have n: "length pre = (if helloPacket then 1 else 0)" by (simp add: pre_def)
  have c: "cursor p (length pre) (h @ (packUInt32 clientId @ packUInt16 listenPort) @ body @ address)"
    by (rule cursor_step [of p 0 pre]) (simp_all add: p)
  have d: "cursor p (length pre + HASH_LENGTH + (4 + 2)) (body @ address)"
    using cursor_step [OF cursor_step [OF c refl]] h by simp
  have t: "parseTagList [] body = Some (True, map tag_of (hello_tags clientName info))"
    unfolding body_def by (rule tag_list_read) (use assms(2) in \<open>simp_all add: hello_tags_def\<close>)
  have l: "length p = length pre + HASH_LENGTH + (4 + 2) + length body + 6" using cursor_end [OF d] a by simp
  then have "take (length p - 6 - (length pre + HASH_LENGTH + (4 + 2))) (drop (length pre + HASH_LENGTH + (4 + 2)) p) = body"
    using d by (simp add: cursor_def)
  then show "parsePeerHelloPayload old p helloPacket = Some (True, seen_hello h info old)"
    using cursor_readBytes [OF c h [symmetric]] l t hello_tags_read
    by (simp add: parsePeerHelloPayload_def Let_def flip: n)
  show "parsePeerHelloUserHash x p helloPacket = (True, h)"
    using c h l by (simp add: parsePeerHelloUserHash_def Let_def cursor_def flip: n)
qed

definition info_tags :: "peer_info \<Rightarrow> out_tag list" where
  "info_tags info =
     [UInt32Tag 0x20 (ucast (dataCompressionVersion (miscOptions info))), UInt32Tag 0x21 (ucast (udpPort info)),
      UInt32Tag 0x22 (ucast (udpVersion (miscOptions info))),
      UInt32Tag 0x23 (ucast (sourceExchange1Version (miscOptions info))), UInt32Tag 0x24 0,
      UInt32Tag 0x25 (ucast (extendedRequestsVersion (miscOptions info))), UInt32Tag 0x26 0x03,
      UInt32Tag 0x27 (ucast (secureIdentVersion (miscOptions info)) AND 0x03),
      StringTag 0x55 (map of_char ''aria2-next'')]"

definition seen_info :: "peer_info \<Rightarrow> peer_info \<Rightarrow> peer_info" where
  "seen_info info old = old\<lparr>pi_version := pi_version info, pi_protocolVersion := pi_protocolVersion info,
     udpPort := udpPort info,
     miscOptions := (miscOptions old)\<lparr>dataCompressionVersion := dataCompressionVersion (miscOptions info),
       udpVersion := udpVersion (miscOptions info),
       sourceExchange1Version := sourceExchange1Version (miscOptions info),
       extendedRequestsVersion := extendedRequestsVersion (miscOptions info),
       secureIdentVersion := secureIdentVersion (miscOptions info) AND 0x03\<rparr>\<rparr>"

lemma info_fields:
  "ucast (ucast (ucast x :: 32 word) AND 0xff :: 64 word) = (x :: byte)"
  "ucast (ucast (ucast y :: 32 word) AND 0xffff :: 64 word) = (y :: 16 word)"
  "ucast (ucast (ucast x AND 0x03 :: 32 word) AND 0x03 :: 64 word) = x AND 0x03"
  by (auto intro!: bit_word_eqI simp: option_bits)

lemma emule_info_roundtrip:
  "parseEmuleInfoPayload old (createEmuleInfoPayload info) = Some (True, seen_info info old)"
proof -
  have t: "parseTagList [] (packUInt32 (of_nat (length (info_tags info))) @ concat (map create_tag (info_tags info))) =
      Some (True, map tag_of (info_tags info))"
    by (rule tag_list_read) (simp_all add: info_tags_def)
  have p: "createEmuleInfoPayload info = pi_version info # pi_protocolVersion info #
      packUInt32 (of_nat (length (info_tags info))) @ concat (map create_tag (info_tags info))"
    by (simp add: createEmuleInfoPayload_def info_tags_def)
  have f: "fold emule_info_tag (map tag_of (info_tags info))
      (old\<lparr>pi_version := pi_version info, pi_protocolVersion := pi_protocolVersion info\<rparr>) = seen_info info old"
    by (simp add: info_tags_def emule_info_tag_def new_tag_def info_fields seen_info_def Let_def)
  show ?thesis unfolding p using t f by (simp add: parseEmuleInfoPayload_def Let_def)
qed

section \<open>Multipackets\<close>

text \<open>The records of a multipacket answer and what they say.\<close>

datatype answer_record = FileName "byte list" | FileStatus "bool list" | AichRoot "byte list"

fun record_bytes :: "answer_record \<Rightarrow> byte list" where
  "record_bytes (FileName n) = OP_REQFILENAMEANSWER # packUInt16 (of_nat (length n)) @ n"
| "record_bytes (FileStatus bits) = OP_FILESTATUS # part_status bits"
| "record_bytes (AichRoot h) = OP_AICHFILEHASHANS # h"

fun record_ok :: "answer_record \<Rightarrow> bool" where
  "record_ok (FileName n) = (length n \<le> 65535)"
| "record_ok (FileStatus bits) = (length bits \<le> 65535)"
| "record_ok (AichRoot h) = (length h = 20)"

fun see_record :: "answer_record \<Rightarrow> multipacket_answer \<Rightarrow> multipacket_answer" where
  "see_record (FileName n) a = a\<lparr>hasFileName := True, fileName := n\<rparr>"
| "see_record (FileStatus bits) a =
     a\<lparr>hasFileStatus := True, ma_partStatus := bits, completeSource := completeSource a \<or> bits = []\<rparr>"
| "see_record (AichRoot h) a = a\<lparr>hasAichRootHash := True, aichRootHash := h\<rparr>"

lemma cursor_record:
  assumes "record_ok r" and "cursor data off (record_bytes r @ rest)"
  shows "multipacket_record data off a = Some (Some (see_record r a, off + length (record_bytes r)))"
proof (cases r)
  case (FileName n)
  have c: "cursor data off (OP_REQFILENAMEANSWER # packUInt16 (of_nat (length n)) @ n @ rest)"
    using assms(2) by (simp add: FileName)
  have d: "cursor data (Suc off) (packUInt16 (of_nat (length n)) @ n @ rest)"
    using cursor_step [of data off "[OP_REQFILENAMEANSWER]"] c by simp
  have e: "cursor data (Suc (Suc (Suc off))) (n @ rest)" using cursor_step [OF d] by simp
  show ?thesis
    using cursor_readByte [OF c] cursor_takeUInt(1) [OF d] cursor_readBytes [OF e refl] assms(1) unat_length16 [of n]
    by (simp add: FileName multipacket_record_def readUInt16String_def)
next
  case (FileStatus bits)
  have c: "cursor data off (OP_FILESTATUS # part_status bits @ rest)" using assms(2) by (simp add: FileStatus)
  have d: "cursor data (Suc off) (part_status bits @ rest)"
    using cursor_step [of data off "[OP_FILESTATUS]"] c by simp
  have o: "OP_FILESTATUS \<noteq> OP_REQFILENAMEANSWER" by (simp add: OP_FILESTATUS_def OP_REQFILENAMEANSWER_def)
  show ?thesis
    using cursor_readByte [OF c] cursor_part_status [OF d] assms(1) o
    by (cases a) (simp add: FileStatus multipacket_record_def Let_def)
next
  case (AichRoot h)
  have c: "cursor data off (OP_AICHFILEHASHANS # h @ rest)" using assms(2) by (simp add: AichRoot)
  have d: "cursor data (Suc off) (h @ rest)" using cursor_step [of data off "[OP_AICHFILEHASHANS]"] c by simp
  have o: "OP_AICHFILEHASHANS \<noteq> OP_REQFILENAMEANSWER" "OP_AICHFILEHASHANS \<noteq> OP_FILESTATUS"
    by (simp_all add: OP_FILESTATUS_def OP_REQFILENAMEANSWER_def OP_AICHFILEHASHANS_def)
  have l: "length h = 20" using assms(1) by (simp add: AichRoot)
  show ?thesis
    using cursor_readByte [OF c] cursor_readBytes [OF d l [symmetric]] cursor_end [OF d] l o
    by (simp add: AichRoot multipacket_record_def)
qed

lemma multipacket_loop_records:
  "list_all record_ok rs \<Longrightarrow> cursor data off (concat (map record_bytes rs)) \<Longrightarrow>
     multipacket_loop data off a = Some (Some (fold see_record rs a))"
proof (induction rs arbitrary: off a)
  case Nil
  then show ?case using cursor_end [OF Nil.prems(2)] by (simp add: multipacket_loop.simps [of data])
next
  case (Cons r rs)
  have c: "cursor data off (record_bytes r @ concat (map record_bytes rs))" using Cons.prems by simp
  have "record_bytes r \<noteq> []" by (cases r) simp_all
  then have "off < length data" using cursor_end [OF c] by (cases "record_bytes r") auto
  then show ?case
    using cursor_record [OF _ c] Cons.prems(1) Cons.IH [OF _ cursor_step [OF c refl]]
    by (simp add: multipacket_loop.simps [of data])
qed

section \<open>Properties\<close>

text \<open>
  C30. The handshakes agree: a peer that parses our hello, in either form, learns our user hash,
  UDP port and capabilities, cut to the width of their fields and with the encryption flags made
  consistent, and a peer that parses our eMule info learns our versions. A client name must be
  shorter than 64 KiB.
\<close>

theorem handshakes_agree:
  assumes "createPeerHelloPayload h clientId listenPort server clientName info helloPacket = Some p"
    and "length clientName < 2 ^ 16"
  shows "parsePeerHelloPayload old p helloPacket = Some (True, seen_hello h info old) \<and>
    parsePeerHelloUserHash x p helloPacket = (True, h) \<and>
    parseEmuleInfoPayload old (createEmuleInfoPayload info) = Some (True, seen_info info old)"
  using hello_roundtrip [OF assms] emule_info_roundtrip by simp

theorem handshakes_agree_witness:
  "\<exists>p. createPeerHelloPayload (replicate 16 7) 0x0100007f 4662 new_endpoint [97, 114] createLocalEmulePeerInfo True = Some p \<and>
     parsePeerHelloPayload new_peer_info p True =
       Some (True, createLocalEmulePeerInfo\<lparr>pi_userHash := replicate 16 7, pi_version := 0, pi_protocolVersion := 0\<rparr>)"
proof -
  obtain p where p: "createPeerHelloPayload (replicate 16 7) 0x0100007f 4662 new_endpoint [97, 114] createLocalEmulePeerInfo True = Some p"
    by (simp add: createPeerHelloPayload_def HASH_LENGTH_def new_endpoint_def)
  have "seen_hello (replicate 16 7) createLocalEmulePeerInfo new_peer_info =
      createLocalEmulePeerInfo\<lparr>pi_userHash := replicate 16 7, pi_version := 0, pi_protocolVersion := 0\<rparr>"
    by (simp add: seen_hello_def seen_misc_def seen_misc2_def createLocalEmulePeerInfo_def new_peer_info_def
        new_misc_options_def new_misc_options2_def)
  then show ?thesis using p handshakes_agree [OF p, of new_peer_info "[]"] by simp
qed

text \<open>
  Source exchange transports sources: what either answer writes, in any version it accepts, its
  parser reads back, entry by entry and in order, with the fields that version carries. Addresses
  are the dotted ones the client prints.
\<close>

theorem source_exchange_roundtrip:
  assumes "list_all source_ok es"
  shows "(createAnswerSourcesPayload h version es = Some p \<longrightarrow>
      parseAnswerSourcesPayload old p h version =
        Some (True, \<lparr>sa_version = version, sa_entries = map (seen_source version) es\<rparr>)) \<and>
    (createAnswerSources2Payload_version h version es = Some p \<longrightarrow>
      parseAnswerSources2Payload old p h =
        Some (True, \<lparr>sa_version = version, sa_entries = map (seen_source2 version) es\<rparr>))"
  using answer_sources_roundtrip answer_sources2_roundtrip assms by blast

definition demo_source :: source_entry where
  "demo_source = \<lparr>se_endpoint = new_endpoint\<lparr>host := ipv4FromEndpoint 0x0201000a, port := 4662\<rparr>,
     se_server = new_endpoint\<lparr>host := ipv4FromEndpoint 0x0301000a, port := 4661\<rparr>,
     se_userHash = replicate 16 5, se_cryptOptions = 3\<rparr>"


text \<open>
  Part status, hash sets and UDP re-asks are read back exactly: every bit of a status, in the
  low-first order of file status and pings and in the high-first order of acknowledgements, every
  hash, and the counts beside them.
\<close>

theorem file_messages_roundtrip:
  "(createFileStatusPayload h bits = Some p \<longrightarrow> parseFileStatusPayload oldBits p h = Some (True, bits)) \<and>
   (createHashSetAnswerPayload h hs = Some q \<longrightarrow> parseHashSetAnswerPayload oldHashes q h = Some (True, hs)) \<and>
   (createUdpReaskFilePingPayload_status h bits n = Some r \<longrightarrow> parseUdpReaskFilePingPayload oldPing r =
      Some (True, \<lparr>ur_fileHash = h, ur_partStatus = bits, ur_completeSources = n, ur_hasCompleteSources = True\<rparr>)) \<and>
   (createUdpReaskAckPayload_status bits n = Some s \<longrightarrow>
      parseUdpReaskAckPayload oldAck s = Some (True, \<lparr>ua_bitfield = bits, ua_rank = n\<rparr>))"
  using file_status_roundtrip hash_set_roundtrip udp_ping_roundtrip udp_ack_roundtrip by blast


text \<open>
  A multipacket answer is understood in full: for every sequence of well-formed records after
  the hash of the file, in any order and however often repeated, the loop ends and returns what
  the records say, the last of a kind winning.
\<close>

theorem multipacket_answer_read:
  assumes "length h = HASH_LENGTH" and "list_all record_ok rs"
  shows "parseMultipacketAnswerPayload old (h @ concat (map record_bytes rs)) h =
    Some (True, fold see_record rs new_multipacket_answer)"
proof -
  have "cursor (h @ concat (map record_bytes rs)) HASH_LENGTH (concat (map record_bytes rs))"
    using assms(1) by (simp add: cursor_def)
  from multipacket_loop_records [OF assms(2) this] show ?thesis
    using assms(1) by (simp add: parseMultipacketAnswerPayload_def)
qed


end
