(* ===== verification/Parts.thy ===== *)
theory Parts
  imports Ranges "HOL-Library.Product_Lexorder"
begin

text \<open>
  Progress of an eD2k download (\<open>ed2k/Parts.cc\<close>): which parts of the file are verified, which
  bytes have been received, and which blocks the sources have claimed.

  Owners are the addresses of the sources, times are nanoseconds of the steady clock. The random
  number that breaks ties between equally good parts is a parameter of \<open>claim\<close>, the number
  drawn for each part; parts with equal numbers, whose order \<open>std::sort\<close> leaves open, are taken
  by index. The received bytes are a range set, used through its interface \<open>byte_ranges\<close>.
\<close>

section \<open>Model\<close>

definition PIECE_LENGTH :: int where
  "PIECE_LENGTH = 9728000"

definition BLOCK_LENGTH :: int where
  "BLOCK_LENGTH = 184320"

text \<open>Five seconds: the age at which the endgame duplicates a claimed block.\<close>

definition duplicateAfter :: int where
  "duplicateAfter = 5000000000"

type_synonym owner = nat

record claim =
  claim_end :: int
  claim_owner :: owner
  claim_since :: int

record parts =
  parts_size :: int
  verified :: "bool list"
  received :: range_set
  claims :: "(int \<times> claim) list"

definition new_parts :: "int \<Rightarrow> parts" where
  "new_parts n = \<lparr>parts_size = n, verified = replicate (nat ((n + PIECE_LENGTH - 1) div PIECE_LENGTH)) False,
     received = [], claims = []\<rparr>"

definition part_count :: "parts \<Rightarrow> nat" where
  "part_count p = length (verified p)"

definition part :: "parts \<Rightarrow> nat \<Rightarrow> range" where
  "part p index = (let bgn = int index * PIECE_LENGTH in (bgn, min (bgn + PIECE_LENGTH) (parts_size p)))"

definition partOf :: "int \<Rightarrow> nat" where
  "partOf offset = nat (offset div PIECE_LENGTH)"

definition parts_complete :: "parts \<Rightarrow> bool" where
  "parts_complete p = list_all (\<lambda>done. done) (verified p)"

definition completed :: "parts \<Rightarrow> int" where
  "completed p = rs_total (received p)"

definition filled :: "parts \<Rightarrow> nat \<Rightarrow> bool" where
  "filled p index = (case part p index of (b, e) \<Rightarrow> rs_contains b e (received p))"

definition parts_add :: "parts \<Rightarrow> int \<Rightarrow> int \<Rightarrow> nat option \<times> parts" where
  "parts_add p bgn fin =
     (let bgn = max bgn 0; fin = min fin (parts_size p)
      in if bgn \<ge> fin then (None, p)
         else let p = p\<lparr>received := rs_add bgn fin (received p)\<rparr>
              in (find (\<lambda>index. \<not> verified p ! index \<and> filled p index) [partOf bgn..<partOf (fin - 1) + 1], p))"

definition verify :: "parts \<Rightarrow> nat \<Rightarrow> parts" where
  "verify p index =
     (case part p index of (b, e) \<Rightarrow>
       p\<lparr>verified := (verified p)[index := True], received := rs_add b e (received p)\<rparr>)"

definition reject :: "parts \<Rightarrow> nat \<Rightarrow> parts" where
  "reject p index =
     (case part p index of (b, e) \<Rightarrow>
       p\<lparr>verified := (verified p)[index := False], received := rs_remove b e (received p)\<rparr>)"

text \<open>A source holds a part when its list says so, an empty list standing for the whole file.\<close>

definition holds :: "bool list \<Rightarrow> nat \<Rightarrow> bool" where
  "holds available index \<longleftrightarrow> available = [] \<or> index < length available \<and> available ! index"

definition wants :: "parts \<Rightarrow> bool list \<Rightarrow> bool" where
  "wants p available =
     list_ex (\<lambda>index. \<not> verified p ! index \<and> \<not> filled p index \<and> holds available index) [0..<part_count p]"

subsection \<open>Claims\<close>

text \<open>\<open>std::multimap::emplace\<close>: behind the entries with the same key.\<close>

fun claims_emplace :: "int \<Rightarrow> claim \<Rightarrow> (int \<times> claim) list \<Rightarrow> (int \<times> claim) list" where
  "claims_emplace k c [] = [(k, c)]"
| "claims_emplace k c ((k', c') # m) = (if k < k' then (k, c) # (k', c') # m else (k', c') # claims_emplace k c m)"

text \<open>The claims a search for free bytes must respect.\<close>

definition blocking :: "owner \<Rightarrow> bool \<Rightarrow> int \<Rightarrow> claim \<Rightarrow> bool" where
  "blocking owner endgame now c \<longleftrightarrow> claim_owner c = owner \<or> \<not> endgame \<or> now - claim_since c < duplicateAfter"

lemma blocking_True: "blocking owner True now = (\<lambda>c. claim_owner c = owner \<or> now - claim_since c < duplicateAfter)"
  by (simp add: blocking_def fun_eq_iff)

text \<open>One pass over the claims: whether the begin moved, and the begin and end after it.\<close>

fun scan_claims :: "(claim \<Rightarrow> bool) \<Rightarrow> (int \<times> claim) list \<Rightarrow> int \<Rightarrow> int \<Rightarrow> bool \<times> int \<times> int" where
  "scan_claims blocks [] bgn fin = (False, bgn, fin)"
| "scan_claims blocks ((first, c) # cs) bgn fin =
     (if claim_end c \<le> bgn \<or> first \<ge> fin \<or> \<not> blocks c then scan_claims blocks cs bgn fin
      else if first \<le> bgn then (True, claim_end c, fin)
      else scan_claims blocks cs bgn first)"

lemma scan_claims_moves:
  "scan_claims blocks cs bgn fin = (moved, b, e) \<Longrightarrow> e \<le> fin \<and> (if moved then bgn < b else b = bgn)"
  by (induction cs arbitrary: fin) (fastforce split: if_splits)+

text \<open>The first stretch of a gap that no blocking claim covers; empty when there is none.\<close>

function free_stretch :: "(claim \<Rightarrow> bool) \<Rightarrow> (int \<times> claim) list \<Rightarrow> int \<Rightarrow> int \<Rightarrow> range" where
  "free_stretch blocks cs bgn fin =
     (if bgn < fin
      then case scan_claims blocks cs bgn fin of (moved, b, e) \<Rightarrow>
        if moved then free_stretch blocks cs b e else (b, e)
      else (bgn, fin))"
  by pat_completeness auto
termination
  by (relation "measure (\<lambda>(_, _, bgn, fin). nat (fin - bgn))") (auto dest!: scan_claims_moves [OF sym])

declare free_stretch.simps [simp del]

lemma free_stretch_bounds: "free_stretch blocks cs bgn fin = (b, e) \<Longrightarrow> bgn \<le> b \<and> e \<le> fin"
proof (induction blocks cs bgn fin rule: free_stretch.induct)
  case (1 blocks cs bgn fin)
  obtain moved b' e' where s: "scan_claims blocks cs bgn fin = (moved, b', e')" by (metis prod_cases3)
  show ?case
    using "1.prems" "1.IH" [OF _ s [symmetric] refl] scan_claims_moves [OF s]
    by (subst (asm) free_stretch.simps) (auto simp: s split: if_splits)
qed

definition block_end :: "int \<Rightarrow> int \<Rightarrow> int \<Rightarrow> int" where
  "block_end partBegin bgn fin =
     min fin (partBegin + ((bgn - partBegin) div BLOCK_LENGTH + 1) * BLOCK_LENGTH)"

lemma block_end_after: "bgn < fin \<Longrightarrow> bgn < block_end partBegin bgn fin"
proof -
  assume "bgn < fin"
  have "(bgn - partBegin) mod BLOCK_LENGTH < BLOCK_LENGTH" by (simp add: BLOCK_LENGTH_def)
  then have "bgn - partBegin < ((bgn - partBegin) div BLOCK_LENGTH + 1) * BLOCK_LENGTH"
    using div_mult_mod_eq [of "bgn - partBegin" BLOCK_LENGTH] unfolding distrib_right by linarith
  then show ?thesis using \<open>bgn < fin\<close> by (simp add: block_end_def)
qed

lemma claim_loop_progress:
  assumes "rs_firstGap start partEnd R = Some (g, h)" and "free_stretch B cs g h = (b, e)"
  shows "start < partEnd \<and> start < h \<and> start \<le> b \<and> e \<le> h \<and> (b < e \<longrightarrow> start < block_end partBegin b e)"
  using rs_firstGap_progress [OF assms(1)] free_stretch_bounds [OF assms(2)] block_end_after [of b e partBegin] by auto

text \<open>The loop of \<open>claimGaps\<close> over the gaps of a part.\<close>

function claim_loop ::
  "owner \<Rightarrow> range \<Rightarrow> nat \<Rightarrow> bool \<Rightarrow> int \<Rightarrow> int \<Rightarrow> parts \<Rightarrow> range list \<Rightarrow> parts \<times> range list" where
  "claim_loop owner (partBegin, partEnd) quota endgame now start p out =
     (if length out \<ge> quota then (p, out)
      else case rs_firstGap start partEnd (received p) of
          None \<Rightarrow> (p, out)
        | Some (gapBegin, gapEnd) \<Rightarrow>
            (case free_stretch (blocking owner endgame now) (claims p) gapBegin gapEnd of (bgn, fin) \<Rightarrow>
               if bgn \<ge> fin
               then claim_loop owner (partBegin, partEnd) quota endgame now gapEnd p out
               else let stop = block_end partBegin bgn fin;
                        c = \<lparr>claim_end = stop, claim_owner = owner, claim_since = now\<rparr>
                    in claim_loop owner (partBegin, partEnd) quota endgame now stop
                         (p\<lparr>claims := claims_emplace bgn c (claims p)\<rparr>) (out @ [(bgn, stop)])))"
  by pat_completeness auto
termination
  by (relation "measure (\<lambda>(_, (_, partEnd), _, _, _, start, _, _). nat (partEnd - start))")
    (auto dest!: claim_loop_progress [OF _ sym] dest: rs_firstGap_progress)

declare claim_loop.simps [simp del]

definition claimGaps :: "parts \<Rightarrow> owner \<Rightarrow> nat \<Rightarrow> nat \<Rightarrow> bool \<Rightarrow> int \<Rightarrow> range list \<Rightarrow> parts \<times> range list" where
  "claimGaps p owner index quota endgame now out =
     claim_loop owner (part p index) quota endgame now (fst (part p index)) p out"

text \<open>The parts a source can serve, with what ranks them.\<close>

definition candidate :: "parts \<Rightarrow> bool list \<Rightarrow> nat \<Rightarrow> bool" where
  "candidate p available index \<longleftrightarrow> \<not> (verified p ! index \<or> filled p index \<or>
     available \<noteq> [] \<and> (index \<ge> length available \<or> \<not> available ! index))"

definition part_rank ::
  "parts \<Rightarrow> owner \<Rightarrow> int list \<Rightarrow> bool \<Rightarrow> (nat \<Rightarrow> nat) \<Rightarrow> nat \<Rightarrow> int \<times> int \<times> int \<times> int \<times> nat" where
  "part_rank p owner availability preview random index =
     (case part p index of (b, e) \<Rightarrow>
       let last = part_count p - 1;
           here = filter (\<lambda>(first, c). first < e \<and> claim_end c > b) (claims p);
           mine = list_ex (\<lambda>(_, c). claim_owner c = owner) here;
           claimedHere = (here \<noteq> []);
           started = (claimedHere \<or> rs_covered b e (received p) > 0);
           edge = (index = 0 \<or> index = last \<or>
             index + 1 = last \<and> parts_size p - fst (part p last) < PIECE_LENGTH div 3);
           rarity = (if index < length availability then availability ! index else 0)
       in (if mine then 0 else 1, if preview \<and> edge then 0 else 1, if started then 0 else 1, rarity, random index))"

fun claim_pass :: "owner \<Rightarrow> nat \<Rightarrow> bool \<Rightarrow> int \<Rightarrow> nat list \<Rightarrow> parts \<Rightarrow> range list \<Rightarrow> parts \<times> range list" where
  "claim_pass owner quota endgame now [] p out = (p, out)"
| "claim_pass owner quota endgame now (index # cs) p out =
     (if length out \<ge> quota then (p, out)
      else case claimGaps p owner index quota endgame now out of (p, out) \<Rightarrow>
        claim_pass owner quota endgame now cs p out)"

definition parts_claim ::
  "parts \<Rightarrow> owner \<Rightarrow> bool list \<Rightarrow> nat \<Rightarrow> int list \<Rightarrow> bool \<Rightarrow> int \<Rightarrow> (nat \<Rightarrow> nat) \<Rightarrow> parts \<times> range list" where
  "parts_claim p owner available quota availability preview now random =
     (let candidates = sort_key (part_rank p owner availability preview random)
            (filter (candidate p available) [0..<part_count p]);
          (p1, out) = claim_pass owner quota False now candidates p []
      in if out \<noteq> [] then (p1, out) else claim_pass owner quota True now candidates p1 out)"

fun claims_release :: "owner \<Rightarrow> int \<Rightarrow> (int \<times> claim) list \<Rightarrow> (int \<times> claim) list" where
  "claims_release owner k [] = []"
| "claims_release owner k ((k', c) # m) =
     (if k' = k \<and> claim_owner c = owner then m else (k', c) # claims_release owner k m)"

definition release :: "parts \<Rightarrow> owner \<Rightarrow> range \<Rightarrow> parts" where
  "release p owner block = p\<lparr>claims := claims_release owner (fst block) (claims p)\<rparr>"

definition releaseAll :: "parts \<Rightarrow> owner \<Rightarrow> parts" where
  "releaseAll p owner = p\<lparr>claims := filter (\<lambda>(_, c). claim_owner c \<noteq> owner) (claims p)\<rparr>"

definition claimed :: "parts \<Rightarrow> owner \<Rightarrow> int \<Rightarrow> int \<Rightarrow> bool" where
  "claimed p owner bgn fin =
     list_ex (\<lambda>(first, c). claim_owner c = owner \<and> first \<le> bgn \<and> fin \<le> claim_end c) (claims p)"

section \<open>Free bytes\<close>

text \<open>The bytes under claims that satisfy \<open>B\<close>.\<close>

definition claimed_bytes :: "(claim \<Rightarrow> bool) \<Rightarrow> (int \<times> claim) list \<Rightarrow> int set" where
  "claimed_bytes B cs = (\<Union>(k, c) \<in> {x \<in> set cs. B (snd x)}. {k..<claim_end c})"

lemma claimed_bytes_iff: "x \<in> claimed_bytes B cs \<longleftrightarrow> (\<exists>(k, c) \<in> set cs. B c \<and> k \<le> x \<and> x < claim_end c)"
  by (auto simp: claimed_bytes_def)

lemma claimed_bytes_mono: "set cs \<subseteq> set ds \<Longrightarrow> claimed_bytes B cs \<subseteq> claimed_bytes B ds"
  by (fastforce simp: claimed_bytes_iff)

lemma scan_claims_far: "\<forall>x \<in> set cs. fin \<le> fst x \<Longrightarrow> scan_claims B cs bgn fin = (False, bgn, fin)"
  by (induction cs) auto

lemma scan_claims_spec:
  assumes "sorted (map fst cs)" and "bgn < fin" and "scan_claims B cs bgn fin = (moved, b, e)"
  shows "if moved then e = fin \<and> {bgn..<b} \<subseteq> claimed_bytes B cs
    else b = bgn \<and> bgn < e \<and> e \<le> fin \<and> {bgn..<e} \<inter> claimed_bytes B cs = {}"
  using assms
proof (induction cs)
  case Nil
  then show ?case by (auto simp: claimed_bytes_iff)
next
  case (Cons x cs)
  obtain k c where x: "x = (k, c)" by (cases x)
  have s: "sorted (map fst cs)" "\<forall>y \<in> set cs. k \<le> fst y" using Cons.prems(1) x by auto
  consider "claim_end c \<le> bgn \<or> k \<ge> fin \<or> \<not> B c" | "bgn < claim_end c" "k < fin" "B c" "k \<le> bgn"
    | "bgn < claim_end c" "k < fin" "B c" "bgn < k" by linarith
  then show ?case
  proof cases
    case 1
    then have r: "scan_claims B cs bgn fin = (moved, b, e)" using Cons.prems(3) x by simp
    from Cons.IH [OF s(1) Cons.prems(2) r] show ?thesis
      using 1 by (auto simp: x claimed_bytes_iff split: if_splits)
  next
    case 2
    then have "moved" "b = claim_end c" "e = fin" using Cons.prems(3) x by auto
    then show ?thesis using 2 by (auto simp: x claimed_bytes_iff)
  next
    case 3
    then have "moved = False" "b = bgn" "e = k" using Cons.prems(3) x s(2) scan_claims_far [of cs k B bgn] by auto
    moreover have "{bgn..<k} \<inter> claimed_bytes B cs = {}" using s(2) by (fastforce simp: claimed_bytes_iff)
    ultimately show ?thesis using 3 by (auto simp: x claimed_bytes_iff)
  qed
qed

lemma free_stretch_spec:
  assumes "sorted (map fst cs)" and "free_stretch B cs bgn fin = (b, e)"
  shows "if b < e then {bgn..<b} \<subseteq> claimed_bytes B cs \<and> {b..<e} \<inter> claimed_bytes B cs = {}
    else {bgn..<fin} \<subseteq> claimed_bytes B cs"
  using assms
proof (induction B cs bgn fin rule: free_stretch.induct)
  case (1 B cs bgn fin)
  show ?case
  proof (cases "bgn < fin")
    case True
    obtain moved b' e' where s: "scan_claims B cs bgn fin = (moved, b', e')" by (metis prod_cases3)
    note sp = scan_claims_spec [OF "1.prems"(1) True s]
    have r: "(b, e) = (if moved then free_stretch B cs b' e' else (b', e'))"
      using "1.prems"(2) True by (simp add: free_stretch.simps [of B cs bgn fin] s)
    show ?thesis
    proof (cases moved)
      case True
      have "if b < e then {b'..<b} \<subseteq> claimed_bytes B cs \<and> {b..<e} \<inter> claimed_bytes B cs = {}
          else {b'..<e'} \<subseteq> claimed_bytes B cs"
        using "1.IH" [OF \<open>bgn < fin\<close> s [symmetric] refl True "1.prems"(1)] r True by simp
      moreover have "{bgn..<b'} \<subseteq> claimed_bytes B cs" "e' = fin" using sp True by simp_all
      moreover have "{bgn..<z} \<subseteq> {bgn..<b'} \<union> {b'..<z}" for z by auto
      ultimately show ?thesis by (cases "b < e") (simp_all, (meson Un_least order_trans)+)
    next
      case False
      then show ?thesis using sp r by auto
    qed
  next
    case False
    then show ?thesis using "1.prems"(2) by (simp add: free_stretch.simps [of B cs bgn fin])
  qed
qed

section \<open>What a claim does\<close>

lemma set_claims_emplace [simp]: "set (claims_emplace k c m) = insert (k, c) (set m)"
  by (induction m) (auto split: if_splits)

lemma sorted_claims_emplace: "sorted (map fst m) \<Longrightarrow> sorted (map fst (claims_emplace k c m))"
  by (induction m) fastforce+

abbreviation block_bytes :: "range \<Rightarrow> int set" where
  "block_bytes x \<equiv> {fst x..<snd x}"

definition block_claim :: "owner \<Rightarrow> int \<Rightarrow> range \<Rightarrow> int \<times> claim" where
  "block_claim owner now x = (fst x, \<lparr>claim_end = snd x, claim_owner = owner, claim_since = now\<rparr>)"

text \<open>The state after blocks have been claimed: only the claims have grown.\<close>

definition claims_grown :: "owner \<Rightarrow> int \<Rightarrow> parts \<Rightarrow> parts \<Rightarrow> range list \<Rightarrow> bool" where
  "claims_grown owner now p p' new \<longleftrightarrow> parts_size p' = parts_size p \<and> verified p' = verified p \<and>
     received p' = received p \<and> sorted (map fst (claims p')) \<and>
     set (claims p') = set (claims p) \<union> block_claim owner now ` set new"

text \<open>A block of a part: inside it, on its grid, of bytes that are missing and free.\<close>

definition good_block :: "(claim \<Rightarrow> bool) \<Rightarrow> parts \<Rightarrow> range \<Rightarrow> range \<Rightarrow> bool" where
  "good_block B p pt x \<longleftrightarrow> fst pt \<le> fst x \<and> fst x < snd x \<and> snd x \<le> snd pt \<and>
     (snd x - 1 - fst pt) div BLOCK_LENGTH = (fst x - fst pt) div BLOCK_LENGTH \<and>
     block_bytes x \<inter> bytes (received p) = {} \<and> block_bytes x \<inter> claimed_bytes B (claims p) = {}"

definition apart :: "range \<Rightarrow> range \<Rightarrow> bool" where
  "apart x y \<longleftrightarrow> block_bytes x \<inter> block_bytes y = {}"

lemma block_end_cell:
  assumes "bgn < fin" and "partBegin \<le> bgn"
  shows "(block_end partBegin bgn fin - 1 - partBegin) div BLOCK_LENGTH = (bgn - partBegin) div BLOCK_LENGTH"
proof -
  define q where "q = (bgn - partBegin) div BLOCK_LENGTH"
  have B: "0 < BLOCK_LENGTH" by (simp add: BLOCK_LENGTH_def)
  have m: "q * BLOCK_LENGTH \<le> bgn - partBegin"
    using div_mult_mod_eq [of "bgn - partBegin" BLOCK_LENGTH] pos_mod_sign [OF B, of "bgn - partBegin"]
    unfolding q_def by linarith
  have lo: "q * BLOCK_LENGTH \<le> block_end partBegin bgn fin - 1 - partBegin"
    using m block_end_after [OF assms(1), of partBegin] by linarith
  have hi: "block_end partBegin bgn fin - 1 - partBegin < (q + 1) * BLOCK_LENGTH" by (simp add: block_end_def q_def)
  have "(block_end partBegin bgn fin - 1 - partBegin) div BLOCK_LENGTH = q"
    using lo hi B by (intro int_div_pos_eq [of _ _ _ "block_end partBegin bgn fin - 1 - partBegin - q * BLOCK_LENGTH"])
      (simp_all add: algebra_simps)
  then show ?thesis by (simp add: q_def)
qed

definition claim_outcome ::
  "(claim \<Rightarrow> bool) \<Rightarrow> owner \<Rightarrow> int \<Rightarrow> range \<Rightarrow> nat \<Rightarrow> int \<Rightarrow> parts \<Rightarrow> range list \<Rightarrow> parts \<Rightarrow> range list \<Rightarrow> range list \<Rightarrow> bool" where
  "claim_outcome B owner now pt quota start p out p' out' new \<longleftrightarrow>
     out' = out @ new \<and> claims_grown owner now p p' new \<and> list_all (good_block B p pt) new \<and>
     sorted_wrt apart new \<and> (length out \<le> quota \<longrightarrow> length out' \<le> quota) \<and>
     (length out' < quota \<longrightarrow> {start..<snd pt} \<subseteq> bytes (received p) \<union> claimed_bytes B (claims p'))"

lemma outcome_nothing:
  assumes "sorted (map fst (claims p))" and "length out \<ge> quota \<or> {start..<snd pt} \<subseteq> bytes (received p)"
  shows "claim_outcome B owner now pt quota start p out p out []"
  using assms by (auto simp: claim_outcome_def claims_grown_def)

lemma outcome_skip:
  assumes "claim_outcome B owner now pt quota h p out p' out' new"
    and "{start..<h} \<subseteq> bytes (received p) \<union> claimed_bytes B (claims p)"
  shows "claim_outcome B owner now pt quota start p out p' out' new"
proof -
  have "claimed_bytes B (claims p) \<subseteq> claimed_bytes B (claims p')"
    using assms(1) by (intro claimed_bytes_mono) (simp add: claim_outcome_def claims_grown_def)
  moreover have "{start..<snd pt} \<subseteq> {start..<h} \<union> {h..<snd pt}" by auto
  ultimately have "{h..<snd pt} \<subseteq> bytes (received p) \<union> claimed_bytes B (claims p') \<Longrightarrow>
      {start..<snd pt} \<subseteq> bytes (received p) \<union> claimed_bytes B (claims p')"
    using assms(2) by blast
  then show ?thesis using assms(1) unfolding claim_outcome_def by blast
qed

lemma good_block_less:
  assumes "good_block B q pt y" and "received q = received p" and "claimed_bytes B (claims p) \<subseteq> claimed_bytes B (claims q)"
  shows "good_block B p pt y"
  using assms unfolding good_block_def by (metis disjoint_iff subsetD)

text \<open>Claiming one block and going on behind it.\<close>

lemma outcome_block:
  assumes q_def: "q = p\<lparr>claims := claims_emplace (fst x) (snd (block_claim owner now x)) (claims p)\<rparr>"
    and "claim_outcome B owner now pt quota (snd x) q (out @ [x]) p' out' new"
    and "good_block B p pt x" and "B (snd (block_claim owner now x))" and "length out < quota"
    and "{start..<fst x} \<subseteq> bytes (received p) \<union> claimed_bytes B (claims p)"
  shows "claim_outcome B owner now pt quota start p out p' out' (x # new)"
proof -
  have q: "set (claims q) = insert (block_claim owner now x) (set (claims p))" "received q = received p"
    by (simp_all add: q_def block_claim_def)
  have sub: "claimed_bytes B (claims p) \<subseteq> claimed_bytes B (claims q)"
    using q by (intro claimed_bytes_mono) auto
  have own: "block_bytes x \<subseteq> claimed_bytes B (claims q)"
    using q assms(4) by (auto simp: claimed_bytes_iff block_claim_def)
  have new: "list_all (good_block B q pt) new" "claims_grown owner now q p' new"
    "sorted_wrt apart new" "out' = out @ x # new" "length (out @ [x]) \<le> quota \<longrightarrow> length out' \<le> quota"
    using assms(2) by (auto simp: claim_outcome_def)
  have g: "\<forall>y \<in> set new. good_block B p pt y" using new(1) good_block_less [OF _ q(2) sub] by (simp add: list_all_iff)
  have a: "\<forall>y \<in> set new. apart x y"
    using new(1) own unfolding list_all_iff good_block_def apart_def by (metis disjoint_iff subsetD)
  have grown: "claims_grown owner now p p' (x # new)"
    using new(2) q by (auto simp: claims_grown_def q_def)
  have "{start..<snd x} \<subseteq> {start..<fst x} \<union> block_bytes x" by auto
  then have "{start..<snd x} \<subseteq> bytes (received q) \<union> claimed_bytes B (claims q)"
    using assms(6) own sub unfolding q(2) by blast
  from outcome_skip [OF assms(2) this] show ?thesis
    using g a grown new assms(3,5) q(2) by (simp add: claim_outcome_def list_all_iff)
qed

lemma claim_loop_outcome:
  assumes "rs_ok (received p)" and "sorted (map fst (claims p))" and "fst pt \<le> start"
    and "claim_loop owner pt quota endgame now start p out = (p', out')"
  shows "\<exists>new. claim_outcome (blocking owner endgame now) owner now pt quota start p out p' out' new"
  using assms
proof (induction owner pt quota endgame now start p out rule: claim_loop.induct)
  case (1 owner pb pe quota endgame now start p out)
  let ?B = "blocking owner endgame now"
  note loop = trans [OF claim_loop.simps [symmetric] "1.prems"(4)]
  show ?case
  proof (cases "length out \<ge> quota")
    case True
    then have "p' = p" "out' = out" using loop by auto
    moreover have "claim_outcome ?B owner now (pb, pe) quota start p out p out []"
      using True by (intro outcome_nothing [OF "1.prems"(2)]) simp
    ultimately show ?thesis by blast
  next
    case more: False
    show ?thesis
    proof (cases "rs_firstGap start pe (received p)")
      case None
      have "p' = p" "out' = out" using loop more None by auto
      moreover have "claim_outcome ?B owner now (pb, pe) quota start p out p out []"
        using rs_firstGap_None [OF "1.prems"(1) None] by (intro outcome_nothing [OF "1.prems"(2)]) simp
      ultimately show ?thesis by blast
    next
      case (Some gh)
      obtain g h where gh: "gh = (g, h)" by (cases gh)
      obtain b e where f: "free_stretch ?B (claims p) g h = (b, e)" by (cases "free_stretch ?B (claims p) g h")
      have gap: "start \<le> g" "g < h" "h \<le> pe" "{start..<g} \<subseteq> bytes (received p)" "{g..<h} \<inter> bytes (received p) = {}"
        using rs_firstGap_Some [OF "1.prems"(1), of start pe g h] Some gh by auto
      note fs = free_stretch_spec [OF "1.prems"(2) f] and fb = free_stretch_bounds [OF f]
      show ?thesis
      proof (cases "b < e")
        case False
        have "claim_loop owner (pb, pe) quota endgame now h p out = (p', out')"
          using loop more Some gh f False by simp
        from "1.IH"(1) [OF more Some gh [symmetric] f [symmetric] _ "1.prems"(1,2) _ this]
        obtain new where new: "claim_outcome ?B owner now (pb, pe) quota h p out p' out' new"
          using False gap "1.prems"(3) by auto
        have "{start..<h} \<subseteq> {start..<g} \<union> {g..<h}" by auto
        then have "{start..<h} \<subseteq> bytes (received p) \<union> claimed_bytes ?B (claims p)" using fs False gap(4) by simp blast
        from outcome_skip [OF new this]
        show ?thesis by blast
      next
        case True
        define stop where "stop = block_end pb b e"
        define q where "q = p\<lparr>claims := claims_emplace b \<lparr>claim_end = stop, claim_owner = owner, claim_since = now\<rparr> (claims p)\<rparr>"
        have st: "b < stop" "stop \<le> e" using block_end_after [OF True] by (simp_all add: stop_def block_end_def)
        have "claim_loop owner (pb, pe) quota endgame now stop q (out @ [(b, stop)]) = (p', out')"
          using loop more Some gh f True by (simp add: Let_def stop_def q_def)
        from "1.IH"(2) [OF more Some gh [symmetric] f [symmetric] _ stop_def refl, folded q_def, OF _ _ _ _ this]
        obtain new where new: "claim_outcome ?B owner now (pb, pe) quota stop q (out @ [(b, stop)]) p' out' new"
          using True st gap fb "1.prems" sorted_claims_emplace by (auto simp: q_def)
        have cover: "{start..<b} \<subseteq> bytes (received p) \<union> claimed_bytes ?B (claims p)"
        proof -
          have "{start..<b} \<subseteq> {start..<g} \<union> {g..<b}" by auto
          then show ?thesis using fs True gap(4) by simp blast
        qed
        have "good_block ?B p (pb, pe) (b, stop)"
        proof -
          have sub: "{b..<stop} \<subseteq> {g..<h}" "{b..<stop} \<subseteq> {b..<e}" using st fb by auto
          have d1: "{b..<stop} \<inter> bytes (received p) = {}" using sub(1) gap(5) by blast
          have "{b..<e} \<inter> claimed_bytes ?B (claims p) = {}" using fs True by simp
          then have d2: "{b..<stop} \<inter> claimed_bytes ?B (claims p) = {}" using sub(2) by blast
          have pb: "pb \<le> b" using gap(1) fb "1.prems"(3) by simp
          then show ?thesis
            using d1 d2 block_end_cell [OF True pb, folded stop_def] st gap(3) fb by (simp add: good_block_def)
        qed
        then have "claim_outcome ?B owner now (pb, pe) quota start p out p' out' ((b, stop) # new)"
          by (rule outcome_block [where q = q, rotated 2])
            (use new cover more in \<open>simp_all add: q_def block_claim_def blocking_def\<close>)
        then show ?thesis by blast
      qed
    qed
  qed
qed

lemma claims_grown_trans:
  "claims_grown owner now p q new \<Longrightarrow> claims_grown owner now q r new' \<Longrightarrow> claims_grown owner now p r (new @ new')"
  by (auto simp: claims_grown_def)

lemma claims_grown_part: "claims_grown owner now p q new \<Longrightarrow> part q i = part p i"
  by (simp add: claims_grown_def part_def)

lemma claims_grown_bytes: "claims_grown owner now p q new \<Longrightarrow> claimed_bytes B (claims p) \<subseteq> claimed_bytes B (claims q)"
  by (intro claimed_bytes_mono) (simp add: claims_grown_def)

lemma claims_grown_new:
  assumes "claims_grown owner now p q new" and "x \<in> set new" and "B (snd (block_claim owner now x))"
  shows "block_bytes x \<subseteq> claimed_bytes B (claims q)"
proof -
  have "block_claim owner now x \<in> set (claims q)" using assms(1,2) by (simp add: claims_grown_def)
  then show ?thesis using assms(3) by (force simp: claimed_bytes_iff block_claim_def)
qed

text \<open>A pass over the candidates.\<close>

definition pass_outcome ::
  "(claim \<Rightarrow> bool) \<Rightarrow> owner \<Rightarrow> int \<Rightarrow> nat list \<Rightarrow> nat \<Rightarrow> parts \<Rightarrow> range list \<Rightarrow> parts \<Rightarrow> range list \<Rightarrow> range list \<Rightarrow> bool" where
  "pass_outcome B owner now cs quota p out p' out' new \<longleftrightarrow>
     out' = out @ new \<and> claims_grown owner now p p' new \<and>
     (\<forall>x \<in> set new. \<exists>i \<in> set cs. good_block B p (part p i) x) \<and>
     sorted_wrt apart new \<and> (length out \<le> quota \<longrightarrow> length out' \<le> quota) \<and>
     (length out' < quota \<longrightarrow> (\<forall>i \<in> set cs. block_bytes (part p i) \<subseteq> bytes (received p) \<union> claimed_bytes B (claims p')))"

lemma pass_cons:
  assumes "claim_outcome B owner now (part p i) quota (fst (part p i)) p out q out1 new"
    and "pass_outcome B owner now cs quota q out1 p' out' new'"
    and "\<And>x. B (snd (block_claim owner now x))"
  shows "pass_outcome B owner now (i # cs) quota p out p' out' (new @ new')"
proof -
  have a: "out1 = out @ new" "claims_grown owner now p q new" "\<forall>x \<in> set new. good_block B p (part p i) x"
    "sorted_wrt apart new" "length out \<le> quota \<longrightarrow> length out1 \<le> quota"
    "length out1 < quota \<longrightarrow> block_bytes (part p i) \<subseteq> bytes (received p) \<union> claimed_bytes B (claims q)"
    using assms(1) by (auto simp: claim_outcome_def list_all_iff)
  have b: "out' = out1 @ new'" "claims_grown owner now q p' new'"
    "\<forall>x \<in> set new'. \<exists>i \<in> set cs. good_block B q (part p i) x"
    "sorted_wrt apart new'" "length out1 \<le> quota \<longrightarrow> length out' \<le> quota"
    "length out' < quota \<longrightarrow> (\<forall>i \<in> set cs. block_bytes (part p i) \<subseteq> bytes (received p) \<union> claimed_bytes B (claims p'))"
    using assms(2) claims_grown_part [OF a(2)] a(2) unfolding pass_outcome_def by (auto simp: claims_grown_def)
  have r: "received q = received p" using a(2) by (simp add: claims_grown_def)
  have ap: "apart x y" if "x \<in> set new" "y \<in> set new'" for x y
    using b(3) that(2) claims_grown_new [where B = B, OF a(2) that(1) assms(3)]
    unfolding good_block_def apart_def by (metis disjoint_iff subsetD)
  have g: "\<forall>x \<in> set new'. \<exists>i \<in> set cs. good_block B p (part p i) x"
    using b(3) good_block_less [OF _ r claims_grown_bytes [OF a(2)]] by blast
  have c: "length out' < quota \<longrightarrow> block_bytes (part p i) \<subseteq> bytes (received p) \<union> claimed_bytes B (claims p')"
  proof
    assume "length out' < quota"
    then have "length out1 < quota" using b(1) by simp
    then show "block_bytes (part p i) \<subseteq> bytes (received p) \<union> claimed_bytes B (claims p')"
      using a(6) claims_grown_bytes [OF b(2), of B] by blast
  qed
  show ?thesis
    unfolding pass_outcome_def sorted_wrt_append
    using a b g ap c claims_grown_trans [OF a(2) b(2)] by auto
qed

lemma claim_pass_outcome:
  assumes "rs_ok (received p)" and "sorted (map fst (claims p))"
    and "claim_pass owner quota endgame now cs p out = (p', out')"
  shows "\<exists>new. pass_outcome (blocking owner endgame now) owner now cs quota p out p' out' new"
  using assms
proof (induction cs arbitrary: p out)
  case Nil
  then show ?case by (intro exI [of _ "[]"]) (simp add: pass_outcome_def claims_grown_def)
next
  case (Cons i cs)
  let ?B = "blocking owner endgame now"
  have own: "?B (snd (block_claim owner now x))" for x by (simp add: blocking_def block_claim_def)
  show ?case
  proof (cases "length out \<ge> quota")
    case True
    then show ?thesis using Cons.prems
      by (intro exI [of _ "[]"]) (simp add: pass_outcome_def claims_grown_def)
  next
    case False
    obtain q out1 where c: "claimGaps p owner i quota endgame now out = (q, out1)"
      by (cases "claimGaps p owner i quota endgame now out")
    then obtain new where new: "claim_outcome ?B owner now (part p i) quota (fst (part p i)) p out q out1 new"
      using claim_loop_outcome [OF Cons.prems(1,2) order.refl] unfolding claimGaps_def by blast
    then have g: "claims_grown owner now p q new" by (simp add: claim_outcome_def)
    have "claim_pass owner quota endgame now cs q out1 = (p', out')" using Cons.prems(3) False c by simp
    from Cons.IH [OF _ _ this] obtain new' where "pass_outcome ?B owner now cs quota q out1 p' out' new'"
      using g Cons.prems(1) by (auto simp: claims_grown_def)
    from pass_cons [OF new this own] show ?thesis by blast
  qed
qed

section \<open>The invariant\<close>

text \<open>A claim covers bytes of one part.\<close>

definition claim_in :: "parts \<Rightarrow> int \<times> claim \<Rightarrow> bool" where
  "claim_in p x \<longleftrightarrow> (\<exists>i < part_count p. fst (part p i) \<le> fst x \<and> fst x < claim_end (snd x) \<and> claim_end (snd x) \<le> snd (part p i))"

definition parts_ok :: "parts \<Rightarrow> bool" where
  "parts_ok p \<longleftrightarrow> part_count p = nat ((parts_size p + PIECE_LENGTH - 1) div PIECE_LENGTH) \<and>
     rs_ok (received p) \<and> bytes (received p) \<subseteq> {0..<parts_size p} \<and>
     (\<forall>i < part_count p. verified p ! i \<longrightarrow> block_bytes (part p i) \<subseteq> bytes (received p)) \<and>
     sorted (map fst (claims p)) \<and>
     (\<forall>x \<in> set (claims p). claim_in p x)"

text \<open>The handlers of the sources and of the hash checks call these operations in any order.\<close>

inductive parts_step :: "parts \<Rightarrow> parts \<Rightarrow> bool" where
  add: "parts_add p b e = (r, p') \<Longrightarrow> parts_step p p'"
| verify: "i < part_count p \<Longrightarrow> parts_step p (verify p i)"
| reject: "i < part_count p \<Longrightarrow> parts_step p (reject p i)"
| claim: "parts_claim p owner available quota availability preview now random = (p', out) \<Longrightarrow> parts_step p p'"
| release: "parts_step p (release p owner block)"
| releaseAll: "parts_step p (releaseAll p owner)"

lemma parts_disjoint: "i \<noteq> j \<Longrightarrow> block_bytes (part p i) \<inter> block_bytes (part p j) = {}"
proof -
  have *: "block_bytes (part p i) \<inter> block_bytes (part p j) = {}" if "i < j" for i j
  proof -
    have "(int i + 1) * PIECE_LENGTH \<le> int j * PIECE_LENGTH"
      using that by (intro mult_right_mono) (simp_all add: PIECE_LENGTH_def)
    then show ?thesis by (auto simp: part_def Let_def distrib_right)
  qed
  assume "i \<noteq> j"
  then show ?thesis using * [of i j] * [of j i] by (cases "i < j") (auto simp: Int_commute)
qed

lemma part_in_file: "block_bytes (part p i) \<subseteq> {0..<parts_size p}"
  by (auto simp: part_def Let_def PIECE_LENGTH_def)

lemma parts_size_new: "parts_size (new_parts n) = n"
  by (simp add: new_parts_def)

lemma parts_new_ok: "parts_ok (new_parts n)"
  by (simp add: parts_ok_def new_parts_def part_count_def)

lemma part_upd [simp]:
  "part (p\<lparr>received := R\<rparr>) i = part p i" "part (p\<lparr>verified := v\<rparr>) i = part p i" "part (p\<lparr>claims := cs\<rparr>) i = part p i"
  by (simp_all add: part_def)

lemma claim_in_cong: "parts_size q = parts_size p \<Longrightarrow> part_count q = part_count p \<Longrightarrow> claim_in q = claim_in p"
  by (auto simp: fun_eq_iff claim_in_def part_def)

lemma parts_ok_received:
  assumes "parts_ok p" and "rs_ok R" and "bytes R \<subseteq> {0..<parts_size p}"
    and "length v = part_count p"
    and "\<forall>i < part_count p. v ! i \<longrightarrow> block_bytes (part p i) \<subseteq> bytes R"
  shows "parts_ok (p\<lparr>verified := v, received := R\<rparr>)"
proof -
  let ?q = "p\<lparr>verified := v, received := R\<rparr>"
  have "part_count ?q = part_count p" using assms(4) by (simp add: part_count_def)
  then show ?thesis using assms(1-3,5) claim_in_cong [of ?q p] by (simp add: parts_ok_def)
qed

lemma parts_add_ok:
  assumes "parts_ok p" and "parts_add p b e = (r, p')"
  shows "parts_ok p'"
proof -
  have r: "rs_ok (received p)" and s: "bytes (received p) \<subseteq> {0..<parts_size p}"
    and v: "\<forall>i < part_count p. verified p ! i \<longrightarrow> block_bytes (part p i) \<subseteq> bytes (received p)"
    using assms(1) by (auto simp: parts_ok_def)
  define R where "R = rs_add (max b 0) (min e (parts_size p)) (received p)"
  have R: "rs_ok R" "bytes R = bytes (received p) \<union> {max b 0..<min e (parts_size p)}"
    using r by (simp_all add: R_def rs.invar_add rs.bytes_add)
  have "parts_ok (p\<lparr>verified := verified p, received := R\<rparr>)"
    by (rule parts_ok_received [OF assms(1) R(1)]) (use R(2) s v in \<open>auto simp: part_count_def\<close>)
  then have "parts_ok (p\<lparr>received := R\<rparr>)" by simp
  then show ?thesis using assms by (auto simp: parts_add_def Let_def R_def split: if_splits)
qed

lemma parts_verify_ok:
  assumes "parts_ok p" and "i < part_count p"
  shows "parts_ok (verify p i)"
proof -
  obtain b e where be: "part p i = (b, e)" by (cases "part p i")
  have r: "rs_ok (received p)" and s: "bytes (received p) \<subseteq> {0..<parts_size p}"
    and v: "\<forall>i < part_count p. verified p ! i \<longrightarrow> block_bytes (part p i) \<subseteq> bytes (received p)"
    using assms(1) by (auto simp: parts_ok_def)
  have R: "bytes (rs_add b e (received p)) = bytes (received p) \<union> block_bytes (part p i)"
    using r be by (simp add: rs.bytes_add)
  have "block_bytes (part p j) \<subseteq> bytes (rs_add b e (received p))"
    if "j < part_count p" "(verified p)[i := True] ! j" for j
    using that v R by (cases "j = i") auto
  then have "parts_ok (p\<lparr>verified := (verified p)[i := True], received := rs_add b e (received p)\<rparr>)"
    using R r s part_in_file [where p = p and i = i]
    by (intro parts_ok_received [OF assms(1)]) (simp_all add: rs.invar_add part_count_def)
  then show ?thesis by (simp add: verify_def be)
qed

lemma parts_reject_ok:
  assumes "parts_ok p" and "i < part_count p"
  shows "parts_ok (reject p i)"
proof -
  obtain b e where be: "part p i = (b, e)" by (cases "part p i")
  have r: "rs_ok (received p)" and s: "bytes (received p) \<subseteq> {0..<parts_size p}"
    and v: "\<forall>i < part_count p. verified p ! i \<longrightarrow> block_bytes (part p i) \<subseteq> bytes (received p)"
    using assms(1) by (auto simp: parts_ok_def)
  have R: "bytes (rs_remove b e (received p)) = bytes (received p) - block_bytes (part p i)"
    using r be by (simp add: rs.bytes_remove)
  have keep: "block_bytes (part p j) \<subseteq> bytes (rs_remove b e (received p))"
    if "j < part_count p" "(verified p)[i := False] ! j" for j
  proof -
    have "j \<noteq> i" "verified p ! j" using that assms(2) by (auto simp: nth_list_update part_count_def split: if_splits)
    then show ?thesis using parts_disjoint [where p = p and i = j and j = i] v that(1) unfolding R by blast
  qed
  have "parts_ok (p\<lparr>verified := (verified p)[i := False], received := rs_remove b e (received p)\<rparr>)"
    by (rule parts_ok_received [OF assms(1)]) (use R r s keep in \<open>auto simp: rs.invar_remove part_count_def\<close>)
  then show ?thesis by (simp add: reject_def be)
qed

lemma parts_claims_ok:
  assumes "parts_ok p" and "sorted (map fst cs)"
    and "\<forall>x \<in> set cs. claim_in p x"
  shows "parts_ok (p\<lparr>claims := cs\<rparr>)"
  using assms claim_in_cong [of "p\<lparr>claims := cs\<rparr>" p] by (simp add: parts_ok_def part_count_def)

lemma parts_release_ok:
  assumes "parts_ok p"
  shows "parts_ok (release p owner block)"
proof -
  have sub: "set (claims_release owner k cs) \<subseteq> set cs" for k cs
    by (induction cs) (auto split: if_splits)
  have "sorted (map fst cs) \<Longrightarrow> sorted (map fst (claims_release owner k cs))" for k cs
    by (induction cs) (use sub in fastforce)+
  then show ?thesis
    using assms sub [of "fst block" "claims p"] unfolding release_def
    by (intro parts_claims_ok) (auto simp: parts_ok_def)
qed

lemma parts_releaseAll_ok: "parts_ok p \<Longrightarrow> parts_ok (releaseAll p owner)"
  unfolding releaseAll_def by (intro parts_claims_ok) (auto simp: parts_ok_def sorted_filter)

section \<open>What \<open>claim\<close> returns\<close>

lemma claimed_bytes_weaken: "(\<And>c. A c \<Longrightarrow> B c) \<Longrightarrow> claimed_bytes A cs \<subseteq> claimed_bytes B cs"
  by (fastforce simp: claimed_bytes_iff)

lemma claimed_bytes_set: "set cs = set ds \<Longrightarrow> claimed_bytes B cs = claimed_bytes B ds"
  by (simp add: claimed_bytes_def)

abbreviation any_claim :: "claim \<Rightarrow> bool" where
  "any_claim \<equiv> \<lambda>_. True"

lemma blocking_normal: "blocking owner False now = any_claim"
  by (simp add: blocking_def fun_eq_iff)

text \<open>The parts the source may serve.\<close>

definition candidates :: "parts \<Rightarrow> bool list \<Rightarrow> nat set" where
  "candidates p available = {i. i < part_count p \<and> candidate p available i}"

definition claim_spec :: "parts \<Rightarrow> owner \<Rightarrow> bool list \<Rightarrow> nat \<Rightarrow> int \<Rightarrow> parts \<Rightarrow> range list \<Rightarrow> bool" where
  "claim_spec p owner available quota now p' out \<longleftrightarrow>
     length out \<le> quota \<and> claims_grown owner now p p' out \<and> sorted_wrt apart out \<and>
     (\<forall>x \<in> set out. \<exists>i \<in> candidates p available. good_block (blocking owner True now) p (part p i) x) \<and>
     ((\<exists>x \<in> set out. block_bytes x \<inter> claimed_bytes any_claim (claims p) \<noteq> {}) \<longrightarrow>
        (\<forall>i \<in> candidates p available. block_bytes (part p i) \<subseteq> bytes (received p) \<union> claimed_bytes any_claim (claims p))) \<and>
     (out = [] \<and> 0 < quota \<longrightarrow>
        (\<forall>i \<in> candidates p available.
           block_bytes (part p i) \<subseteq> bytes (received p) \<union> claimed_bytes (blocking owner True now) (claims p)))"

lemma good_block_weaken:
  "good_block any_claim p pt x \<Longrightarrow> good_block B p pt x \<and> block_bytes x \<inter> claimed_bytes any_claim (claims p) = {}"
  using claimed_bytes_weaken [of B any_claim "claims p"] unfolding good_block_def by (metis disjoint_iff subsetD)

lemma parts_claim_spec:
  assumes ok: "parts_ok p"
    and claim: "parts_claim p owner available quota availability preview now random = (p', out)"
  shows "claim_spec p owner available quota now p' out"
proof -
  define cs where "cs = sort_key (part_rank p owner availability preview random) (filter (candidate p available) [0..<part_count p])"
  have cs: "set cs = candidates p available" by (auto simp: cs_def candidates_def)
  have r: "rs_ok (received p)" "sorted (map fst (claims p))" using ok by (simp_all add: parts_ok_def)
  obtain p1 out1 where first: "claim_pass owner quota False now cs p [] = (p1, out1)" by fastforce
  obtain new where new: "pass_outcome any_claim owner now cs quota p [] p1 out1 new"
    using claim_pass_outcome [OF r first] unfolding blocking_normal by blast
  then have n: "out1 = new" "claims_grown owner now p p1 new" "length out1 \<le> quota" by (auto simp: pass_outcome_def)
  show ?thesis
  proof (cases "out1 = []")
    case False
    then have eq: "p' = p1" "out = out1" using claim first by (auto simp: parts_claim_def Let_def cs_def)
    have "\<forall>x \<in> set new. \<exists>i \<in> set cs. good_block any_claim p (part p i) x" "sorted_wrt apart new"
      using new by (auto simp: pass_outcome_def)
    then show ?thesis using n False good_block_weaken unfolding claim_spec_def eq cs by metis
  next
    case True
    then have second: "claim_pass owner quota True now cs p1 [] = (p', out)"
      using claim first by (auto simp: parts_claim_def Let_def cs_def)
    have same: "received p1 = received p" "set (claims p1) = set (claims p)" "sorted (map fst (claims p1))" "part p1 = part p"
      using n(1,2) True by (auto simp: claims_grown_def part_def)
    note sameb = claimed_bytes_set [OF same(2)]
    obtain new2 where "pass_outcome (blocking owner True now) owner now cs quota p1 [] p' out new2"
      using claim_pass_outcome [OF _ same(3) second] r(1) same(1) by auto
    then have m: "out = new2" "claims_grown owner now p1 p' out" "length out \<le> quota" "sorted_wrt apart out"
      "\<forall>x \<in> set out. \<exists>i \<in> candidates p available. good_block (blocking owner True now) p (part p i) x"
      "out = [] \<and> 0 < quota \<longrightarrow> (\<forall>i \<in> candidates p available.
         block_bytes (part p i) \<subseteq> bytes (received p) \<union> claimed_bytes (blocking owner True now) (claims p'))"
      using same sameb unfolding pass_outcome_def cs good_block_def by auto
    have g: "claims_grown owner now p p' out" using claims_grown_trans [OF n(2) m(2)] n(1) True by simp
    have "out = [] \<Longrightarrow> claimed_bytes B (claims p') = claimed_bytes B (claims p)" for B
      using g by (intro claimed_bytes_set) (simp add: claims_grown_def)
    moreover have "0 < quota \<longrightarrow> (\<forall>i \<in> candidates p available.
        block_bytes (part p i) \<subseteq> bytes (received p) \<union> claimed_bytes any_claim (claims p))"
      using new True same sameb unfolding pass_outcome_def cs by auto
    moreover have "0 < quota \<or> out = []" using m(3) by (cases out) auto
    ultimately show ?thesis using m g unfolding claim_spec_def by auto
  qed
qed

lemma parts_claim_ok:
  assumes "parts_ok p" and "parts_claim p owner available quota availability preview now random = (p', out)"
  shows "parts_ok p' \<and> parts_size p' = parts_size p"
proof -
  note sp = parts_claim_spec [OF assms, unfolded claim_spec_def]
  then have g: "claims_grown owner now p p' out" by blast
  then have p': "p' = p\<lparr>claims := claims p'\<rparr>" "parts_size p' = parts_size p"
    by (auto simp: claims_grown_def intro: parts.equality)
  have "claim_in p (block_claim owner now x)" if "x \<in> set out" for x
    using sp that by (fastforce simp: claim_in_def block_claim_def good_block_def candidates_def)
  then have "\<forall>x \<in> set (claims p'). claim_in p x" using g assms(1) by (auto simp: claims_grown_def parts_ok_def)
  then have "parts_ok (p\<lparr>claims := claims p'\<rparr>)"
    using g by (intro parts_claims_ok [OF assms(1)]) (auto simp: claims_grown_def)
  then show ?thesis using p' by metis
qed

lemma parts_step_ok:
  assumes "parts_ok p \<and> parts_size p = n" and "parts_step p p'"
  shows "parts_ok p' \<and> parts_size p' = n"
  using assms(2,1)
proof (cases rule: parts_step.cases)
  case (add b e r)
  then have "parts_size p' = parts_size p" by (auto simp: parts_add_def Let_def split: if_splits)
  then show ?thesis using add assms(1) parts_add_ok by metis
next
  case (claim owner available quota availability preview now random out)
  then show ?thesis using assms(1) parts_claim_ok by metis
qed (auto simp: parts_verify_ok parts_reject_ok parts_release_ok parts_releaseAll_ok,
     auto simp: verify_def reject_def release_def releaseAll_def split: prod.splits)

interpretation download: transition_system "\<lambda>p. p = new_parts n" parts_step "\<lambda>p. parts_ok p \<and> parts_size p = n" for n
proof
  show "parts_ok s \<and> parts_size s = n" if "s = new_parts n" for s
    using that parts_new_ok by (simp add: parts_size_new)
  show "parts_ok s' \<and> parts_size s' = n" if "parts_ok s \<and> parts_size s = n" "parts_step s s'" for s s'
    using that by (rule parts_step_ok)
qed

lemma part_of_byte:
  assumes "parts_ok p" and "0 \<le> k" and "k < parts_size p"
  shows "partOf k < part_count p" and "k \<in> block_bytes (part p (partOf k))"
proof -
  have P: "0 < PIECE_LENGTH" by (simp add: PIECE_LENGTH_def)
  have d: "0 \<le> k div PIECE_LENGTH" using assms(2) P by (simp add: pos_imp_zdiv_nonneg_iff)
  have "k div PIECE_LENGTH < (parts_size p + PIECE_LENGTH - 1) div PIECE_LENGTH"
  proof -
    have "(k + PIECE_LENGTH) div PIECE_LENGTH \<le> (parts_size p + PIECE_LENGTH - 1) div PIECE_LENGTH"
      using assms(3) P by (intro zdiv_mono1) auto
    then show ?thesis using P by simp
  qed
  then show "partOf k < part_count p" using assms(1) d by (simp add: parts_ok_def partOf_def)
  have "k div PIECE_LENGTH * PIECE_LENGTH \<le> k" "k < (k div PIECE_LENGTH) * PIECE_LENGTH + PIECE_LENGTH"
    using div_mult_mod_eq [of k PIECE_LENGTH] pos_mod_sign [OF P, of k] pos_mod_bound [OF P, of k] by linarith+
  then show "k \<in> block_bytes (part p (partOf k))" using d assms(3) by (simp add: part_def partOf_def Let_def)
qed

lemma complete_received:
  assumes "parts_ok p" and "parts_complete p" and "0 \<le> parts_size p"
  shows "completed p = parts_size p"
proof -
  have "{0..<parts_size p} \<subseteq> bytes (received p)"
  proof
    fix k assume k: "k \<in> {0..<parts_size p}"
    have "verified p ! partOf k" using part_of_byte [OF assms(1)] k assms(2)
      by (auto simp: parts_complete_def list_all_length part_count_def)
    moreover have "\<forall>i < part_count p. verified p ! i \<longrightarrow> block_bytes (part p i) \<subseteq> bytes (received p)"
      using assms(1) by (simp add: parts_ok_def)
    moreover have "partOf k < part_count p" "k \<in> block_bytes (part p (partOf k))"
      using part_of_byte [OF assms(1)] k by simp_all
    ultimately show "k \<in> bytes (received p)" by blast
  qed
  then have "bytes (received p) = {0..<parts_size p}" using assms(1) by (auto simp: parts_ok_def)
  then show ?thesis using assms by (simp add: completed_def rs.total_card parts_ok_def)
qed

text \<open>Filling a part means touching it.\<close>

lemma filled_iff: "parts_ok p \<Longrightarrow> filled p i \<longleftrightarrow> block_bytes (part p i) \<subseteq> bytes (received p)"
  by (simp add: filled_def parts_ok_def rs.contains_iff split: prod.splits)

lemma part_range:
  assumes "k \<in> block_bytes (part p i)"
  shows "partOf k = i"
proof -
  have "k div PIECE_LENGTH = int i"
    using assms by (intro int_div_pos_eq [of _ _ _ "k - int i * PIECE_LENGTH"])
      (auto simp: part_def Let_def PIECE_LENGTH_def)
  then show ?thesis by (simp add: partOf_def)
qed

lemma partOf_mono: "0 \<le> a \<Longrightarrow> a \<le> b \<Longrightarrow> partOf a \<le> partOf b"
  unfolding partOf_def by (intro nat_mono zdiv_mono1) (simp_all add: PIECE_LENGTH_def)

lemma find_SomeD: "find P xs = Some x \<Longrightarrow> x \<in> set xs \<and> P x"
  by (induction xs) (auto split: if_splits)

lemma parts_add_bytes:
  assumes "parts_ok p" and "parts_add p b e = (r, p')"
  shows "bytes (received p') = bytes (received p) \<union> ({b..<e} \<inter> {0..<parts_size p})"
  using assms by (auto simp: parts_add_def parts_ok_def Let_def rs.bytes_add split: if_splits)

section \<open>Properties\<close>

text \<open>
  C4. After every history of received blocks, passed and failed hash checks, claims and releases,
  the received bytes are a well-formed set inside the file, every verified part has been received
  in full, and every claim covers bytes of one part. A download is complete only when its whole
  size has been received.
\<close>

theorem parts_always_ok:
  assumes "parts_step\<^sup>*\<^sup>* (new_parts n) p" and "0 \<le> n"
  shows "parts_ok p \<and> parts_size p = n \<and> (parts_complete p \<longrightarrow> completed p = n)"
  using download.always_ok [OF refl assms(1)] complete_received assms(2) by metis

theorem parts_always_ok_witness:
  "parts_ok (verify (new_parts 1000) 0) \<and> completed (verify (new_parts 1000) 0) = 1000"
proof -
  have e: "new_parts 1000 = \<lparr>parts_size = 1000, verified = [False], received = [], claims = []\<rparr>"
    by (simp add: new_parts_def PIECE_LENGTH_def)
  have "parts_step (new_parts 1000) (verify (new_parts 1000) 0)"
    by (rule parts_step.verify) (simp add: e part_count_def)
  moreover have "parts_complete (verify (new_parts 1000) 0)"
    by (simp add: e verify_def parts_complete_def part_def PIECE_LENGTH_def Let_def)
  ultimately show ?thesis using parts_always_ok [of 1000 "verify (new_parts 1000) 0"] by auto
qed

text \<open>
  Recording received bytes adds exactly the bytes inside the file. A reported part is really
  complete and not yet verified; when none is reported, no part has become complete, so no part
  misses its hash check.
\<close>

theorem parts_add_reports:
  assumes "parts_ok p" and "parts_add p b e = (r, p')"
  shows "bytes (received p') = bytes (received p) \<union> ({b..<e} \<inter> {0..<parts_size p}) \<and>
    (case r of None \<Rightarrow> \<forall>i < part_count p. filled p' i \<longrightarrow> filled p i
     | Some i \<Rightarrow> i < part_count p \<and> \<not> verified p' ! i \<and> filled p' i)"
proof -
  note added = parts_add_bytes [OF assms]
  have ok': "parts_ok p'" by (rule parts_add_ok [OF assms])
  have pt: "part p' = part p" "verified p' = verified p" "part_count p' = part_count p"
    using assms(2) by (auto simp: parts_add_def Let_def part_def part_count_def split: if_splits)
  define lo hi where "lo = max b 0" and "hi = min e (parts_size p)"
  have a: "parts_add p b e = (if lo \<ge> hi then (None, p)
      else let q = p\<lparr>received := rs_add lo hi (received p)\<rparr>
           in (find (\<lambda>i. \<not> verified q ! i \<and> filled q i) [partOf lo..<partOf (hi - 1) + 1], q))"
    unfolding parts_add_def lo_def hi_def Let_def by (rule refl)
  show ?thesis
  proof (cases "lo < hi")
    case False
    then have "r = None" "p' = p" using assms(2) by (simp_all add: a)
    then show ?thesis using added by simp
  next
    case True
    then have r: "r = find (\<lambda>i. \<not> verified p' ! i \<and> filled p' i) [partOf lo..<partOf (hi - 1) + 1]"
      using assms(2) by (auto simp: a Let_def)
    have last: "partOf (hi - 1) < part_count p"
      using part_of_byte(1) [OF assms(1), of "hi - 1"] True by (simp add: lo_def hi_def)
    have "filled p i" if none: "r = None" and f: "filled p' i" and i: "i < part_count p" for i
    proof (rule ccontr)
      assume n: "\<not> filled p i"
      then obtain k where k: "k \<in> block_bytes (part p i)" "k \<notin> bytes (received p)"
        using filled_iff [OF assms(1), of i] by blast
      then have "k \<in> bytes (received p')" using f filled_iff [OF ok', of i] pt by auto
      then have "lo \<le> k" "k \<le> hi - 1" using added k(2) by (auto simp: lo_def hi_def)
      then have "partOf lo \<le> i" "i \<le> partOf (hi - 1)"
        using part_range [OF k(1)] partOf_mono [of lo k] partOf_mono [of k "hi - 1"] by (auto simp: lo_def)
      then have "verified p ! i" using none r f pt by (auto simp: find_None_iff)
      then show False using n i assms(1) filled_iff [OF assms(1)] by (auto simp: parts_ok_def)
    qed
    moreover have "j < part_count p \<and> \<not> verified p' ! j \<and> filled p' j" if "r = Some j" for j
      using find_SomeD [OF r [unfolded that, symmetric]] last by auto
    ultimately show ?thesis using added by (auto split: option.splits)
  qed
qed


text \<open>
  C13. The blocks a source gets are at most as many as it asked for, disjoint, recorded as its
  claims, and each lies on the 180 KB grid of one part that the source holds and that is still
  wanted; none contains a received byte, a byte the source has claimed before or one claimed
  within the last five seconds. Only when every missing byte of the parts the source holds is
  claimed can a block overlap the claim of another source.
\<close>

theorem claim_blocks_safe:
  assumes "parts_ok p" and "parts_claim p owner available quota availability preview now random = (p', out)"
  shows "length out \<le> quota \<and> sorted_wrt apart out \<and> received p' = received p \<and>
    (\<forall>x \<in> set out. block_claim owner now x \<in> set (claims p') \<and>
       (\<exists>i < part_count p. candidate p available i \<and> good_block (\<lambda>c. claim_owner c = owner \<or> now - claim_since c < duplicateAfter) p (part p i) x)) \<and>
    ((\<exists>x \<in> set out. block_bytes x \<inter> claimed_bytes any_claim (claims p) \<noteq> {}) \<longrightarrow>
       (\<forall>i < part_count p. candidate p available i \<longrightarrow>
          block_bytes (part p i) \<subseteq> bytes (received p) \<union> claimed_bytes any_claim (claims p)))"
  using parts_claim_spec [OF assms]
  unfolding claim_spec_def claims_grown_def candidates_def blocking_True by blast

definition demo_parts :: parts where
  "demo_parts = fst (parts_claim (new_parts 100000) 2 [] 1 [] False 0 (\<lambda>_. 0))"

lemma demo_parts_ok: "parts_ok demo_parts"
  using parts_claim_ok [OF parts_new_ok] unfolding demo_parts_def by (metis prod.collapse)

theorem claim_blocks_safe_witness:
  "snd (parts_claim (new_parts 400000) 1 [] 2 [] False 0 (\<lambda>_. 0)) = [(0, 184320), (184320, 368640)] \<and>
     sorted_wrt apart [(0, 184320), (184320, 368640)]"
proof -
  have e: "snd (parts_claim (new_parts 400000) 1 [] 2 [] False 0 (\<lambda>_. 0)) = [(0, 184320), (184320, 368640)]"
    by code_simp
  then show ?thesis
    using claim_blocks_safe [OF parts_new_ok, of 400000 1 "[]" 2 "[]" False 0 "\<lambda>_. 0"] by (metis prod.collapse)
qed

text \<open>
  C12. A source is never left idle without reason: when it gets no block, every byte that is missing
  from a part it holds is claimed by the source itself or was claimed by another one less than
  five seconds ago.
\<close>

theorem claim_no_starvation:
  assumes "parts_ok p" and "parts_claim p owner available quota availability preview now random = (p', [])"
    and "0 < quota" and "i < part_count p" and "candidate p available i"
    and "k \<in> block_bytes (part p i)" and "k \<notin> bytes (received p)"
  shows "\<exists>(b, c) \<in> set (claims p). b \<le> k \<and> k < claim_end c \<and>
    (claim_owner c = owner \<or> now - claim_since c < duplicateAfter)"
proof -
  have "block_bytes (part p i) \<subseteq> bytes (received p) \<union> claimed_bytes (blocking owner True now) (claims p)"
    using parts_claim_spec [OF assms(1,2)] assms(3-5) by (simp add: claim_spec_def candidates_def)
  then have "k \<in> claimed_bytes (blocking owner True now) (claims p)" using assms(6,7) by blast
  then show ?thesis by (auto simp: claimed_bytes_iff blocking_def)
qed

theorem claim_no_starvation_witness:
  "snd (parts_claim demo_parts 1 [] 1 [] False 1000000000 (\<lambda>_. 0)) = [] \<and>
     (\<exists>(b, c) \<in> set (claims demo_parts). b \<le> 7 \<and> 7 < claim_end c \<and>
        (claim_owner c = 1 \<or> 1000000000 - claim_since c < duplicateAfter))"
proof -
  have e: "snd (parts_claim demo_parts 1 [] 1 [] False 1000000000 (\<lambda>_. 0)) = []" by code_simp
  then obtain p' where c: "parts_claim demo_parts 1 [] 1 [] False 1000000000 (\<lambda>_. 0) = (p', [])" by (metis prod.collapse)
  have i: "0 < part_count demo_parts" "candidate demo_parts [] 0" by code_simp+
  have "part demo_parts 0 = (0, 100000)" "received demo_parts = []" by code_simp+
  then show ?thesis using claim_no_starvation [OF demo_parts_ok c _ i, of 7] e by simp
qed

end
