(* ===== verification/Server_Protocol.thy ===== *)
theory Server_Protocol
  imports Packet
begin

unbundle bit_operations_syntax

text \<open>
  The messages between the client and eD2k servers and the saved server state
  (\<open>ed2k/ServerProtocol.cc\<close>): the server list file \<open>server.met\<close>, the login, requests for and
  answers with sources, status and identification messages.

  Conventions are those of \<open>Peer_Protocol\<close>: \<open>None\<close> is a thrown \<open>ProtocolError\<close>, out-parameters
  come back with the result. Texts the sources compare or keep as addresses are lists of
  characters; \<open>octets\<close> and \<open>chars\<close> convert. The memory that \<open>reserve\<close> asks for is not modelled.
\<close>

section \<open>Helpers\<close>

definition octets :: "string \<Rightarrow> byte list" where
  "octets s = map of_char s"

definition chars :: "byte list \<Rightarrow> string" where
  "chars bs = map (\<lambda>b. char_of (unat b)) bs"

definition validate_hash :: "byte list \<Rightarrow> unit option" where
  "validate_hash hash = (if length hash \<noteq> HASH_LENGTH then None else Some ())"

definition appendInt64 :: "int \<Rightarrow> byte list" where
  "appendInt64 v = packUInt64 (of_int v)"

definition readInt64 :: "byte list \<Rightarrow> nat \<Rightarrow> (int \<times> nat) option" where
  "readInt64 payload off = do { (v, off) \<leftarrow> takeUInt64 payload off; Some (sint v, off) }"

definition appendString :: "byte list \<Rightarrow> byte list option" where
  "appendString v = (if length v > 65535 then None else Some (packUInt16 (of_nat (length v)) @ v))"

definition readString :: "byte list \<Rightarrow> nat \<Rightarrow> (byte list \<times> nat) option" where
  "readString payload off = do {
     (n, off) \<leftarrow> takeUInt16 payload off;
     readBytes payload off (unat n)
   }"

definition appendServerStateEndpoint :: "endpoint \<Rightarrow> byte list option" where
  "appendServerStateEndpoint e = do {
     h \<leftarrow> appendString (octets (host e));
     Some (h @ packUInt16 (port e))
   }"

definition readServerStateEndpoint :: "byte list \<Rightarrow> nat \<Rightarrow> (endpoint \<times> nat) option" where
  "readServerStateEndpoint payload off = do {
     (h, off) \<leftarrow> readString payload off;
     (p, off) \<leftarrow> takeUInt16 payload off;
     Some (new_endpoint\<lparr>host := chars h, port := p\<rparr>, off)
   }"

definition tagMatches :: "tag \<Rightarrow> byte \<Rightarrow> string \<Rightarrow> bool" where
  "tagMatches t i name \<longleftrightarrow> tag_id t = i \<or> tag_name t = octets name"

definition tagMatchesName :: "tag \<Rightarrow> string \<Rightarrow> bool" where
  "tagMatchesName t name \<longleftrightarrow> tag_name t = octets name"

text \<open>These two leave the value alone when the tag does not hold a number of the right size.\<close>

definition readTagUInt :: "32 word \<Rightarrow> tag \<Rightarrow> 32 word" where
  "readTagUInt old t = (if valueType t \<noteq> UINT \<or> intValue t > 0xffffffff then old else ucast (intValue t))"

definition readTagUInt16 :: "16 word \<Rightarrow> tag \<Rightarrow> 16 word" where
  "readTagUInt16 old t = (if valueType t \<noteq> UINT \<or> intValue t > 0xffff then old else ucast (intValue t))"

section \<open>The server list file\<close>

record server_met_entry =
  me_endpoint :: endpoint
  me_name :: "byte list"
  me_description :: "byte list"
  me_users :: "32 word"
  me_files :: "32 word"
  me_maxUsers :: "32 word"
  me_softFiles :: "32 word"
  me_hardFiles :: "32 word"
  me_udpFlags :: "32 word"
  me_lowIdUsers :: "32 word"
  me_udpObfuscationPort :: "16 word"
  me_tcpObfuscationPort :: "16 word"
  me_udpKey :: "32 word"

definition new_met_entry :: server_met_entry where
  "new_met_entry = \<lparr>me_endpoint = new_endpoint, me_name = [], me_description = [], me_users = 0, me_files = 0,
     me_maxUsers = 0, me_softFiles = 0, me_hardFiles = 0, me_udpFlags = 0, me_lowIdUsers = 0,
     me_udpObfuscationPort = 0, me_tcpObfuscationPort = 0, me_udpKey = 0\<rparr>"

definition met_tag :: "tag \<Rightarrow> server_met_entry \<Rightarrow> server_met_entry" where
  "met_tag t e =
     (if valueType t = STRING then
        if tagMatches t 0x01 ''name'' then e\<lparr>me_name := stringValue t\<rparr>
        else if tagMatches t 0x0b ''description'' then e\<lparr>me_description := stringValue t\<rparr>
        else if tagMatches t 0x85 ''dynip'' \<and> host (me_endpoint e) = ''0.0.0.0''
        then e\<lparr>me_endpoint := (me_endpoint e)\<lparr>host := chars (stringValue t)\<rparr>\<rparr>
        else e
      else if tagMatchesName t ''users'' then e\<lparr>me_users := readTagUInt (me_users e) t\<rparr>
      else if tagMatchesName t ''files'' then e\<lparr>me_files := readTagUInt (me_files e) t\<rparr>
      else if tagMatches t 0x87 ''maxusers'' then e\<lparr>me_maxUsers := readTagUInt (me_maxUsers e) t\<rparr>
      else if tagMatches t 0x88 ''softfiles'' then e\<lparr>me_softFiles := readTagUInt (me_softFiles e) t\<rparr>
      else if tagMatches t 0x89 ''hardfiles'' then e\<lparr>me_hardFiles := readTagUInt (me_hardFiles e) t\<rparr>
      else if tagMatches t 0x92 ''udpflags'' then e\<lparr>me_udpFlags := readTagUInt (me_udpFlags e) t\<rparr>
      else if tagMatches t 0x94 ''lowusers'' then e\<lparr>me_lowIdUsers := readTagUInt (me_lowIdUsers e) t\<rparr>
      else if tagMatches t 0x95 ''udpkey'' then e\<lparr>me_udpKey := readTagUInt (me_udpKey e) t\<rparr>
      else if tagMatches t 0x97 ''tcpportobfuscation''
      then e\<lparr>me_tcpObfuscationPort := readTagUInt16 (me_tcpObfuscationPort e) t\<rparr>
      else if tagMatches t 0x98 ''udpportobfuscation''
      then e\<lparr>me_udpObfuscationPort := readTagUInt16 (me_udpObfuscationPort e) t\<rparr>
      else e)"

definition read_met_entry :: "byte list \<Rightarrow> nat \<Rightarrow> (server_met_entry \<times> nat) option" where
  "read_met_entry data off = do {
     (e, off) \<leftarrow> readEndpoint data off;
     (tagCount, off) \<leftarrow> takeUInt32 data off;
     (tags, off) \<leftarrow> read_list readTag (unat tagCount) data off;
     Some (fold met_tag tags (new_met_entry\<lparr>me_endpoint := e\<rparr>), off)
   }"

definition parseServerMetEntries :: "byte list \<Rightarrow> server_met_entry list option" where
  "parseServerMetEntries data = do {
     (header, off) \<leftarrow> readByte data 0;
     let off = (if header \<noteq> 0x0e \<and> header \<noteq> 0x0f \<and> header \<noteq> 0xe0 then 0 else off);
     (count, off) \<leftarrow> takeUInt32 data off;
     (entries, _) \<leftarrow> read_list read_met_entry (unat count) data off;
     Some (filter (\<lambda>e. host (me_endpoint e) \<noteq> [] \<and> port (me_endpoint e) \<noteq> 0) entries)
   }"

definition parseServerMet :: "byte list \<Rightarrow> endpoint list option" where
  "parseServerMet data = do {
     entries \<leftarrow> parseServerMetEntries data;
     Some (map me_endpoint entries)
   }"

section \<open>Requests\<close>

definition createLoginRequestPayload :: "byte list \<Rightarrow> 32 word \<Rightarrow> 16 word \<Rightarrow> byte list \<Rightarrow> byte list option" where
  "createLoginRequestPayload clientHash clientId listenPort clientName = do {
     validate_hash clientHash;
     Some (clientHash @ packUInt32 clientId @ packUInt16 listenPort @ packUInt32 4 @
       createUInt32Tag 0x11 0x3c @ createUInt32Tag 0x20 0x071d @ createStringTag 0x01 clientName @
       createUInt32Tag 0xfb (push_bit 24 3 OR push_bit 17 3))
   }"

definition createGetSourcesPayload :: "byte list \<Rightarrow> int \<Rightarrow> byte list option" where
  "createGetSourcesPayload fileHash fileSize = do {
     validate_hash fileHash;
     if fileSize < 0 then None
     else if fileSize > 2 ^ 32 - 1 then
       Some (fileHash @ packUInt32 0 @ packUInt32 (of_int fileSize) @
         packUInt32 (ucast (drop_bit 32 (of_int fileSize :: 64 word))))
     else Some (fileHash @ packUInt32 (of_int fileSize))
   }"

definition createGlobGetSourcesPayload :: "byte list \<Rightarrow> int \<Rightarrow> bool \<Rightarrow> byte list option" where
  "createGlobGetSourcesPayload fileHash fileSize extGetSources2 =
     (if \<not> extGetSources2 then do { validate_hash fileHash; Some fileHash }
      else createGetSourcesPayload fileHash fileSize)"

definition createCallbackRequestPayload :: "32 word \<Rightarrow> byte list" where
  "createCallbackRequestPayload clientId = packUInt32 clientId"

section \<open>Sources\<close>

definition PROTO_EDONKEY :: byte where
  "PROTO_EDONKEY = 0xe3"

definition OP_GLOBFOUNDSOURCES :: byte where
  "OP_GLOBFOUNDSOURCES = 0x9b"

definition SOURCE_CRYPT_HAS_USER_HASH :: "16 word" where
  "SOURCE_CRYPT_HAS_USER_HASH = 0x80"

record found_source =
  fs_endpoint :: endpoint
  fs_clientId :: "32 word"
  fs_lowId :: bool

definition createFoundSourcesPayload :: "byte list \<Rightarrow> endpoint list \<Rightarrow> byte list option" where
  "createFoundSourcesPayload fileHash sources = do {
     validate_hash fileHash;
     if length sources > 255 then None
     else do {
       body \<leftarrow> write_list packEndpoint sources;
       Some (fileHash @ [of_nat (length sources)] @ body)
     }
   }"

definition parseFoundSourcesPayload :: "byte list \<Rightarrow> endpoint list option" where
  "parseFoundSourcesPayload payload = do {
     (_, off) \<leftarrow> readBytes payload 0 HASH_LENGTH;
     (count, off) \<leftarrow> readByte payload off;
     (sources, _) \<leftarrow> read_list readEndpoint (unat count) payload off;
     Some sources
   }"

definition parseFoundSourcesPayload_hash ::
  "endpoint list \<Rightarrow> byte list \<Rightarrow> byte list \<Rightarrow> (bool \<times> endpoint list) option" where
  "parseFoundSourcesPayload_hash sources payload expectedFileHash = do {
     validate_hash expectedFileHash;
     (hash, off) \<leftarrow> readBytes payload 0 HASH_LENGTH;
     if hash \<noteq> expectedFileHash then Some (False, sources)
     else do {
       (count, off) \<leftarrow> readByte payload off;
       (sources, _) \<leftarrow> read_list readEndpoint (unat count) payload off;
       Some (True, sources)
     }
   }"

text \<open>The client identifier of a source is its address; a low one needs a callback.\<close>

definition found_source_of :: "endpoint \<Rightarrow> found_source option" where
  "found_source_of e = do {
     i \<leftarrow> ipv4ToEndpointValue (host e);
     Some \<lparr>fs_endpoint = e, fs_clientId = i, fs_lowId = (i \<le> 0x00ffffff)\<rparr>
   }"

definition read_found_source :: "bool \<Rightarrow> byte list \<Rightarrow> nat \<Rightarrow> (found_source \<times> nat) option" where
  "read_found_source obfuscated payload off = do {
     (e, off) \<leftarrow> readEndpoint payload off;
     (e, off) \<leftarrow> (if obfuscated then do {
         (c, off) \<leftarrow> readByte payload off;
         let e = e\<lparr>cryptOptions := ucast c\<rparr>;
         if cryptOptions e AND SOURCE_CRYPT_HAS_USER_HASH \<noteq> 0 then do {
           (h, off) \<leftarrow> readBytes payload off HASH_LENGTH;
           Some (e\<lparr>userHash := h\<rparr>, off)
         } else Some (e, off)
       } else Some (e, off));
     s \<leftarrow> found_source_of e;
     Some (s, off)
   }"

definition parseFoundSourcesPayload_found ::
  "found_source list \<Rightarrow> byte list \<Rightarrow> byte list \<Rightarrow> bool \<Rightarrow> (bool \<times> found_source list) option" where
  "parseFoundSourcesPayload_found sources payload expectedFileHash obfuscated = do {
     validate_hash expectedFileHash;
     (hash, off) \<leftarrow> readBytes payload 0 HASH_LENGTH;
     if hash \<noteq> expectedFileHash then Some (False, sources)
     else do {
       (count, off) \<leftarrow> readByte payload off;
       (sources, off) \<leftarrow> read_list (read_found_source obfuscated) (unat count) payload off;
       Some (off = length payload, sources)
     }
   }"

definition parseFoundSourcesPayload_plain ::
  "found_source list \<Rightarrow> byte list \<Rightarrow> byte list \<Rightarrow> (bool \<times> found_source list) option" where
  "parseFoundSourcesPayload_plain sources payload expectedFileHash =
     parseFoundSourcesPayload_found sources payload expectedFileHash False"

text \<open>
  Answers over UDP may hold several packets behind each other. One packet of the loop: the sources
  it adds, the offset behind it and whether another packet follows; \<open>None\<close> inside stands for
  \<open>return false\<close>.
\<close>

definition packed_step ::
  "(byte list \<Rightarrow> nat \<Rightarrow> ('a \<times> nat) option) \<Rightarrow> byte list \<Rightarrow> byte list \<Rightarrow> nat \<Rightarrow> ('a list \<times> nat \<times> bool) option option" where
  "packed_step rd payload expectedFileHash off =
     (if length payload - off < HASH_LENGTH + 1 then Some None
      else do {
        (hash, off) \<leftarrow> readBytes payload off HASH_LENGTH;
        (count, off) \<leftarrow> readByte payload off;
        if length payload - off < unat count * 6 then Some None
        else do {
          (found, off) \<leftarrow> read_list rd (unat count) payload off;
          let added = (if hash = expectedFileHash then found else []);
          if off = length payload then Some (Some (added, off, False))
          else if length payload - off < 2 \<or> payload ! off \<noteq> PROTO_EDONKEY \<or> payload ! (off + 1) \<noteq> OP_GLOBFOUNDSOURCES
          then Some (Some (added, off, False))
          else Some (Some (added, off + 2, True))
        }
      })"

lemma read_found_source_bounds:
  "read_found_source obfuscated data off = Some (v, off') \<Longrightarrow> off + 6 \<le> off' \<and> off' \<le> length data"
  by (auto simp: read_found_source_def Let_def split: if_splits bind_splits
      dest!: readEndpoint_bounds readByte_bounds readBytes_bounds)

interpretation found: reader "read_found_source obfuscated" 6 for obfuscated
  by unfold_locales (rule read_found_source_bounds)

lemma packed_step_progress:
  assumes "reader rd k" and "packed_step rd payload h off = Some (Some (found, off', again))"
  shows "off < off' \<and> (again \<longrightarrow> off' \<le> length payload)"
proof -
  obtain hash mid count where s: "readBytes payload off HASH_LENGTH = Some (hash, mid)"
    and "\<exists>off1 found1. readByte payload mid = Some (count, off1) \<and>
      (\<exists>off2. read_list rd (unat count) payload off1 = Some (found1, off2) \<and> off2 \<le> off' \<and> (again \<longrightarrow> off' \<le> length payload))"
    using assms(2) by (fastforce simp: packed_step_def Let_def split: if_splits bind_splits)
  then obtain off1 found1 off2 where r: "readByte payload mid = Some (count, off1)"
    "read_list rd (unat count) payload off1 = Some (found1, off2)" "off2 \<le> off'" "again \<longrightarrow> off' \<le> length payload" by blast
  have "off1 \<le> off2"
    using reader.list_bounds [OF assms(1) r(2)] readByte_bounds [OF r(1)] by auto
  then show ?thesis using readBytes_bounds [OF s] readByte_bounds [OF r(1)] r(3,4) by (simp add: HASH_LENGTH_def)
qed

text \<open>The loops, for plain endpoints and for sources with their client identifier.\<close>

function packed_endpoints :: "byte list \<Rightarrow> byte list \<Rightarrow> nat \<Rightarrow> endpoint list \<Rightarrow> (bool \<times> endpoint list) option" where
  "packed_endpoints payload h off sources =
     (if off \<ge> length payload then Some (True, sources)
      else case packed_step readEndpoint payload h off of
          None \<Rightarrow> None
        | Some None \<Rightarrow> Some (False, sources)
        | Some (Some (added, off', again)) \<Rightarrow>
            if again then packed_endpoints payload h off' (sources @ added) else Some (True, sources @ added))"
  by pat_completeness auto
termination
  by (relation "measure (\<lambda>(payload, _, off, _). length payload - off)")
    (auto dest!: packed_step_progress [OF endpoints.reader_axioms])

declare packed_endpoints.simps [simp del]

function packed_found :: "byte list \<Rightarrow> byte list \<Rightarrow> nat \<Rightarrow> found_source list \<Rightarrow> (bool \<times> found_source list) option" where
  "packed_found payload h off sources =
     (if off \<ge> length payload then Some (True, sources)
      else case packed_step (read_found_source False) payload h off of
          None \<Rightarrow> None
        | Some None \<Rightarrow> Some (False, sources)
        | Some (Some (added, off', again)) \<Rightarrow>
            if again then packed_found payload h off' (sources @ added) else Some (True, sources @ added))"
  by pat_completeness auto
termination
  by (relation "measure (\<lambda>(payload, _, off, _). length payload - off)")
    (auto dest!: packed_step_progress [OF found.reader_axioms])

declare packed_found.simps [simp del]

definition parsePackedFoundSourcesPayloads ::
  "endpoint list \<Rightarrow> byte list \<Rightarrow> byte list \<Rightarrow> (bool \<times> endpoint list) option" where
  "parsePackedFoundSourcesPayloads sources payload expectedFileHash = do {
     validate_hash expectedFileHash;
     packed_endpoints payload expectedFileHash 0 []
   }"

definition parsePackedFoundSourcesPayloads_found ::
  "found_source list \<Rightarrow> byte list \<Rightarrow> byte list \<Rightarrow> (bool \<times> found_source list) option" where
  "parsePackedFoundSourcesPayloads_found sources payload expectedFileHash = do {
     validate_hash expectedFileHash;
     packed_found payload expectedFileHash 0 []
   }"

section \<open>Answers\<close>

definition parseCallbackRequestIncomingPayload :: "endpoint \<Rightarrow> byte list \<Rightarrow> (bool \<times> endpoint) option" where
  "parseCallbackRequestIncomingPayload endpoint payload =
     (if length payload \<noteq> 6 \<and> length payload < 23 then Some (False, endpoint)
      else do {
        (e, off) \<leftarrow> readEndpoint payload 0;
        if length payload \<ge> 23 then do {
          (c, off) \<leftarrow> readByte payload off;
          (h, off) \<leftarrow> readBytes payload off HASH_LENGTH;
          Some (True, e\<lparr>cryptOptions := ucast c, userHash := h\<rparr>)
        } else Some (True, e)
      })"

record server_id_change =
  ic_clientId :: "32 word"
  ic_tcpFlags :: "32 word"
  ic_auxPort :: "32 word"
  ic_tcpObfuscationPort :: "16 word"
  ic_highId :: bool
  ic_ipAddress :: string

definition new_id_change :: server_id_change where
  "new_id_change = \<lparr>ic_clientId = 0, ic_tcpFlags = 0, ic_auxPort = 0, ic_tcpObfuscationPort = 0, ic_highId = False,
     ic_ipAddress = []\<rparr>"

text \<open>A field the message has only from some length on.\<close>

definition optional ::
  "bool \<Rightarrow> (byte list \<Rightarrow> nat \<Rightarrow> ('a \<times> nat) option) \<Rightarrow> 'a \<Rightarrow> byte list \<Rightarrow> nat \<Rightarrow> ('a \<times> nat) option" where
  "optional present rd dflt data off = (if present then rd data off else Some (dflt, off))"

definition parseServerIdChangePayload :: "server_id_change \<Rightarrow> byte list \<Rightarrow> (bool \<times> server_id_change) option" where
  "parseServerIdChangePayload idChange payload =
     (if length payload < 4 then Some (False, idChange)
      else do {
        (clientId, off) \<leftarrow> takeUInt32 payload 0;
        (tcpFlags, off) \<leftarrow> optional (length payload \<ge> 8) takeUInt32 0 payload off;
        (auxPort, off) \<leftarrow> optional (length payload \<ge> 12) takeUInt32 0 payload off;
        (reportedIp, off) \<leftarrow> optional (length payload \<ge> 20) takeUInt32 0 payload off;
        (obfuscationPort, off) \<leftarrow> optional (length payload \<ge> 20) takeUInt32 0 payload off;
        let ip = (if length payload \<ge> 20 \<and> reportedIp > 0x00ffffff then ipv4FromEndpoint reportedIp else []);
        let highId = (clientId > 0x00ffffff);
        Some (True, \<lparr>ic_clientId = clientId, ic_tcpFlags = tcpFlags, ic_auxPort = auxPort,
          ic_tcpObfuscationPort = (if length payload \<ge> 20 \<and> obfuscationPort \<le> 65535 then ucast obfuscationPort else 0),
          ic_highId = highId,
          ic_ipAddress = (if ip = [] \<and> highId then ipv4FromEndpoint clientId else ip)\<rparr>)
      })"

record server_status =
  st_challenge :: "32 word"
  st_users :: "32 word"
  st_files :: "32 word"
  st_maxUsers :: "32 word"
  st_softFiles :: "32 word"
  st_hardFiles :: "32 word"
  st_udpFlags :: "32 word"
  st_lowIdUsers :: "32 word"
  st_udpObfuscationPort :: "16 word"
  st_tcpObfuscationPort :: "16 word"
  st_udpKey :: "32 word"

definition new_status :: server_status where
  "new_status = \<lparr>st_challenge = 0, st_users = 0, st_files = 0, st_maxUsers = 0, st_softFiles = 0, st_hardFiles = 0,
     st_udpFlags = 0, st_lowIdUsers = 0, st_udpObfuscationPort = 0, st_tcpObfuscationPort = 0, st_udpKey = 0\<rparr>"

definition parseServerStatusPayload :: "server_status \<Rightarrow> byte list \<Rightarrow> (bool \<times> server_status) option" where
  "parseServerStatusPayload status payload =
     (if length payload < 8 then Some (False, status)
      else do {
        (users, off) \<leftarrow> takeUInt32 payload 0;
        (files, off) \<leftarrow> takeUInt32 payload off;
        Some (True, new_status\<lparr>st_users := users, st_files := files\<rparr>)
      })"

definition parseServerUdpStatusPayload :: "server_status \<Rightarrow> byte list \<Rightarrow> (bool \<times> server_status) option" where
  "parseServerUdpStatusPayload status payload =
     (if length payload < 12 then Some (False, status)
      else do {
        (challenge, off) \<leftarrow> takeUInt32 payload 0;
        (users, off) \<leftarrow> takeUInt32 payload off;
        (files, off) \<leftarrow> takeUInt32 payload off;
        (maxUsers, off) \<leftarrow> optional (length payload \<ge> 16) takeUInt32 0 payload off;
        (softFiles, off) \<leftarrow> optional (length payload \<ge> 24) takeUInt32 0 payload off;
        (hardFiles, off) \<leftarrow> optional (length payload \<ge> 24) takeUInt32 0 payload off;
        (udpFlags, off) \<leftarrow> optional (length payload \<ge> 28) takeUInt32 0 payload off;
        (lowIdUsers, off) \<leftarrow> optional (length payload \<ge> 32) takeUInt32 0 payload off;
        (udpPort, off) \<leftarrow> optional (length payload \<ge> 40) takeUInt16 0 payload off;
        (tcpPort, off) \<leftarrow> optional (length payload \<ge> 40) takeUInt16 0 payload off;
        (udpKey, off) \<leftarrow> optional (length payload \<ge> 40) takeUInt32 0 payload off;
        Some (True, \<lparr>st_challenge = challenge, st_users = users, st_files = files, st_maxUsers = maxUsers,
          st_softFiles = softFiles, st_hardFiles = hardFiles, st_udpFlags = udpFlags, st_lowIdUsers = lowIdUsers,
          st_udpObfuscationPort = udpPort, st_tcpObfuscationPort = tcpPort, st_udpKey = udpKey\<rparr>)
      })"

definition parseServerMessagePayload :: "byte list \<Rightarrow> byte list \<Rightarrow> bool \<times> byte list" where
  "parseServerMessagePayload message payload =
     (if length payload < 2 then (False, message)
      else if unat (readUInt16 payload) \<noteq> length payload - 2 then (False, message)
      else (True, drop 2 payload))"

record server_ident =
  si_endpoint :: endpoint
  si_name :: "byte list"
  si_description :: "byte list"

definition ident_tag :: "tag \<Rightarrow> server_ident \<Rightarrow> server_ident" where
  "ident_tag t s =
     (if valueType t \<noteq> STRING then s
      else if tagMatches t 0x01 ''name'' then s\<lparr>si_name := stringValue t\<rparr>
      else if tagMatches t 0x0b ''description'' then s\<lparr>si_description := stringValue t\<rparr>
      else s)"

text \<open>The loop that copies the tags; it returns the copy and the offset behind them.\<close>

fun copy_tags :: "nat \<Rightarrow> byte list \<Rightarrow> nat \<Rightarrow> byte list \<Rightarrow> (byte list \<times> nat) option" where
  "copy_tags 0 payload off tagPayload = Some (tagPayload, off)"
| "copy_tags (Suc n) payload before tagPayload = do {
     (_, off) \<leftarrow> readTag payload before;
     copy_tags n payload off (tagPayload @ take (off - before) (drop before payload))
   }"

definition parseServerIdentPayload :: "server_ident \<Rightarrow> byte list \<Rightarrow> (bool \<times> server_ident) option" where
  "parseServerIdentPayload ident payload =
     (if length payload < HASH_LENGTH + 6 + 4 then Some (False, ident)
      else do {
        (e, off) \<leftarrow> readEndpoint payload HASH_LENGTH;
        (tagCount, off) \<leftarrow> takeUInt32 payload off;
        (tagPayload, off) \<leftarrow> copy_tags (unat tagCount) payload off (packUInt32 tagCount);
        (ok, tags) \<leftarrow> parseTagList [] tagPayload;
        if \<not> ok then Some (False, ident)
        else Some (True, fold ident_tag tags \<lparr>si_endpoint = e, si_name = [], si_description = []\<rparr>)
      })"

definition createServerListPayload :: "endpoint list \<Rightarrow> byte list option" where
  "createServerListPayload servers =
     (if length servers > 255 then None
      else do {
        body \<leftarrow> write_list packEndpoint servers;
        Some ([of_nat (length servers)] @ body)
      })"

definition parseServerListPayload :: "endpoint list \<Rightarrow> byte list \<Rightarrow> (bool \<times> endpoint list) option" where
  "parseServerListPayload servers payload =
     (if payload = [] then Some (False, servers)
      else do {
        (count, off) \<leftarrow> readByte payload 0;
        if length payload - off < unat count * 6 then Some (False, servers)
        else do {
          (servers, _) \<leftarrow> read_list readEndpoint (unat count) payload off;
          Some (True, servers)
        }
      })"

section \<open>Saved server state\<close>

record server_state =
  ss_endpoint :: endpoint
  ss_name :: "byte list"
  ss_description :: "byte list"
  connecting :: bool
  connected :: bool
  handshakeCompleted :: bool
  tcpObfuscationFailed :: bool
  clientId :: "32 word"
  highId :: bool
  ipAddress :: "byte list"
  tcpFlags :: "32 word"
  users :: "32 word"
  files :: "32 word"
  maxUsers :: "32 word"
  softFiles :: "32 word"
  hardFiles :: "32 word"
  udpFlags :: "32 word"
  lowIdUsers :: "32 word"
  udpObfuscationPort :: "16 word"
  tcpObfuscationPort :: "16 word"
  udpKey :: "32 word"
  udpStatusChallenge :: "32 word"
  lastUdpStatusTime :: int
  nextSourceRequestTime :: int
  lastSourceResponseTime :: int
  lastSourceCount :: "32 word"
  lastUdpSourceRequestTime :: int
  failCount :: "32 word"
  lastFailureTime :: int
  nextRetryTime :: int
  lastMessage :: "byte list"

definition new_server_state :: server_state where
  "new_server_state = \<lparr>ss_endpoint = new_endpoint, ss_name = [], ss_description = [], connecting = False,
     connected = False, handshakeCompleted = False, tcpObfuscationFailed = False, clientId = 0, highId = False,
     ipAddress = [], tcpFlags = 0, users = 0, files = 0, maxUsers = 0, softFiles = 0, hardFiles = 0, udpFlags = 0,
     lowIdUsers = 0, udpObfuscationPort = 0, tcpObfuscationPort = 0, udpKey = 0, udpStatusChallenge = 0,
     lastUdpStatusTime = 0, nextSourceRequestTime = 0, lastSourceResponseTime = 0, lastSourceCount = 0,
     lastUdpSourceRequestTime = 0, failCount = 0, lastFailureTime = 0, nextRetryTime = 0, lastMessage = []\<rparr>"

definition SERVER_STATE_MAGIC :: "byte list" where
  "SERVER_STATE_MAGIC = octets ''A2ED2KSRV''"

definition flag_byte :: "bool \<Rightarrow> byte list" where
  "flag_byte b = [if b then 1 else 0]"

definition createServerStatePayload :: "server_state \<Rightarrow> byte list option" where
  "createServerStatePayload s = do {
     e \<leftarrow> appendServerStateEndpoint (ss_endpoint s);
     name \<leftarrow> appendString (ss_name s);
     description \<leftarrow> appendString (ss_description s);
     ip \<leftarrow> appendString (ipAddress s);
     message \<leftarrow> appendString (lastMessage s);
     Some (SERVER_STATE_MAGIC @ packUInt32 4 @ e @ name @ description @
       flag_byte (connected s) @ flag_byte (handshakeCompleted s) @ packUInt32 (clientId s) @
       flag_byte (highId s) @ ip @ packUInt32 (tcpFlags s) @ packUInt32 (users s) @ packUInt32 (files s) @
       packUInt32 (maxUsers s) @ packUInt32 (softFiles s) @ packUInt32 (hardFiles s) @
       packUInt32 (udpFlags s) @ packUInt32 (lowIdUsers s) @ packUInt16 (udpObfuscationPort s) @
       packUInt16 (tcpObfuscationPort s) @ packUInt32 (udpKey s) @ packUInt32 (udpStatusChallenge s) @
       appendInt64 (lastUdpStatusTime s) @ appendInt64 (nextSourceRequestTime s) @
       appendInt64 (lastSourceResponseTime s) @ packUInt32 (lastSourceCount s) @
       appendInt64 (lastUdpSourceRequestTime s) @ packUInt32 (failCount s) @
       appendInt64 (lastFailureTime s) @ appendInt64 (nextRetryTime s) @ message)
   }"

definition readFlag :: "byte list \<Rightarrow> nat \<Rightarrow> (bool \<times> nat) option" where
  "readFlag payload off = do { (b, off) \<leftarrow> readByte payload off; Some (b \<noteq> 0, off) }"

text \<open>The fields behind the header; \<open>None\<close> is a thrown error, caught by the caller.\<close>

definition read_server_state :: "32 word \<Rightarrow> byte list \<Rightarrow> nat \<Rightarrow> (server_state \<times> nat) option" where
  "read_server_state version payload off = do {
     (e, off) \<leftarrow> readServerStateEndpoint payload off;
     (name, off) \<leftarrow> optional (version \<ge> 3) readString [] payload off;
     (description, off) \<leftarrow> optional (version \<ge> 3) readString [] payload off;
     (connected, off) \<leftarrow> readFlag payload off;
     (handshakeCompleted, off) \<leftarrow> readFlag payload off;
     (clientId, off) \<leftarrow> takeUInt32 payload off;
     (highId, off) \<leftarrow> readFlag payload off;
     (ip, off) \<leftarrow> readString payload off;
     (tcpFlags, off) \<leftarrow> takeUInt32 payload off;
     (users, off) \<leftarrow> takeUInt32 payload off;
     (files, off) \<leftarrow> takeUInt32 payload off;
     (maxUsers, off) \<leftarrow> takeUInt32 payload off;
     (softFiles, off) \<leftarrow> takeUInt32 payload off;
     (hardFiles, off) \<leftarrow> takeUInt32 payload off;
     (udpFlags, off) \<leftarrow> takeUInt32 payload off;
     (lowIdUsers, off) \<leftarrow> takeUInt32 payload off;
     (udpPort, off) \<leftarrow> takeUInt16 payload off;
     (tcpPort, off) \<leftarrow> takeUInt16 payload off;
     (udpKey, off) \<leftarrow> takeUInt32 payload off;
     (challenge, off) \<leftarrow> takeUInt32 payload off;
     (lastUdp, off) \<leftarrow> readInt64 payload off;
     (nextSource, off) \<leftarrow> optional (version \<ge> 2) readInt64 0 payload off;
     (lastSource, off) \<leftarrow> optional (version \<ge> 4) readInt64 0 payload off;
     (sourceCount, off) \<leftarrow> optional (version \<ge> 4) takeUInt32 0 payload off;
     (lastUdpSource, off) \<leftarrow> optional (version \<ge> 4) readInt64 0 payload off;
     (failCount, off) \<leftarrow> takeUInt32 payload off;
     (lastFailure, off) \<leftarrow> readInt64 payload off;
     (nextRetry, off) \<leftarrow> readInt64 payload off;
     (message, off) \<leftarrow> readString payload off;
     Some (\<lparr>ss_endpoint = e, ss_name = name, ss_description = description, connecting = False,
       connected = connected, handshakeCompleted = handshakeCompleted, tcpObfuscationFailed = False,
       clientId = clientId, highId = highId, ipAddress = ip, tcpFlags = tcpFlags, users = users, files = files,
       maxUsers = maxUsers, softFiles = softFiles, hardFiles = hardFiles, udpFlags = udpFlags,
       lowIdUsers = lowIdUsers, udpObfuscationPort = udpPort, tcpObfuscationPort = tcpPort, udpKey = udpKey,
       udpStatusChallenge = challenge, lastUdpStatusTime = lastUdp, nextSourceRequestTime = nextSource,
       lastSourceResponseTime = lastSource, lastSourceCount = sourceCount,
       lastUdpSourceRequestTime = lastUdpSource, failCount = failCount, lastFailureTime = lastFailure,
       nextRetryTime = nextRetry, lastMessage = message\<rparr>, off)
   }"

definition parseServerStatePayload :: "server_state \<Rightarrow> byte list \<Rightarrow> bool \<times> server_state" where
  "parseServerStatePayload state payload =
     (case do {
        (magic, off) \<leftarrow> readBytes payload 0 (length SERVER_STATE_MAGIC);
        if magic \<noteq> SERVER_STATE_MAGIC then None
        else do {
          (version, off) \<leftarrow> takeUInt32 payload off;
          if version \<noteq> 1 \<and> version \<noteq> 2 \<and> version \<noteq> 4 then None
          else do {
            (parsed, off) \<leftarrow> read_server_state version payload off;
            if off \<noteq> length payload then None else Some parsed
          }
        }
      } of None \<Rightarrow> (False, state) | Some parsed \<Rightarrow> (True, parsed))"

section \<open>Executing a parser on what a writer wrote\<close>

lemma cursor_bind:
  assumes "cursor data off (bs @ rest)" and "dec data off = Some (v, off + length bs)"
    and "cursor data (off + length bs) rest \<Longrightarrow> g v (off + length bs) = r"
  shows "(dec data off \<bind> (\<lambda>(v, off). g v off)) = r"
  using assms cursor_advance by simp

lemma parse_u32:
  "cursor data off (packUInt32 w @ rest) \<Longrightarrow> (cursor data (off + 4) rest \<Longrightarrow> g w (off + 4) = r) \<Longrightarrow>
     (takeUInt32 data off \<bind> (\<lambda>(v, off). g v off)) = r"
  using cursor_bind [of data off "packUInt32 w" rest takeUInt32 w g r] cursor_takeUInt(2) [of data off w rest] by simp

lemma parse_u16:
  "cursor data off (packUInt16 w @ rest) \<Longrightarrow> (cursor data (off + 2) rest \<Longrightarrow> g w (off + 2) = r) \<Longrightarrow>
     (takeUInt16 data off \<bind> (\<lambda>(v, off). g v off)) = r"
  using cursor_bind [of data off "packUInt16 w" rest takeUInt16 w g r] cursor_takeUInt(1) [of data off w rest] by simp

lemma parse_flag:
  "cursor data off (flag_byte b @ rest) \<Longrightarrow> (cursor data (off + 1) rest \<Longrightarrow> g b (off + 1) = r) \<Longrightarrow>
     (readFlag data off \<bind> (\<lambda>(v, off). g v off)) = r"
  using cursor_bind [of data off "flag_byte b" rest readFlag b g r]
    cursor_readByte [of data off "if b then 1 else 0" rest] by (auto simp: readFlag_def flag_byte_def)

definition int64 :: "int \<Rightarrow> bool" where
  "int64 v \<longleftrightarrow> - (2 ^ 63) \<le> v \<and> v < 2 ^ 63"

lemma sint_of_int64: "int64 v \<Longrightarrow> sint (of_int v :: 64 word) = v"
  by (simp add: int64_def sint_sbintrunc' signed_take_bit_int_eq_self)

lemma parse_i64:
  "cursor data off (appendInt64 v @ rest) \<Longrightarrow> int64 v \<Longrightarrow> (cursor data (off + 8) rest \<Longrightarrow> g v (off + 8) = r) \<Longrightarrow>
     (readInt64 data off \<bind> (\<lambda>(v, off). g v off)) = r"
  using cursor_bind [of data off "appendInt64 v" rest readInt64 v g r] cursor_takeUInt(3) [of data off "of_int v" rest]
  by (simp add: readInt64_def appendInt64_def sint_of_int64)

lemma cursor_string:
  assumes "appendString v = Some bs" and "cursor data off (bs @ rest)"
  shows "readString data off = Some (v, off + length bs)"
proof -
  have l: "length v \<le> 65535" and bs: "bs = packUInt16 (of_nat (length v)) @ v"
    using assms(1) by (auto simp: appendString_def split: if_splits)
  have c: "cursor data off (packUInt16 (of_nat (length v)) @ v @ rest)" using assms(2) bs by simp
  have d: "cursor data (Suc (Suc off)) (v @ rest)" by (rule cursor_step [OF c]) simp
  have "unat (of_nat (length v) :: 16 word) = length v" using l by (simp add: unat_of_nat)
  then show ?thesis
    using cursor_takeUInt(1) [OF c] cursor_readBytes [OF d refl] by (simp add: readString_def bs)
qed

lemma readString_bounds: "readString data off = Some (v, off') \<Longrightarrow> off + 2 \<le> off' \<and> off' \<le> length data"
  by (auto simp: readString_def split: bind_splits dest!: takeUInt_bounds readBytes_bounds)

interpretation strings: codec readString 2 appendString "\<lambda>v. v" "\<lambda>v. True"
  by unfold_locales (use readString_bounds cursor_string in blast)+

lemma parse_string:
  "cursor data off (bs @ rest) \<Longrightarrow> appendString v = Some bs \<Longrightarrow>
     (cursor data (off + length bs) rest \<Longrightarrow> g v (off + length bs) = r) \<Longrightarrow>
     (readString data off \<bind> (\<lambda>(v, off). g v off)) = r"
  using cursor_bind [of data off bs rest readString v g r] cursor_string [of v bs data off rest] by simp

lemma chars_octets [simp]: "chars (octets s) = s"
proof -
  have "char_of (unat (of_char c :: byte)) = c" for c
  proof -
    have "(of_char c :: byte) = of_nat (of_char c)" by (simp only: of_nat_of_char)
    then have "unat (of_char c :: byte) = of_char c" by (simp add: unat_of_nat)
    then show ?thesis by simp
  qed
  then show ?thesis by (simp add: chars_def octets_def comp_def)
qed

lemma cursor_state_endpoint:
  assumes "appendServerStateEndpoint e = Some bs" and "cursor data off (bs @ rest)"
  shows "readServerStateEndpoint data off = Some (bare e, off + length bs)"
proof -
  obtain h where h: "appendString (octets (host e)) = Some h" and bs: "bs = h @ packUInt16 (port e)"
    using assms(1) by (auto simp: appendServerStateEndpoint_def split: bind_splits)
  have c: "cursor data off (h @ packUInt16 (port e) @ rest)" using assms(2) bs by simp
  have d: "cursor data (off + length h) (packUInt16 (port e) @ rest)" by (rule cursor_advance [OF c])
  show ?thesis
    by (cases e) (use cursor_string [OF h c] cursor_takeUInt(1) [OF d] in
      \<open>simp add: readServerStateEndpoint_def bs new_endpoint_def bare_def\<close>)
qed

lemma parse_state_endpoint:
  "cursor data off (bs @ rest) \<Longrightarrow> appendServerStateEndpoint e = Some bs \<Longrightarrow>
     (cursor data (off + length bs) rest \<Longrightarrow> g (bare e) (off + length bs) = r) \<Longrightarrow>
     (readServerStateEndpoint data off \<bind> (\<lambda>(v, off). g v off)) = r"
  using cursor_bind [of data off bs rest readServerStateEndpoint "bare e" g r] cursor_state_endpoint [of e bs data off rest]
  by simp

lemmas parse_steps = parse_u32 parse_u16 parse_flag parse_i64 parse_string parse_state_endpoint

text \<open>What a saved state keeps: all but the two flags of a running connection and the parts of
  the address that only peers have. Times must be \<open>int64_t\<close> values.\<close>

definition saved :: "server_state \<Rightarrow> server_state" where
  "saved s = s\<lparr>ss_endpoint := bare (ss_endpoint s), connecting := False, tcpObfuscationFailed := False\<rparr>"

definition times_ok :: "server_state \<Rightarrow> bool" where
  "times_ok s \<longleftrightarrow> int64 (lastUdpStatusTime s) \<and> int64 (nextSourceRequestTime s) \<and> int64 (lastSourceResponseTime s) \<and>
     int64 (lastUdpSourceRequestTime s) \<and> int64 (lastFailureTime s) \<and> int64 (nextRetryTime s)"

lemma server_state_roundtrip:
  assumes "createServerStatePayload s = Some p" and "times_ok s"
  shows "parseServerStatePayload old p = (True, saved s)"
proof -
  have v: "(4 :: 32 word) \<ge> 3" "(4 :: 32 word) \<ge> 2" by (simp_all add: word_le_nat_alt)
  obtain e n d i m where parts: "appendServerStateEndpoint (ss_endpoint s) = Some e" "appendString (ss_name s) = Some n"
    "appendString (ss_description s) = Some d" "appendString (ipAddress s) = Some i" "appendString (lastMessage s) = Some m"
    and p: "createServerStatePayload s = Some p" using assms(1) by (auto simp: createServerStatePayload_def split: bind_splits)
  define body where "body = drop (length SERVER_STATE_MAGIC + 4) p"
  have c: "cursor p 0 (SERVER_STATE_MAGIC @ packUInt32 4 @ body)"
    and body: "body = e @ n @ d @
       flag_byte (connected s) @ flag_byte (handshakeCompleted s) @ packUInt32 (clientId s) @
       flag_byte (highId s) @ i @ packUInt32 (tcpFlags s) @ packUInt32 (users s) @ packUInt32 (files s) @
       packUInt32 (maxUsers s) @ packUInt32 (softFiles s) @ packUInt32 (hardFiles s) @
       packUInt32 (udpFlags s) @ packUInt32 (lowIdUsers s) @ packUInt16 (udpObfuscationPort s) @
       packUInt16 (tcpObfuscationPort s) @ packUInt32 (udpKey s) @ packUInt32 (udpStatusChallenge s) @
       appendInt64 (lastUdpStatusTime s) @ appendInt64 (nextSourceRequestTime s) @
       appendInt64 (lastSourceResponseTime s) @ packUInt32 (lastSourceCount s) @
       appendInt64 (lastUdpSourceRequestTime s) @ packUInt32 (failCount s) @
       appendInt64 (lastFailureTime s) @ appendInt64 (nextRetryTime s) @ m @ []"
    using p parts by (auto simp: createServerStatePayload_def body_def)
  have c2: "cursor p (length SERVER_STATE_MAGIC) (packUInt32 4 @ body)" using cursor_step [OF c] by simp
  have c3: "cursor p (length SERVER_STATE_MAGIC + 4) body" by (rule cursor_step [OF c2]) simp
  have t: "int64 (lastUdpStatusTime s)" "int64 (nextSourceRequestTime s)" "int64 (lastSourceResponseTime s)"
    "int64 (lastUdpSourceRequestTime s)" "int64 (lastFailureTime s)" "int64 (nextRetryTime s)"
    using assms(2) by (simp_all add: times_ok_def)
  have "read_server_state 4 p (length SERVER_STATE_MAGIC + 4) = Some (saved s, length p)"
    using c3 [unfolded body] unfolding read_server_state_def optional_def
    by (simp only: v order.refl if_True) ((erule parse_steps, (rule parts t)?)+, drule cursor_end, cases s, simp add: saved_def)
  then show ?thesis
    using cursor_readBytes [OF c refl] cursor_takeUInt(2) [OF c2] by (simp add: parseServerStatePayload_def)
qed

end
