(* ===== verification/Server_Messages.thy ===== *)
theory Server_Messages
  imports Server_Protocol
begin

text \<open>
  What the server messages carry: lists of sources and servers, several source packets in one
  datagram, and the state of a server saved between runs.
\<close>

section \<open>Lists of addresses\<close>

lemma count_byte: "length xs \<le> 255 \<Longrightarrow> unat (of_nat (length xs) :: byte) = length xs"
  by (simp add: unat_of_nat)

lemma server_list_roundtrip:
  assumes "createServerListPayload es = Some p" and "list_all (\<lambda>e. dotted (host e)) es"
  shows "parseServerListPayload old p = Some (True, map bare es)"
proof -
  obtain bs where w: "write_list packEndpoint es = Some bs" and l: "length es \<le> 255" and p: "p = of_nat (length es) # bs"
    using assms(1) by (auto simp: createServerListPayload_def split: if_splits bind_splits)
  have c: "cursor p 0 (of_nat (length es) # bs)" by (simp add: p)
  have d: "cursor p (Suc 0) (bs @ [])" using cursor_step [of p 0 "[of_nat (length es)]" bs] c by simp
  have "length bs = 6 * length es" using w by (induction es arbitrary: bs) (auto split: bind_splits dest!: length_packEndpoint)
  then show ?thesis
    using cursor_readByte [OF c] endpoints.list_roundtrip [OF w assms(2) d] count_byte [OF l]
    by (simp add: parseServerListPayload_def p)
qed

text \<open>A found source: its address and what the address says about the client.\<close>

definition found_of :: "endpoint \<Rightarrow> found_source" where
  "found_of e = (case ipv4ToEndpointValue (host e) of
       None \<Rightarrow> \<lparr>fs_endpoint = bare e, fs_clientId = 0, fs_lowId = True\<rparr>
     | Some i \<Rightarrow> \<lparr>fs_endpoint = bare e, fs_clientId = i, fs_lowId = (i \<le> 0x00ffffff)\<rparr>)"

interpretation found_plain: codec "read_found_source False" 6 packEndpoint found_of "\<lambda>e. dotted (host e)"
proof
  fix e bs data off rest
  assume a: "packEndpoint e = Some bs" "dotted (host e)" "cursor data off (bs @ rest)"
  obtain i where "ipv4ToEndpointValue (host e) = Some i" using a(2) by (auto simp: dotted_def split: option.splits)
  then show "read_found_source False data off = Some (found_of e, off + length bs)"
    using cursor_packEndpoint [OF a] length_packEndpoint [OF a(1)]
    by (simp add: read_found_source_def found_source_of_def found_of_def bare_def)
qed

lemma createFound_eq:
  assumes "createFoundSourcesPayload h es = Some p"
  obtains bs where "write_list packEndpoint es = Some bs" and "length h = HASH_LENGTH" and "length es \<le> 255"
    and "p = h @ of_nat (length es) # bs" and "length bs = 6 * length es"
proof -
  obtain bs where w: "write_list packEndpoint es = Some bs" and o: "length h = HASH_LENGTH" "length es \<le> 255"
    "p = h @ of_nat (length es) # bs"
    using assms by (auto simp: createFoundSourcesPayload_def validate_hash_def split: if_splits bind_splits)
  moreover have "length bs = 6 * length es"
    using w by (induction es arbitrary: bs) (auto split: bind_splits dest!: length_packEndpoint)
  ultimately show ?thesis using that by blast
qed

lemma found_sources_roundtrip:
  assumes "createFoundSourcesPayload h es = Some p" and "list_all (\<lambda>e. dotted (host e)) es"
  shows "parseFoundSourcesPayload_hash old p h = Some (True, map bare es)"
    and "parseFoundSourcesPayload_found old' p h False = Some (True, map found_of es)"
proof -
  obtain bs where w: "write_list packEndpoint es = Some bs" and h: "length h = HASH_LENGTH" and l: "length es \<le> 255"
    and p: "p = h @ of_nat (length es) # bs" using createFound_eq [OF assms(1)] by metis
  have b: "cursor p 0 (h @ of_nat (length es) # bs)" by (simp add: p)
  have c: "cursor p HASH_LENGTH (of_nat (length es) # bs)" using cursor_step [OF b] h by simp
  have d: "cursor p (Suc HASH_LENGTH) (bs @ [])" using cursor_step [of p HASH_LENGTH "[of_nat (length es)]" bs] c by simp
  note r = cursor_readBytes [OF b h [symmetric]] cursor_readByte [OF c] count_byte [OF l]
  show "parseFoundSourcesPayload_hash old p h = Some (True, map bare es)"
    using r endpoints.list_roundtrip [OF w assms(2) d] h by (simp add: parseFoundSourcesPayload_hash_def validate_hash_def)
  show "parseFoundSourcesPayload_found old' p h False = Some (True, map found_of es)"
    using r found_plain.list_roundtrip [OF w assms(2) d] h cursor_end [OF d]
    by (simp add: parseFoundSourcesPayload_found_def validate_hash_def)
qed

section \<open>Several packets in one datagram\<close>

text \<open>Answers for several files behind each other, with a packet header in between.\<close>

fun packed :: "(byte list \<times> endpoint list) list \<Rightarrow> byte list option" where
  "packed [] = Some []"
| "packed [(h, es)] = createFoundSourcesPayload h es"
| "packed ((h, es) # x # xs) = do {
     a \<leftarrow> createFoundSourcesPayload h es;
     b \<leftarrow> packed (x # xs);
     Some (a @ [PROTO_EDONKEY, OP_GLOBFOUNDSOURCES] @ b)
   }"

definition answers_for :: "byte list \<Rightarrow> ('a \<Rightarrow> 'b) \<Rightarrow> (byte list \<times> 'a list) list \<Rightarrow> 'b list" where
  "answers_for h f xs = concat (map (\<lambda>(h', es). if h' = h then map f es else []) xs)"

lemma packed_step_written:
  assumes "codec rd k packEndpoint canon ok" and "createFoundSourcesPayload h' es = Some a" and "list_all ok es"
    and "cursor data off (a @ rest)"
    and "rest = [] \<or> (\<exists>more. rest = [PROTO_EDONKEY, OP_GLOBFOUNDSOURCES] @ more)"
  shows "packed_step rd data h off = Some (Some (answers_for h canon [(h', es)],
    if rest = [] then (off + length a, False) else (off + length a + 2, True)))"
proof -
  obtain bs where w: "write_list packEndpoint es = Some bs" and h: "length h' = HASH_LENGTH" and l: "length es \<le> 255"
    and p: "a = h' @ of_nat (length es) # bs" and n: "length bs = 6 * length es" using createFound_eq [OF assms(2)] by metis
  have b: "cursor data off (h' @ of_nat (length es) # bs @ rest)" using assms(4) p by simp
  have c: "cursor data (off + HASH_LENGTH) (of_nat (length es) # bs @ rest)" using cursor_step [OF b] h by simp
  have d: "cursor data (Suc (off + HASH_LENGTH)) (bs @ rest)"
    using cursor_step [of data "off + HASH_LENGTH" "[of_nat (length es)]"] c by simp
  have e: "cursor data (Suc (off + HASH_LENGTH) + length bs) rest" by (rule cursor_advance [OF d])
  have len: "length data = off + HASH_LENGTH + 1 + length bs + length rest" using cursor_end [OF d] by simp
  note r = cursor_readBytes [OF b h [symmetric]] cursor_readByte [OF c] count_byte [OF l]
    codec.list_roundtrip [OF assms(1) w assms(3) d]
  have nxt: "rest \<noteq> [] \<Longrightarrow> data ! (Suc (off + HASH_LENGTH) + length bs) = PROTO_EDONKEY \<and>
      data ! Suc (Suc (off + HASH_LENGTH) + length bs) = OP_GLOBFOUNDSOURCES \<and> 2 \<le> length rest"
    using e assms(5) len nth_drop [of "Suc (off + HASH_LENGTH) + length bs" data 0]
      nth_drop [of "Suc (off + HASH_LENGTH) + length bs" data 1] by (auto simp: cursor_def)
  show ?thesis
    using r len h n nxt by (cases "rest = []") (auto simp: packed_step_def answers_for_def Let_def p)
qed

lemma packed_nonempty: "packed (x # xs) = Some p \<Longrightarrow> p \<noteq> []"
  by (cases "(x, xs)" rule: prod.exhaust, cases x, cases xs)
    (auto split: bind_splits simp: HASH_LENGTH_def elim: createFound_eq)

lemma packed_Cons:
  assumes "packed ((h', es) # xs) = Some p"
  obtains a rest q where "createFoundSourcesPayload h' es = Some a" and "p = a @ rest" and "packed xs = Some q"
    and "rest = (if xs = [] then [] else [PROTO_EDONKEY, OP_GLOBFOUNDSOURCES] @ q)"
  using assms by (cases xs) (auto split: bind_splits)

lemma answers_Cons: "answers_for h f (x # xs) = answers_for h f [x] @ answers_for h f xs"
  by (simp add: answers_for_def)

lemma packed_endpoints_written:
  "packed xs = Some p \<Longrightarrow> list_all (\<lambda>(_, es). list_all (\<lambda>e. dotted (host e)) es) xs \<Longrightarrow> cursor data off p \<Longrightarrow>
     packed_endpoints data h off acc = Some (True, acc @ answers_for h bare xs)"
proof (induction xs arbitrary: p off acc)
  case Nil
  then show ?case using cursor_end [of data off p] by (simp add: packed_endpoints.simps [of data] answers_for_def)
next
  case (Cons x xs)
  obtain h' es where x: "x = (h', es)" by (cases x)
  obtain a rest q where a: "createFoundSourcesPayload h' es = Some a" "p = a @ rest" "packed xs = Some q"
    "rest = (if xs = [] then [] else [PROTO_EDONKEY, OP_GLOBFOUNDSOURCES] @ q)"
    using packed_Cons [OF Cons.prems(1) [unfolded x]] by metis
  have c: "cursor data off (a @ rest)" using Cons.prems(3) a(2) by simp
  have s: "packed_step readEndpoint data h off = Some (Some (answers_for h bare [x],
      if rest = [] then (off + length a, False) else (off + length a + 2, True)))"
    unfolding x by (rule packed_step_written [OF endpoints.codec_axioms a(1) _ c]) (use Cons.prems(2) x a(4) in auto)
  have "off < length data" using packed_nonempty [OF Cons.prems(1)] cursor_end [OF Cons.prems(3)] by (cases p) auto
  moreover have "cursor data (off + length a + 2) q" if "xs \<noteq> []"
    using cursor_step [of data "off + length a" "[PROTO_EDONKEY, OP_GLOBFOUNDSOURCES]" q] cursor_advance [OF c] a(4) that by simp
  ultimately show ?case
    using s a(4) Cons.IH [OF a(3), of "off + length a + 2" "acc @ answers_for h bare [x]"] Cons.prems(2) answers_Cons [of h bare x xs]
    by (cases "xs = []") (auto simp: packed_endpoints.simps [of data h off] answers_for_def)
qed

lemma packed_found_written:
  "packed xs = Some p \<Longrightarrow> list_all (\<lambda>(_, es). list_all (\<lambda>e. dotted (host e)) es) xs \<Longrightarrow> cursor data off p \<Longrightarrow>
     packed_found data h off acc = Some (True, acc @ answers_for h found_of xs)"
proof (induction xs arbitrary: p off acc)
  case Nil
  then show ?case using cursor_end [of data off p] by (simp add: packed_found.simps [of data] answers_for_def)
next
  case (Cons x xs)
  obtain h' es where x: "x = (h', es)" by (cases x)
  obtain a rest q where a: "createFoundSourcesPayload h' es = Some a" "p = a @ rest" "packed xs = Some q"
    "rest = (if xs = [] then [] else [PROTO_EDONKEY, OP_GLOBFOUNDSOURCES] @ q)"
    using packed_Cons [OF Cons.prems(1) [unfolded x]] by metis
  have c: "cursor data off (a @ rest)" using Cons.prems(3) a(2) by simp
  have s: "packed_step (read_found_source False) data h off = Some (Some (answers_for h found_of [x],
      if rest = [] then (off + length a, False) else (off + length a + 2, True)))"
    unfolding x by (rule packed_step_written [OF found_plain.codec_axioms a(1) _ c]) (use Cons.prems(2) x a(4) in auto)
  have "off < length data" using packed_nonempty [OF Cons.prems(1)] cursor_end [OF Cons.prems(3)] by (cases p) auto
  moreover have "cursor data (off + length a + 2) q" if "xs \<noteq> []"
    using cursor_step [of data "off + length a" "[PROTO_EDONKEY, OP_GLOBFOUNDSOURCES]" q] cursor_advance [OF c] a(4) that by simp
  ultimately show ?case
    using s a(4) Cons.IH [OF a(3), of "off + length a + 2" "acc @ answers_for h found_of [x]"] Cons.prems(2) answers_Cons [of h found_of x xs]
    by (cases "xs = []") (auto simp: packed_found.simps [of data h off] answers_for_def)
qed

section \<open>Properties\<close>

text \<open>
  C31. A datagram with the answers for several files is taken apart completely: the loop ends, and
  the parser returns exactly the sources of the packets for the wanted file, in order, and none of
  the others; the second form adds the client identifier and whether it is a low one.
\<close>

theorem packed_sources_collected:
  assumes "packed xs = Some p" and "list_all (\<lambda>(_, es). list_all (\<lambda>e. dotted (host e)) es) xs"
    and "length h = HASH_LENGTH"
  shows "parsePackedFoundSourcesPayloads old p h = Some (True, answers_for h bare xs) \<and>
    parsePackedFoundSourcesPayloads_found old' p h = Some (True, answers_for h found_of xs)"
  using packed_endpoints_written [OF assms(1,2) cursor_start, of h "[]"]
    packed_found_written [OF assms(1,2) cursor_start, of h "[]"] assms(3)
  by (simp add: parsePackedFoundSourcesPayloads_def parsePackedFoundSourcesPayloads_found_def validate_hash_def)

definition demo_endpoint :: endpoint where
  "demo_endpoint = new_endpoint\<lparr>host := ipv4FromEndpoint 0x0201000a, port := 4662\<rparr>"

theorem packed_sources_collected_witness:
  "\<exists>p. packed [(replicate 16 1, [demo_endpoint]), (replicate 16 2, [demo_endpoint, demo_endpoint])] = Some p \<and>
     parsePackedFoundSourcesPayloads [] p (replicate 16 2) = Some (True, [demo_endpoint, demo_endpoint])"
proof -
  obtain p where p: "packed [(replicate 16 1, [demo_endpoint]), (replicate 16 2, [demo_endpoint, demo_endpoint])] = Some p"
    by (simp add: createFoundSourcesPayload_def validate_hash_def HASH_LENGTH_def packEndpoint_def demo_endpoint_def ipv4_roundtrip)
  have "answers_for (replicate 16 2) bare [(replicate 16 1, [demo_endpoint]), (replicate 16 2, [demo_endpoint, demo_endpoint])] =
      [demo_endpoint, demo_endpoint]"
    by (simp add: answers_for_def demo_endpoint_def bare_def new_endpoint_def)
  then show ?thesis
    using p packed_sources_collected [OF p, of "replicate 16 2" "[]"] by (simp add: demo_endpoint_def HASH_LENGTH_def)
qed

text \<open>
  The state of a server survives a restart: parsing what was saved gives every field back but
  the two flags of a running connection, and lists of servers and sources are read back as written.
  Times are \<open>int64_t\<close> values, addresses are dotted.
\<close>

theorem server_data_roundtrip:
  "(createServerStatePayload s = Some p \<and> times_ok s \<longrightarrow> parseServerStatePayload old p = (True, saved s)) \<and>
   (createServerListPayload es = Some q \<and> list_all (\<lambda>e. dotted (host e)) es \<longrightarrow>
      parseServerListPayload oldList q = Some (True, map bare es)) \<and>
   (createFoundSourcesPayload h es = Some r \<and> list_all (\<lambda>e. dotted (host e)) es \<longrightarrow>
      parseFoundSourcesPayload_hash oldList r h = Some (True, map bare es))"
  using server_state_roundtrip server_list_roundtrip found_sources_roundtrip(1) by blast


end
