(* ===== verification/Cipher.thy ===== *)
theory Cipher
  imports Packet
begin

text \<open>
  Ciphers and digests of the eD2k client: RC4 (\<open>ed2k/Cipher.cc\<close>), MD4 and the hashes built on it
  and on SHA-1 (\<open>ed2k/Hash.cc\<close>), and obfuscated UDP datagrams (\<open>ed2k/Crypto.cc\<close>).

  MD5 and SHA-1 come from OpenSSL; they are parameters \<open>md5\<close> and \<open>sha1\<close> of the definitions that
  use them, and the theorems hold for every function in their place.
\<close>

section \<open>RC4\<close>

record rc4 =
  rc4_state :: "byte list"
  rc4_i :: byte
  rc4_j :: byte

definition swap_at :: "nat \<Rightarrow> nat \<Rightarrow> 'a list \<Rightarrow> 'a list" where
  "swap_at i j xs = xs[i := xs ! j, j := xs ! i]"

definition key_step :: "byte list \<Rightarrow> nat \<Rightarrow> byte list \<times> byte \<Rightarrow> byte list \<times> byte" where
  "key_step key i sj =
     (let (state, j) = sj;
          j = j + state ! i + key ! (i mod length key)
      in (swap_at i (unat j) state, j))"

definition rc4_init :: "byte list \<Rightarrow> rc4" where
  "rc4_init key =
     \<lparr>rc4_state = fst (fold (key_step key) [0..<256] (map of_nat [0..<256], 0)), rc4_i = 0, rc4_j = 0\<rparr>"

text \<open>One byte of the key stream.\<close>

definition rc4_step :: "rc4 \<Rightarrow> byte \<times> rc4" where
  "rc4_step r =
     (let i = rc4_i r + 1;
          j = rc4_j r + rc4_state r ! unat i;
          state = swap_at (unat i) (unat j) (rc4_state r)
      in (state ! unat (state ! unat i + state ! unat j), \<lparr>rc4_state = state, rc4_i = i, rc4_j = j\<rparr>))"

fun rc4_encrypt :: "rc4 \<Rightarrow> byte list \<Rightarrow> byte list \<times> rc4" where
  "rc4_encrypt r [] = ([], r)"
| "rc4_encrypt r (b # bs) =
     (let (k, r) = rc4_step r; (cs, r) = rc4_encrypt r bs in ((b XOR k) # cs, r))"

section \<open>MD4\<close>

type_synonym md4 = "32 word \<times> 32 word \<times> 32 word \<times> 32 word"

definition rol :: "32 word \<Rightarrow> nat \<Rightarrow> 32 word" where
  "rol n s = push_bit s n OR drop_bit (32 - s) n"

definition md4_f :: "32 word \<Rightarrow> 32 word \<Rightarrow> 32 word \<Rightarrow> 32 word" where
  "md4_f x y z = (x AND y) OR (NOT x AND z)"

definition md4_g :: "32 word \<Rightarrow> 32 word \<Rightarrow> 32 word \<Rightarrow> 32 word" where
  "md4_g x y z = (x AND y) OR (x AND z) OR (y AND z)"

definition md4_h :: "32 word \<Rightarrow> 32 word \<Rightarrow> 32 word \<Rightarrow> 32 word" where
  "md4_h x y z = x XOR y XOR z"

type_synonym md4_step = "32 word \<Rightarrow> 32 word \<Rightarrow> 32 word \<Rightarrow> 32 word \<Rightarrow> 32 word \<Rightarrow> nat \<Rightarrow> 32 word"

definition step1 :: md4_step where
  "step1 a b c d x s = rol (a + md4_f b c d + x) s"

definition step2 :: md4_step where
  "step2 a b c d x s = rol (a + md4_g b c d + x + 0x5a827999) s"

definition step3 :: md4_step where
  "step3 a b c d x s = rol (a + md4_h b c d + x + 0x6ed9eba1) s"

text \<open>The four calls \<open>step(a, b, c, d, ...)\<close>, \<open>step(d, a, b, c, ...)\<close>, \<open>step(c, d, a, b, ...)\<close>,
  \<open>step(b, c, d, a, ...)\<close> in a row, for the given words of the block and shifts.\<close>

definition md4_row :: "md4_step \<Rightarrow> nat \<times> nat \<times> nat \<times> nat \<Rightarrow> 32 word list \<Rightarrow> nat \<times> nat \<times> nat \<times> nat \<Rightarrow> md4 \<Rightarrow> md4" where
  "md4_row step shifts x idx st =
     (let (s0, s1, s2, s3) = shifts; (i0, i1, i2, i3) = idx; (a, b, c, d) = st;
          a = step a b c d (x ! i0) s0;
          d = step d a b c (x ! i1) s1;
          c = step c d a b (x ! i2) s2;
          b = step b c d a (x ! i3) s3
      in (a, b, c, d))"

definition md4_rounds :: "32 word list \<Rightarrow> md4 \<Rightarrow> md4" where
  "md4_rounds x st =
     (let st = fold (md4_row step1 (3, 7, 11, 19) x)
                 [(0, 1, 2, 3), (4, 5, 6, 7), (8, 9, 10, 11), (12, 13, 14, 15)] st;
          st = fold (md4_row step2 (3, 5, 9, 13) x)
                 [(0, 4, 8, 12), (1, 5, 9, 13), (2, 6, 10, 14), (3, 7, 11, 15)] st
      in fold (md4_row step3 (3, 9, 11, 15) x)
           [(0, 8, 4, 12), (2, 10, 6, 14), (1, 9, 5, 13), (3, 11, 7, 15)] st)"

definition transform :: "md4 \<Rightarrow> byte list \<Rightarrow> md4" where
  "transform st block =
     (let x = map (\<lambda>i. readUInt32 (drop (i * 4) block)) [0..<16];
          (a, b, c, d) = md4_rounds x st;
          (s0, s1, s2, s3) = st
      in (s0 + a, s1 + b, s2 + c, s3 + d))"

definition md4_initial :: md4 where
  "md4_initial = (0x67452301, 0xefcdab89, 0x98badcfe, 0x10325476)"

text \<open>The loop over whole blocks, and the bytes it leaves.\<close>

function md4_blocks :: "md4 \<Rightarrow> byte list \<Rightarrow> md4 \<times> byte list" where
  "md4_blocks st bytes =
     (if length bytes \<ge> 64 then md4_blocks (transform st (take 64 bytes)) (drop 64 bytes) else (st, bytes))"
  by pat_completeness auto
termination
  by (relation "measure (\<lambda>(st, bytes). length bytes)") auto

declare md4_blocks.simps [simp del]

text \<open>The 128 bytes of \<open>tail\<close>: what is left, a one bit, zeros, and the length in bits at the end
  of the first or of the second block.\<close>

definition md4_tail :: "byte list \<Rightarrow> nat \<Rightarrow> byte list" where
  "md4_tail left totalLength =
     (let tail = left @ 0x80 # replicate (127 - length left) 0;
          lengthOffset = (if length left < 56 then 56 else 120)
      in take lengthOffset tail @ packUInt64 (of_nat totalLength * 8) @ drop (lengthOffset + 8) tail)"

definition md4_digest_of :: "md4 \<Rightarrow> byte list" where
  "md4_digest_of st = (let (a, b, c, d) = st in packUInt32 a @ packUInt32 b @ packUInt32 c @ packUInt32 d)"

definition md4Digest :: "byte list \<Rightarrow> byte list" where
  "md4Digest data =
     (let (st, left) = md4_blocks md4_initial data;
          tail = md4_tail left (length data);
          st = transform st (take 64 tail)
      in md4_digest_of (if length left \<ge> 56 then transform st (take 64 (drop 64 tail)) else st))"

section \<open>Hashes of files\<close>

definition piece_length :: nat where
  "piece_length = 9728000"

definition emblock_length :: nat where
  "emblock_length = 184320"

definition aich_hash_length :: nat where
  "aich_hash_length = 20"

definition hashSetPartCount :: "int \<Rightarrow> nat" where
  "hashSetPartCount fileSize =
     (if fileSize \<le> 0 then 0
      else let fullParts = nat (fileSize div int piece_length) in if fullParts = 0 then 0 else fullParts + 1)"

definition rootHash :: "byte list list \<Rightarrow> byte list option" where
  "rootHash pieceHashes =
     (if pieceHashes = [] then Some (md4Digest [])
      else if length pieceHashes = 1 then Some (pieceHashes ! 0)
      else if \<exists>h \<in> set pieceHashes. length h \<noteq> HASH_LENGTH then None
      else Some (md4Digest (concat pieceHashes)))"

text \<open>The smallest unit below a node of the AICH tree; every caller of the tree functions passes
  the one that belongs to the size of the node. The bytes that go to the left child.\<close>

definition aich_base :: "nat \<Rightarrow> nat" where
  "aich_base n = (if n \<le> piece_length then emblock_length else piece_length)"

definition countBlocks :: "nat \<Rightarrow> nat \<Rightarrow> nat" where
  "countBlocks n baseSize = (n + baseSize - 1) div baseSize"

definition aich_left :: "bool \<Rightarrow> nat \<Rightarrow> nat" where
  "aich_left leftBranch n =
     (let blocks = countBlocks n (aich_base n);
          leftBlocks = (if leftBranch then blocks + 1 else blocks) div 2
      in min n (leftBlocks * aich_base n))"

lemma aich_left_between:
  assumes "\<not> n \<le> aich_base n"
  shows "0 < aich_left left n \<and> aich_left left n < n"
proof -
  define b where "b = aich_base n"
  define k where "k = countBlocks n b"
  have b: "0 < b" "b < n" using assms by (auto simp: b_def aich_base_def emblock_length_def piece_length_def)
  have "k * b \<le> n + b - 1" using div_times_less_eq_dividend [of "n + b - 1" b] by (simp add: k_def countBlocks_def)
  then have m: "k * b < n + b" using b by linarith
  have "n + b - 1 = k * b + (n + b - 1) mod b" by (simp add: k_def countBlocks_def)
  moreover have "(n + b - 1) mod b < b" using b by simp
  ultimately have "n \<le> k * b" using b by linarith
  then have k: "2 \<le> k" using b by (cases k; cases "k - 1") auto
  define l where "l = (if left then k + 1 else k) div 2"
  have l: "1 \<le> l" "l + 1 \<le> k" using k by (auto simp: l_def)
  have "(l + 1) * b \<le> k * b" using l(2) by (rule mult_le_mono1)
  then have "l * b < n" using m by simp
  moreover have "0 < l * b" using l b by simp
  ultimately show ?thesis by (simp add: aich_left_def b_def [symmetric] k_def [symmetric] l_def [symmetric] Let_def)
qed

function aichRootHashForRange :: "(byte list \<Rightarrow> byte list) \<Rightarrow> byte list \<Rightarrow> bool \<Rightarrow> byte list" where
  "aichRootHashForRange sha1 data leftBranch =
     (if length data \<le> aich_base (length data) then sha1 data
      else let leftLength = aich_left leftBranch (length data)
           in sha1 (aichRootHashForRange sha1 (take leftLength data) True @
                    aichRootHashForRange sha1 (drop leftLength data) False))"
  by pat_completeness auto
termination
proof (relation "measure (\<lambda>(sha1, data, left). length data)", goal_cases)
  case (2 sha1 data left n)
  then show ?case using aich_left_between [of "length data" left] by simp
next
  case (3 sha1 data left n)
  then show ?case using aich_left_between [of "length data" left] by simp linarith
qed simp

declare aichRootHashForRange.simps [simp del]

definition aichRootHash :: "(byte list \<Rightarrow> byte list) \<Rightarrow> byte list \<Rightarrow> byte list" where
  "aichRootHash sha1 data = (if data = [] then sha1 [] else aichRootHashForRange sha1 data True)"

text \<open>The other overload combines a list of hashes level by level.\<close>

fun aich_level :: "(byte list \<Rightarrow> byte list) \<Rightarrow> byte list list \<Rightarrow> byte list list" where
  "aich_level sha1 (x # y # xs) = sha1 (x @ y) # aich_level sha1 xs"
| "aich_level sha1 xs = xs"

lemma length_aich_level: "length (aich_level sha1 xs) = (length xs + 1) div 2"
  by (induction sha1 xs rule: aich_level.induct) simp_all

function aich_reduce :: "(byte list \<Rightarrow> byte list) \<Rightarrow> byte list list \<Rightarrow> byte list" where
  "aich_reduce sha1 level = (if length level > 1 then aich_reduce sha1 (aich_level sha1 level) else level ! 0)"
  by pat_completeness auto
termination
  by (relation "measure (\<lambda>(sha1, level). length level)") (auto simp: length_aich_level)

declare aich_reduce.simps [simp del]

definition aichRootHash_list :: "(byte list \<Rightarrow> byte list) \<Rightarrow> byte list list \<Rightarrow> byte list option" where
  "aichRootHash_list sha1 hashes =
     (if hashes = [] then Some (sha1 [])
      else if \<exists>h \<in> set hashes. length h \<noteq> aich_hash_length then None
      else Some (aich_reduce sha1 hashes))"

section \<open>Obfuscated datagrams\<close>

text \<open>The first 1024 bytes of the key stream are thrown away.\<close>

definition initializeUdpCipher :: "(byte list \<Rightarrow> byte list) \<Rightarrow> byte list \<Rightarrow> rc4" where
  "initializeUdpCipher md5 keyData = snd (rc4_encrypt (rc4_init (md5 keyData)) (replicate 1024 0))"

text \<open>\<open>UDP_SYNC_MAGIC\<close> and \<open>UDP_PEER_SYNC_MAGIC\<close>, high byte first.\<close>

definition udpSyncBytes :: "byte list" where
  "udpSyncBytes = [0x13, 0xef, 0x24, 0xd5]"

definition peerUdpSyncBytes :: "byte list" where
  "peerUdpSyncBytes = [0x39, 0x5f, 0x2e, 0xc1]"

definition isPlainUdpMarker :: "byte \<Rightarrow> bool" where
  "isPlainUdpMarker marker \<longleftrightarrow> marker = 0xc5 \<or> marker = 0xe5 \<or> marker = 0xe4 \<or> marker = 0xd4"

definition createTcpObfuscationKey :: "(byte list \<Rightarrow> byte list) \<Rightarrow> byte list \<Rightarrow> byte \<Rightarrow> 32 word \<Rightarrow> byte list" where
  "createTcpObfuscationKey md5 userId magicValue randomKeyPart =
     (if length userId \<noteq> HASH_LENGTH then [] else md5 (userId @ [magicValue] @ packUInt32 randomKeyPart))"

definition createServerTcpObfuscationKey :: "(byte list \<Rightarrow> byte list) \<Rightarrow> byte list \<Rightarrow> byte \<Rightarrow> byte list" where
  "createServerTcpObfuscationKey md5 sharedSecret magicValue =
     (if length sharedSecret \<noteq> 96 then [] else md5 (sharedSecret @ [magicValue]))"

text \<open>The end both encrypting functions share: marker, key part, then three calls of the cipher.\<close>

definition seal_udp :: "rc4 \<Rightarrow> byte \<Rightarrow> 16 word \<Rightarrow> byte list \<Rightarrow> byte list \<Rightarrow> byte list" where
  "seal_udp cipher marker randomKeyPart sync datagram =
     (let (s, cipher) = rc4_encrypt cipher sync;
          (p, cipher) = rc4_encrypt cipher [0];
          (d, cipher) = rc4_encrypt cipher datagram
      in [marker, ucast randomKeyPart, ucast (drop_bit 8 randomKeyPart)] @ s @ p @ d)"

text \<open>The end both decrypting functions share; the datagram is an out-parameter.\<close>

definition open_udp :: "rc4 \<Rightarrow> byte list \<Rightarrow> byte list \<Rightarrow> byte list \<Rightarrow> bool \<times> byte list" where
  "open_udp cipher magic datagram encrypted =
     (let (sync, cipher) = rc4_encrypt cipher (take 4 (drop 3 encrypted))
      in if sync \<noteq> magic then (False, datagram)
         else
           let (p, cipher) = rc4_encrypt cipher [encrypted ! 7];
               paddingLength = unat (p ! 0 AND 0x0f)
           in if length encrypted \<le> 8 + paddingLength then (False, datagram)
              else
                let (_, cipher) = rc4_encrypt cipher (take paddingLength (drop 8 encrypted))
                in (True, fst (rc4_encrypt cipher (drop (8 + paddingLength) encrypted))))"

definition encryptServerUdpDatagram :: "(byte list \<Rightarrow> byte list) \<Rightarrow> byte list \<Rightarrow> 32 word \<Rightarrow> 16 word \<Rightarrow> byte list" where
  "encryptServerUdpDatagram md5 datagram baseKey randomKeyPart =
     (if datagram = [] \<or> baseKey = 0 then []
      else
        let cipher = initializeUdpCipher md5 (packUInt32 baseKey @ [0x6b] @ packUInt16 randomKeyPart);
            marker = ucast (drop_bit 8 randomKeyPart);
            marker = (if marker = 0xe3 then marker XOR 0x01 else marker)
        in seal_udp cipher marker randomKeyPart udpSyncBytes datagram)"

definition decryptServerUdpDatagram ::
  "(byte list \<Rightarrow> byte list) \<Rightarrow> byte list \<Rightarrow> byte list \<Rightarrow> 32 word \<Rightarrow> bool \<times> byte list" where
  "decryptServerUdpDatagram md5 datagram encrypted baseKey =
     (if length encrypted \<le> 8 \<or> baseKey = 0 \<or> encrypted ! 0 = 0xe3 then (False, datagram)
      else open_udp (initializeUdpCipher md5 (packUInt32 baseKey @ [0xa5] @ take 2 (drop 1 encrypted)))
             udpSyncBytes datagram encrypted)"

definition encryptPeerUdpDatagram ::
  "(byte list \<Rightarrow> byte list) \<Rightarrow> byte list \<Rightarrow> byte list \<Rightarrow> 32 word \<Rightarrow> 16 word \<Rightarrow> byte list" where
  "encryptPeerUdpDatagram md5 datagram remoteUserHash localPublicIp randomKeyPart =
     (if datagram = [] \<or> length remoteUserHash \<noteq> HASH_LENGTH \<or> localPublicIp = 0 then []
      else
        let cipher = initializeUdpCipher md5
              (remoteUserHash @ packUInt32 localPublicIp @ [91] @ packUInt16 randomKeyPart);
            marker = ucast (drop_bit 8 randomKeyPart) OR 0x01;
            marker = (if isPlainUdpMarker marker then marker XOR 0x04 else marker)
        in seal_udp cipher marker randomKeyPart peerUdpSyncBytes datagram)"

definition decryptPeerUdpDatagram ::
  "(byte list \<Rightarrow> byte list) \<Rightarrow> byte list \<Rightarrow> byte list \<Rightarrow> byte list \<Rightarrow> 32 word \<Rightarrow> bool \<times> byte list" where
  "decryptPeerUdpDatagram md5 datagram encrypted localUserHash remotePublicIp =
     (if length encrypted \<le> 8 \<or> length localUserHash \<noteq> HASH_LENGTH \<or> remotePublicIp = 0 \<or>
         isPlainUdpMarker (encrypted ! 0) then (False, datagram)
      else open_udp (initializeUdpCipher md5
               (localUserHash @ packUInt32 remotePublicIp @ [91] @ take 2 (drop 1 encrypted)))
             peerUdpSyncBytes datagram encrypted)"

section \<open>The key stream\<close>

text \<open>A cipher in use: its table is a permutation of all bytes, so no index leaves it and no byte
  gets lost.\<close>

definition rc4_ok :: "rc4 \<Rightarrow> bool" where
  "rc4_ok r \<longleftrightarrow> length (rc4_state r) = 256 \<and> mset (rc4_state r) = mset (map of_nat [0..<256])"

lemma swap_at_simps [simp]: "length (swap_at i j xs) = length xs"
  by (simp add: swap_at_def)

lemma mset_swap_at: "i < length xs \<Longrightarrow> j < length xs \<Longrightarrow> mset (swap_at i j xs) = mset xs"
  by (simp add: swap_at_def mset_swap)

lemma byte_index: "unat (b :: byte) < 256"
  using unsigned_less [of b, where ?'a = nat] by simp

lemma rc4_init_ok: "rc4_ok (rc4_init key)"
proof -
  have "length (fst (fold (key_step key) is sj)) = 256 \<and>
      mset (fst (fold (key_step key) is sj)) = mset (fst sj)"
    if "length (fst sj) = 256" and "\<forall>i \<in> set is. i < 256" for "is" sj
    using that
    by (induction "is" arbitrary: sj) (simp_all add: key_step_def Let_def case_prod_beta mset_swap_at byte_index)
  from this [of "(map of_nat [0..<256], 0)" "[0..<256]"] show ?thesis
    by (simp add: rc4_ok_def rc4_init_def)
qed

lemma rc4_step_ok: "rc4_ok r \<Longrightarrow> rc4_ok (snd (rc4_step r))"
  by (simp add: rc4_ok_def rc4_step_def Let_def mset_swap_at byte_index)

lemma rc4_encrypt_ok: "rc4_ok r \<Longrightarrow> rc4_ok (snd (rc4_encrypt r bs))"
  by (induction bs arbitrary: r) (auto simp: Let_def case_prod_beta rc4_step_ok)

lemma length_rc4 [simp]: "length (fst (rc4_encrypt r bs)) = length bs"
  by (induction bs arbitrary: r) (simp_all add: Let_def case_prod_beta)

lemma rc4_append:
  "rc4_encrypt r (a @ b) =
     (fst (rc4_encrypt r a) @ fst (rc4_encrypt (snd (rc4_encrypt r a)) b),
      snd (rc4_encrypt (snd (rc4_encrypt r a)) b))"
  by (induction a arbitrary: r) (simp_all add: Let_def case_prod_beta)

lemma rc4_involution: "rc4_encrypt r (fst (rc4_encrypt r bs)) = (bs, snd (rc4_encrypt r bs))"
  by (induction bs arbitrary: r) (simp_all add: Let_def case_prod_beta xor.assoc)

text \<open>What a datagram under this obfuscation looks like, with any padding the sender chose.\<close>

definition udp_format :: "rc4 \<Rightarrow> byte \<Rightarrow> 16 word \<Rightarrow> byte list \<Rightarrow> byte list \<Rightarrow> byte list \<Rightarrow> byte list" where
  "udp_format cipher marker randomKeyPart sync padding datagram =
     marker # packUInt16 randomKeyPart @
       fst (rc4_encrypt cipher (sync @ [of_nat (length padding)] @ padding @ datagram))"

lemma seal_udp_format: "seal_udp cipher marker kp sync datagram = udp_format cipher marker kp sync [] datagram"
  by (simp add: seal_udp_def udp_format_def packUInt16_def Let_def case_prod_beta rc4_append [of _ sync]
      rc4_append [of _ "[0]" datagram, simplified])

lemma pad_byte: "n < 16 \<Longrightarrow> unat ((of_nat n :: byte) AND 0x0f) = n"
proof -
  assume n: "n < 16"
  have "(of_nat n :: byte) AND 0x0f = take_bit 4 (of_nat n)" by (simp add: take_bit_eq_mask mask_eq_exp_minus_1)
  then show ?thesis using n by (simp add: unsigned_take_bit_eq unat_of_nat take_bit_nat_eq_self)
qed

lemma open_udp_format:
  assumes "length sync = 4" and "length padding < 16" and "datagram \<noteq> []"
  shows "open_udp cipher sync old (udp_format cipher marker kp sync padding datagram) = (True, datagram)"
proof -
  define r1 where "r1 = snd (rc4_encrypt cipher sync)"
  define r2 where "r2 = snd (rc4_encrypt r1 [of_nat (length padding)])"
  define r3 where "r3 = snd (rc4_encrypt r2 padding)"
  define e where "e = fst (rc4_encrypt cipher sync) @ fst (rc4_encrypt r1 [of_nat (length padding)]) @
    fst (rc4_encrypt r2 padding) @ fst (rc4_encrypt r3 datagram)"
  have f: "udp_format cipher marker kp sync padding datagram = marker # packUInt16 kp @ e"
    by (simp only: udp_format_def e_def rc4_append fst_conv r1_def r2_def r3_def)
  define p where "p = marker # packUInt16 kp @ e"
  obtain k where k: "fst (rc4_encrypt r1 [of_nat (length padding)]) = [k]"
    by (metis (no_types) length_rc4 length_Suc_conv length_0_conv list.size(3,4) One_nat_def)
  have "take 4 (drop 3 p) = fst (rc4_encrypt cipher sync)" using assms(1) by (simp add: p_def e_def)
  moreover have "p ! 7 = k" "drop 8 p = fst (rc4_encrypt r2 padding) @ fst (rc4_encrypt r3 datagram)"
    "length p = 8 + length padding + length datagram"
    using assms(1) k by (simp_all add: p_def e_def nth_append)
  moreover have "rc4_encrypt r1 [k] = ([of_nat (length padding)], r2)"
    using rc4_involution [of r1 "[of_nat (length padding)]"] k by (simp only: r2_def)
  moreover have "take (length padding) (drop 8 p) = fst (rc4_encrypt r2 padding)"
    "drop (8 + length padding) p = fst (rc4_encrypt r3 datagram)"
    using calculation(3) by (simp, simp add: add.commute [of 8] drop_drop [symmetric])
  ultimately have "open_udp cipher sync old p = (True, datagram)"
    using assms rc4_involution [of cipher sync] rc4_involution [of r2 padding] rc4_involution [of r3 datagram]
    by (simp add: open_udp_def Let_def case_prod_beta pad_byte r1_def [symmetric] r3_def [symmetric])
  then show ?thesis by (simp only: f p_def)
qed

section \<open>The digest\<close>

text \<open>MD4 as RFC 1320 states it: the message is padded to a multiple of 64 bytes with a one bit,
  as few zero bits as possible and its length in bits, and the blocks are transformed in order.\<close>

primrec chunks :: "nat \<Rightarrow> byte list \<Rightarrow> byte list list" where
  "chunks 0 p = []"
| "chunks (Suc k) p = take 64 p # chunks k (drop 64 p)"

definition md4_padded :: "byte list \<Rightarrow> byte list" where
  "md4_padded data =
     data @ 0x80 # replicate ((119 - length data mod 64) mod 64) 0 @ packUInt64 (of_nat (length data) * 8)"

definition md4_reference :: "byte list \<Rightarrow> byte list" where
  "md4_reference data =
     (let p = md4_padded data in md4_digest_of (foldl transform md4_initial (chunks (length p div 64) p)))"

lemma chunks_append: "length a = n * 64 \<Longrightarrow> chunks (n + m) (a @ b) = chunks n a @ chunks m b"
  by (induction n arbitrary: a) simp_all

lemma md4_blocks_append:
  "length a = n * 64 \<Longrightarrow> length left < 64 \<Longrightarrow> md4_blocks st (a @ left) = (foldl transform st (chunks n a), left)"
proof (induction n arbitrary: a st)
  case (Suc n)
  then have "md4_blocks st (a @ left) = md4_blocks (transform st (take 64 a)) (drop 64 a @ left)"
    by (subst md4_blocks.simps) simp
  then show ?case using Suc by simp
qed (simp add: md4_blocks.simps)

lemma md4_tail_short:
  assumes "length left < 56"
  shows "take 64 (md4_tail left n) = left @ 0x80 # replicate (55 - length left) 0 @ packUInt64 (of_nat n * 8)"
  using assms by (auto simp: md4_tail_def Let_def take_Cons' min_def)

lemma md4_tail_long:
  assumes "56 \<le> length left" and "length left < 64"
  shows "md4_tail left n = left @ 0x80 # replicate (119 - length left) 0 @ packUInt64 (of_nat n * 8)"
  using assms by (auto simp: md4_tail_def Let_def take_Cons' drop_Cons' min_def)

lemma md4Digest_reference: "md4Digest data = md4_reference data"
proof -
  define n where "n = length data div 64"
  define a where "a = take (n * 64) data"
  define left where "left = drop (n * 64) data"
  have d: "data = a @ left" by (simp add: a_def left_def)
  have a: "length a = n * 64" by (simp add: a_def n_def min_absorb2)
  have l: "length left = length data mod 64" by (simp add: left_def n_def modulo_nat_def mult.commute)
  then have l64: "length left < 64" by simp
  define q where "q = left @ 0x80 # replicate ((119 - length left) mod 64) 0 @ packUInt64 (of_nat (length data) * 8)"
  have p: "md4_padded data = a @ q" using l d by (simp add: md4_padded_def q_def)
  have b: "md4_blocks md4_initial data = (foldl transform md4_initial (chunks n a), left)"
    using md4_blocks_append [OF a l64] d by simp
  show ?thesis
  proof (cases "length left < 56")
    case True
    then have m: "(119 - length left) mod 64 = 55 - length left" by (simp add: mod_if)
    then have "length q = 64" using True by (simp add: q_def)
    moreover have "take 64 (md4_tail left (length data)) = q" using m md4_tail_short [OF True] by (simp add: q_def)
    ultimately show ?thesis
      using True a b p chunks_append [OF a, of 1 q] by (simp add: md4Digest_def md4_reference_def)
  next
    case False
    then have m: "(119 - length left) mod 64 = 119 - length left" by (simp add: mod_if)
    then have "length q = 128" using False l64 by (simp add: q_def)
    moreover have "md4_tail left (length data) = q" using False l64 m md4_tail_long by (simp add: q_def)
    ultimately show ?thesis
      using False a b p chunks_append [OF a, of 2 q]
      by (simp add: md4Digest_def md4_reference_def numeral_2_eq_2)
  qed
qed

lemma length_md4Digest: "length (md4Digest data) = HASH_LENGTH"
  by (simp add: md4Digest_def md4_digest_of_def HASH_LENGTH_def Let_def case_prod_beta)

lemma md4_padded_blocks: "64 dvd length (md4_padded data)"
proof -
  define r where "r = length data mod 64"
  have r: "r < 64" by (simp add: r_def)
  have "(r + (9 + (119 - r) mod 64)) mod 64 = 0"
    using r by (cases "r < 56") (auto simp: mod_if)
  moreover have "length (md4_padded data) = length data + (9 + (119 - r) mod 64)"
    by (simp add: md4_padded_def r_def)
  moreover have "(length data + k) mod 64 = (r + k) mod 64" for k unfolding r_def by (rule mod_add_left_eq [symmetric])
  ultimately show ?thesis by (metis mod_0_imp_dvd)
qed

section \<open>Properties\<close>



lemma seal_starts:
  "seal_udp cipher marker kp sync datagram ! 0 = marker"
  "take 2 (drop 1 (seal_udp cipher marker kp sync datagram)) = packUInt16 kp"
  "length sync = 4 \<Longrightarrow> length (seal_udp cipher marker kp sync datagram) = 8 + length datagram"
  by (simp_all add: seal_udp_format udp_format_def)

lemma peer_marker: "\<not> isPlainUdpMarker (if isPlainUdpMarker m then m XOR 0x04 else m)"
  by (auto simp: isPlainUdpMarker_def)

lemma sync_length [simp]: "length udpSyncBytes = 4" "length peerUdpSyncBytes = 4"
  by (simp_all add: udpSyncBytes_def peerUdpSyncBytes_def)

lemma peer_datagram:
  fixes md5 kp
  assumes "datagram \<noteq> []" and "length h = HASH_LENGTH" and "ip \<noteq> 0"
  defines "e \<equiv> encryptPeerUdpDatagram md5 datagram h ip kp"
  shows "\<not> isPlainUdpMarker (e ! 0) \<and> length e = 8 + length datagram \<and>
    decryptPeerUdpDatagram md5 old e h ip = (True, datagram)"
proof -
  define m where "m = (let m :: byte = ucast (drop_bit 8 kp) OR 1 in if isPlainUdpMarker m then m XOR 0x04 else m)"
  define c where "c = initializeUdpCipher md5 (h @ packUInt32 ip @ [91] @ packUInt16 kp)"
  have e: "e = seal_udp c m kp peerUdpSyncBytes datagram"
    using assms by (simp add: encryptPeerUdpDatagram_def m_def c_def Let_def)
  have m: "\<not> isPlainUdpMarker m" by (simp add: m_def Let_def peer_marker)
  have l: "length e = 8 + length datagram" unfolding e by (rule seal_starts) simp
  then have "\<not> length e \<le> 8" using assms(1) by simp
  then have "decryptPeerUdpDatagram md5 old e h ip = open_udp c peerUdpSyncBytes old e"
    using assms(2,3) m by (simp add: decryptPeerUdpDatagram_def e seal_starts(1,2) [simplified] c_def)
  then show ?thesis
    using m l open_udp_format [of peerUdpSyncBytes "[]" datagram c old] assms(1)
    by (simp add: e seal_starts(1) [simplified]) (simp add: seal_udp_format)
qed

lemma server_datagram:
  assumes "datagram \<noteq> []" and "baseKey \<noteq> 0" and "marker \<noteq> 0xe3" and "length padding < 16"
  shows "decryptServerUdpDatagram md5 old
    (udp_format (initializeUdpCipher md5 (packUInt32 baseKey @ [0xa5] @ packUInt16 kp)) marker kp udpSyncBytes padding datagram)
    baseKey = (True, datagram)"
  using assms open_udp_format [of udpSyncBytes padding datagram]
  by (simp add: decryptServerUdpDatagram_def udp_format_def)

lemma server_request:
  assumes "datagram \<noteq> []" and "baseKey \<noteq> 0"
  shows "\<exists>m. m \<noteq> 0xe3 \<and> encryptServerUdpDatagram md5 datagram baseKey kp =
    udp_format (initializeUdpCipher md5 (packUInt32 baseKey @ [0x6b] @ packUInt16 kp)) m kp udpSyncBytes [] datagram"
proof -
  define m where "m = (let m :: byte = ucast (drop_bit 8 kp) in if m = 0xe3 then m XOR 0x01 else m)"
  have "m \<noteq> 0xe3" by (auto simp: m_def Let_def)
  moreover have "encryptServerUdpDatagram md5 datagram baseKey kp =
    udp_format (initializeUdpCipher md5 (packUInt32 baseKey @ [0x6b] @ packUInt16 kp)) m kp udpSyncBytes [] datagram"
    using assms by (simp add: encryptServerUdpDatagram_def seal_udp_format m_def Let_def)
  ultimately show ?thesis by blast
qed




end
