(* ===== verification/Kad_Protocol.thy ===== *)
theory Kad_Protocol
  imports Cipher Server_Protocol
begin

text \<open>
  The messages of the Kademlia network (\<open>ed2k/KadProtocol.cc\<close>) and of its searches
  (\<open>ed2k/KadSearch.cc\<close>): contacts, hello, bootstrap, lookup, publish, firewall and callback messages,
  obfuscated datagrams, the saved routing table and the \<open>nodes.dat\<close> file.

  Conventions are those of \<open>Peer_Protocol\<close> and \<open>Server_Protocol\<close>; the helpers that the sources repeat
  (\<open>validateHashLength\<close>, \<open>appendString\<close>, \<open>appendInt64\<close> and their readers) are shared with
  \<open>Server_Protocol\<close>. A Kad identifier is four 32 bit numbers, little-endian.
\<close>

section \<open>Data\<close>

record kad_contact =
  kc_id :: "byte list"
  kc_host :: string
  kc_udpPort :: "16 word"
  kc_tcpPort :: "16 word"
  kc_version :: byte
  kc_udpKey :: "32 word"

record kad_hello =
  kh_id :: "byte list"
  kh_tcpPort :: "16 word"
  kh_version :: byte
  kh_tags :: "tag list"
  kh_requestsAck :: bool
  kh_tcpFirewalled :: bool
  kh_udpFirewalled :: bool

record kad_bootstrap_response =
  kb_id :: "byte list"
  kb_tcpPort :: "16 word"
  kb_version :: byte
  kb_contacts :: "kad_contact list"

record kad_request =
  kq_searchType :: byte
  kq_targetId :: "byte list"
  kq_receiverId :: "byte list"

record kad_response =
  kr_targetId :: "byte list"
  kr_contacts :: "kad_contact list"

record kad_publish_result =
  kp_fileId :: "byte list"
  kp_count :: byte

record kad_firewalled_request =
  fq_tcpPort :: "16 word"
  fq_id :: "byte list"
  fq_options :: byte

record kad_firewalled_udp =
  fu_errorCode :: byte
  fu_tcpPort :: "16 word"

record kad_callback_request =
  cb_buddyId :: "byte list"
  cb_fileId :: "byte list"
  cb_tcpPort :: "16 word"

record direct_callback_request =
  dc_tcpPort :: "16 word"
  dc_userHash :: "byte list"
  dc_connectOptions :: byte

record buddy_callback =
  bc_buddyId :: "byte list"
  bc_fileId :: "byte list"
  bc_endpoint :: endpoint

record kad_obfuscated =
  ob_datagram :: "byte list"
  ob_receiverVerifyKey :: "32 word"
  ob_senderVerifyKey :: "32 word"

record nodes_dat =
  nd_version :: "32 word"
  nd_bootstrapEdition :: "32 word"
  nd_contacts :: "kad_contact list"
  nd_verified :: "bool list"

record kad_routing_node =
  rn_contact :: kad_contact
  rn_confirmed :: bool
  rn_seed :: bool
  rn_failCount :: "32 word"
  rn_firstSeen :: int
  rn_lastSeen :: int

record kad_bucket =
  bk_live :: "kad_routing_node list"
  bk_replacements :: "kad_routing_node list"
  bk_lastActive :: int

record kad_snapshot =
  sn_selfId :: "byte list"
  sn_buckets :: "kad_bucket list"
  sn_routerNodes :: "endpoint list"
  sn_routerContacts :: "kad_contact list"
  sn_lastBootstrap :: int
  sn_lastRefresh :: int
  sn_lastSelfRefresh :: int
  sn_lastFirewalledCheck :: int
  sn_lastSourcePublish :: int
  sn_lastSourceSearch :: int
  sn_sourceSearchCount :: "32 word"
  sn_udpVerifyKey :: "32 word"
  sn_observedAddresses :: "byte list list"
  sn_firewalled :: bool

section \<open>Addresses and identifiers\<close>

definition ipv4FromKadContactValue :: "32 word \<Rightarrow> string" where
  "ipv4FromKadContactValue ip =
     decimal (unat (drop_bit 24 ip AND 0xff)) @ ''.'' @ decimal (unat (drop_bit 16 ip AND 0xff)) @ ''.'' @
     decimal (unat (drop_bit 8 ip AND 0xff)) @ ''.'' @ decimal (unat (ip AND 0xff))"

definition reverseUInt32Bytes :: "32 word \<Rightarrow> 32 word" where
  "reverseUInt32Bytes v =
     push_bit 24 (v AND 0x000000ff) OR push_bit 8 (v AND 0x0000ff00) OR
     drop_bit 8 (v AND 0x00ff0000) OR drop_bit 24 (v AND 0xff000000)"

text \<open>The sources write the same expression out again here.\<close>

definition ipv4ToKadContactValue :: "string \<Rightarrow> 32 word option" where
  "ipv4ToKadContactValue h = do { ip \<leftarrow> ipv4ToEndpointValue h; Some (reverseUInt32Bytes ip) }"

definition ed2kHashToKadId :: "byte list \<Rightarrow> byte list option" where
  "ed2kHashToKadId hash = do {
     validate_hash hash;
     Some (concat (map (\<lambda>i. [hash ! (i + 3), hash ! (i + 2), hash ! (i + 1), hash ! i]) [0, 4, 8, 12]))
   }"

definition kadIdToEd2kHash :: "byte list \<Rightarrow> byte list option" where
  "kadIdToEd2kHash i = do { validate_hash i; ed2kHashToKadId i }"

definition kadIdToObfuscationKeyBytes :: "byte list \<Rightarrow> byte list option" where
  "kadIdToObfuscationKeyBytes i = do { validate_hash i; Some i }"

definition readKadContact :: "byte list \<Rightarrow> nat \<Rightarrow> (kad_contact \<times> nat) option" where
  "readKadContact data off = do {
     (i, off) \<leftarrow> readBytes data off HASH_LENGTH;
     (ip, off) \<leftarrow> takeUInt32 data off;
     (udp, off) \<leftarrow> takeUInt16 data off;
     (tcp, off) \<leftarrow> takeUInt16 data off;
     (v, off) \<leftarrow> readByte data off;
     Some (\<lparr>kc_id = i, kc_host = ipv4FromKadContactValue ip, kc_udpPort = udp, kc_tcpPort = tcp,
            kc_version = v, kc_udpKey = 0\<rparr>, off)
   }"

definition packKadContact :: "kad_contact \<Rightarrow> byte list option" where
  "packKadContact c = do {
     validate_hash (kc_id c);
     ip \<leftarrow> ipv4ToKadContactValue (kc_host c);
     Some (kc_id c @ packUInt32 ip @ packUInt16 (kc_udpPort c) @ packUInt16 (kc_tcpPort c) @ [kc_version c])
   }"

section \<open>Hello and bootstrap\<close>

definition hello_options :: "bool \<Rightarrow> bool \<Rightarrow> bool \<Rightarrow> byte" where
  "hello_options requestAck tcpFirewalled udpFirewalled =
     (if requestAck then 0x04 else 0) OR (if tcpFirewalled then 0x02 else 0) OR (if udpFirewalled then 0x01 else 0)"

definition createKadHelloPayload :: "byte list \<Rightarrow> 16 word \<Rightarrow> byte \<Rightarrow> bool \<Rightarrow> bool \<Rightarrow> bool \<Rightarrow> byte list option" where
  "createKadHelloPayload i tcpPort version requestAck tcpFirewalled udpFirewalled = do {
     validate_hash i;
     let options = hello_options requestAck tcpFirewalled udpFirewalled;
     Some (i @ packUInt16 tcpPort @ [version] @ [if options = 0 then 0 else 1] @
       (if options \<noteq> 0 then createUInt32Tag 0xf2 (ucast options) else []))
   }"

definition hello_tag :: "tag \<Rightarrow> kad_hello \<Rightarrow> kad_hello" where
  "hello_tag t hello =
     (if tag_id t \<noteq> 0xf2 \<or> valueType t \<noteq> UINT then hello
      else let options = (ucast (intValue t) :: byte)
           in hello\<lparr>kh_requestsAck := (options AND 0x04 \<noteq> 0), kh_tcpFirewalled := (options AND 0x02 \<noteq> 0),
                    kh_udpFirewalled := (options AND 0x01 \<noteq> 0)\<rparr>)"

definition parseKadHelloPayload :: "kad_hello \<Rightarrow> byte list \<Rightarrow> (bool \<times> kad_hello) option" where
  "parseKadHelloPayload hello payload =
     (if length payload < HASH_LENGTH + 4 then Some (False, hello)
      else do {
        (i, off) \<leftarrow> readBytes payload 0 HASH_LENGTH;
        (tcp, off) \<leftarrow> takeUInt16 payload off;
        (v, off) \<leftarrow> readByte payload off;
        (tagCount, off) \<leftarrow> readByte payload off;
        let hello = hello\<lparr>kh_id := i, kh_tcpPort := tcp, kh_version := v\<rparr>;
        if length payload - off < unat tagCount * 2 then Some (False, hello)
        else do {
          (ok, tags) \<leftarrow> parseTagList (kh_tags hello) (packUInt32 (ucast tagCount) @ drop off payload);
          let hello = hello\<lparr>kh_tags := tags\<rparr>;
          if \<not> ok then Some (False, hello) else Some (True, fold hello_tag tags hello)
        }
      })"

definition createKadHelloAckPayload :: "byte list \<Rightarrow> byte list option" where
  "createKadHelloAckPayload i = do { validate_hash i; Some (i @ [0]) }"

definition parseKadHelloAckPayload :: "byte list \<Rightarrow> byte list \<Rightarrow> bool \<times> byte list" where
  "parseKadHelloAckPayload i payload =
     (if length payload < HASH_LENGTH + 1 \<or> payload ! HASH_LENGTH \<noteq> 0 then (False, i)
      else (True, take HASH_LENGTH payload))"

definition createKadBootstrapResponsePayload ::
  "byte list \<Rightarrow> 16 word \<Rightarrow> byte \<Rightarrow> kad_contact list \<Rightarrow> byte list option" where
  "createKadBootstrapResponsePayload i tcpPort version contacts = do {
     validate_hash i;
     if length contacts > 65535 then None
     else do {
       body \<leftarrow> write_list packKadContact contacts;
       Some (i @ packUInt16 tcpPort @ [version] @ packUInt16 (of_nat (length contacts)) @ body)
     }
   }"

definition parseKadBootstrapResponsePayload ::
  "kad_bootstrap_response \<Rightarrow> byte list \<Rightarrow> (bool \<times> kad_bootstrap_response) option" where
  "parseKadBootstrapResponsePayload response payload =
     (if length payload < HASH_LENGTH + 5 then Some (False, response)
      else do {
        (i, off) \<leftarrow> readBytes payload 0 HASH_LENGTH;
        (tcp, off) \<leftarrow> takeUInt16 payload off;
        (v, off) \<leftarrow> readByte payload off;
        (n, off) \<leftarrow> takeUInt16 payload off;
        let response = response\<lparr>kb_id := i, kb_tcpPort := tcp, kb_version := v\<rparr>;
        if length payload - off \<noteq> unat n * 25 then Some (False, response)
        else do {
          (contacts, off) \<leftarrow> read_list readKadContact (unat n) payload off;
          Some (True, response\<lparr>kb_contacts := contacts\<rparr>)
        }
      })"

section \<open>Requests and responses\<close>

definition createKadRequestPayload :: "byte \<Rightarrow> byte list \<Rightarrow> byte list \<Rightarrow> byte list option" where
  "createKadRequestPayload searchType targetId receiverId = do {
     validate_hash targetId;
     validate_hash receiverId;
     Some ([searchType] @ targetId @ receiverId)
   }"

definition parseKadRequestPayload :: "kad_request \<Rightarrow> byte list \<Rightarrow> (bool \<times> kad_request) option" where
  "parseKadRequestPayload request payload =
     (if length payload \<noteq> HASH_LENGTH * 2 + 1 then Some (False, request)
      else do {
        (t, off) \<leftarrow> readByte payload 0;
        (i, off) \<leftarrow> readBytes payload off HASH_LENGTH;
        (r, off) \<leftarrow> readBytes payload off HASH_LENGTH;
        Some (True, \<lparr>kq_searchType = t, kq_targetId = i, kq_receiverId = r\<rparr>)
      })"

definition createKadResponsePayload :: "byte list \<Rightarrow> kad_contact list \<Rightarrow> byte list option" where
  "createKadResponsePayload targetId contacts = do {
     validate_hash targetId;
     if length contacts > 255 then None
     else do {
       body \<leftarrow> write_list packKadContact contacts;
       Some (targetId @ [of_nat (length contacts)] @ body)
     }
   }"

definition parseKadResponsePayload :: "kad_response \<Rightarrow> byte list \<Rightarrow> (bool \<times> kad_response) option" where
  "parseKadResponsePayload response payload =
     (if length payload < HASH_LENGTH + 1 then Some (False, response)
      else do {
        (i, off) \<leftarrow> readBytes payload 0 HASH_LENGTH;
        (n, off) \<leftarrow> readByte payload off;
        let response = response\<lparr>kr_targetId := i\<rparr>;
        if length payload - off \<noteq> unat n * 25 then Some (False, response)
        else do {
          (contacts, off) \<leftarrow> read_list readKadContact (unat n) payload off;
          Some (True, response\<lparr>kr_contacts := contacts\<rparr>)
        }
      })"

definition createKadPublishResultPayload :: "byte list \<Rightarrow> byte \<Rightarrow> byte list option" where
  "createKadPublishResultPayload fileId n = do { validate_hash fileId; Some (fileId @ [n]) }"

definition parseKadPublishResultPayload :: "kad_publish_result \<Rightarrow> byte list \<Rightarrow> (bool \<times> kad_publish_result) option" where
  "parseKadPublishResultPayload result payload =
     (if length payload \<noteq> HASH_LENGTH + 1 then Some (False, result)
      else do {
        (i, off) \<leftarrow> readBytes payload 0 HASH_LENGTH;
        (n, off) \<leftarrow> readByte payload off;
        Some (True, \<lparr>kp_fileId = i, kp_count = n\<rparr>)
      })"

definition createKadFirewalledRequestPayload :: "16 word \<Rightarrow> byte list \<Rightarrow> byte \<Rightarrow> byte list option" where
  "createKadFirewalledRequestPayload tcpPort i options = do {
     validate_hash i;
     Some (packUInt16 tcpPort @ i @ [options])
   }"

definition parseKadFirewalledRequestPayload ::
  "kad_firewalled_request \<Rightarrow> byte list \<Rightarrow> (bool \<times> kad_firewalled_request) option" where
  "parseKadFirewalledRequestPayload request payload =
     (if length payload \<noteq> HASH_LENGTH + 3 then Some (False, request)
      else do {
        (tcp, off) \<leftarrow> takeUInt16 payload 0;
        (i, off) \<leftarrow> readBytes payload off HASH_LENGTH;
        (v, off) \<leftarrow> readByte payload off;
        Some (True, \<lparr>fq_tcpPort = tcp, fq_id = i, fq_options = v\<rparr>)
      })"

definition createKadFirewalledResponsePayload :: "string \<Rightarrow> byte list option" where
  "createKadFirewalledResponsePayload h = do { ip \<leftarrow> ipv4ToKadContactValue h; Some (packUInt32 ip) }"

definition parseKadFirewalledResponsePayload :: "string \<Rightarrow> byte list \<Rightarrow> bool \<times> string" where
  "parseKadFirewalledResponsePayload h payload =
     (if length payload \<noteq> 4 then (False, h) else (True, ipv4FromKadContactValue (readUInt32 payload)))"

definition createKadFirewalledUdpPayload :: "byte \<Rightarrow> 16 word \<Rightarrow> byte list" where
  "createKadFirewalledUdpPayload errorCode tcpPort = [errorCode] @ packUInt16 tcpPort"

definition parseKadFirewalledUdpPayload :: "kad_firewalled_udp \<Rightarrow> byte list \<Rightarrow> (bool \<times> kad_firewalled_udp) option" where
  "parseKadFirewalledUdpPayload response payload =
     (if length payload \<noteq> 3 then Some (False, response)
      else do {
        (e, off) \<leftarrow> readByte payload 0;
        (tcp, off) \<leftarrow> takeUInt16 payload off;
        Some (True, \<lparr>fu_errorCode = e, fu_tcpPort = tcp\<rparr>)
      })"

definition createKadCallbackRequestPayload :: "byte list \<Rightarrow> byte list \<Rightarrow> 16 word \<Rightarrow> byte list option" where
  "createKadCallbackRequestPayload buddyId fileId tcpPort = do {
     validate_hash buddyId;
     validate_hash fileId;
     Some (buddyId @ fileId @ packUInt16 tcpPort)
   }"

definition parseKadCallbackRequestPayload ::
  "kad_callback_request \<Rightarrow> byte list \<Rightarrow> (bool \<times> kad_callback_request) option" where
  "parseKadCallbackRequestPayload request payload =
     (if length payload \<noteq> HASH_LENGTH * 2 + 2 then Some (False, request)
      else do {
        (b, off) \<leftarrow> readBytes payload 0 HASH_LENGTH;
        (f, off) \<leftarrow> readBytes payload off HASH_LENGTH;
        (tcp, off) \<leftarrow> takeUInt16 payload off;
        Some (True, \<lparr>cb_buddyId = b, cb_fileId = f, cb_tcpPort = tcp\<rparr>)
      })"

definition createDirectCallbackRequestPayload :: "16 word \<Rightarrow> byte list \<Rightarrow> byte \<Rightarrow> byte list option" where
  "createDirectCallbackRequestPayload tcpPort hash connectOptions = do {
     validate_hash hash;
     Some (packUInt16 tcpPort @ hash @ [connectOptions])
   }"

definition parseDirectCallbackRequestPayload ::
  "direct_callback_request \<Rightarrow> byte list \<Rightarrow> (bool \<times> direct_callback_request) option" where
  "parseDirectCallbackRequestPayload request payload =
     (if length payload \<noteq> HASH_LENGTH + 3 then Some (False, request)
      else do {
        (tcp, off) \<leftarrow> takeUInt16 payload 0;
        (h, off) \<leftarrow> readBytes payload off HASH_LENGTH;
        (v, off) \<leftarrow> readByte payload off;
        Some (True, \<lparr>dc_tcpPort = tcp, dc_userHash = h, dc_connectOptions = v\<rparr>)
      })"

definition createBuddyCallbackPayload :: "byte list \<Rightarrow> byte list \<Rightarrow> endpoint \<Rightarrow> byte list option" where
  "createBuddyCallbackPayload buddyId fileId e = do {
     validate_hash buddyId;
     validate_hash fileId;
     ip \<leftarrow> ipv4ToEndpointValue (host e);
     Some (buddyId @ fileId @ packUInt32 ip @ packUInt16 (port e))
   }"

definition parseBuddyCallbackPayload :: "buddy_callback \<Rightarrow> byte list \<Rightarrow> (bool \<times> buddy_callback) option" where
  "parseBuddyCallbackPayload callback payload =
     (if length payload \<noteq> HASH_LENGTH * 2 + 6 then Some (False, callback)
      else do {
        (b, off) \<leftarrow> readBytes payload 0 HASH_LENGTH;
        (f, off) \<leftarrow> readBytes payload off HASH_LENGTH;
        (ip, off) \<leftarrow> takeUInt32 payload off;
        (p, off) \<leftarrow> takeUInt16 payload off;
        Some (p \<noteq> 0, \<lparr>bc_buddyId = b, bc_fileId = f,
          bc_endpoint = (bc_endpoint callback)\<lparr>host := ipv4FromEndpoint ip, port := p\<rparr>\<rparr>)
      })"

section \<open>Obfuscated datagrams\<close>

definition KAD_UDP_SYNC_CLIENT :: "32 word" where
  "KAD_UDP_SYNC_CLIENT = 0x395f2ec1"

definition kadObfuscationKey :: "(byte list \<Rightarrow> byte list) \<Rightarrow> byte list \<Rightarrow> 16 word \<Rightarrow> byte list option" where
  "kadObfuscationKey md5 targetId randomKeyPart = do {
     validate_hash targetId;
     keyData \<leftarrow> kadIdToObfuscationKeyBytes targetId;
     Some (md5 (keyData @ packUInt16 randomKeyPart))
   }"

definition kadVerifyKeyObfuscationKey :: "(byte list \<Rightarrow> byte list) \<Rightarrow> 32 word \<Rightarrow> 16 word \<Rightarrow> byte list" where
  "kadVerifyKeyObfuscationKey md5 receiverVerifyKey randomKeyPart =
     md5 (packUInt32 receiverVerifyKey @ packUInt16 randomKeyPart)"

definition rc4Crypt :: "byte list \<Rightarrow> byte list \<Rightarrow> byte list" where
  "rc4Crypt data key = fst (rc4_encrypt (rc4_init key) data)"

definition kadObfuscationMarker :: "bool \<Rightarrow> byte" where
  "kadObfuscationMarker receiverKeyUsed = (if receiverKeyUsed then 0x0a else 0x08)"

definition possibleKadObfuscatedDatagram :: "byte list \<Rightarrow> bool" where
  "possibleKadObfuscatedDatagram datagram \<longleftrightarrow>
     length datagram > 16 \<and> datagram ! 0 \<notin> {0xe3, 0xe4, 0xe5, 0xd4, 0xc5} \<and> datagram ! 0 AND 0x01 = 0"

text \<open>The three overloads of each direction: with a finished key, for a node by its identifier,
  for a node by the key it gave us.\<close>

definition seal_kad :: "byte list \<Rightarrow> byte list \<Rightarrow> 16 word \<Rightarrow> bool \<Rightarrow> 32 word \<Rightarrow> 32 word \<Rightarrow> byte list" where
  "seal_kad datagram key randomKeyPart receiverKeyUsed receiverVerifyKey senderVerifyKey =
     [kadObfuscationMarker receiverKeyUsed] @ packUInt16 randomKeyPart @
     fst (rc4_encrypt (rc4_init key)
       (packUInt32 KAD_UDP_SYNC_CLIENT @ [0] @ packUInt32 receiverVerifyKey @ packUInt32 senderVerifyKey @ datagram))"

definition seal_kad_for_id ::
  "(byte list \<Rightarrow> byte list) \<Rightarrow> byte list \<Rightarrow> byte list \<Rightarrow> 16 word \<Rightarrow> 32 word \<Rightarrow> 32 word \<Rightarrow> byte list option" where
  "seal_kad_for_id md5 datagram targetId randomKeyPart receiverVerifyKey senderVerifyKey = do {
     validate_hash targetId;
     key \<leftarrow> kadObfuscationKey md5 targetId randomKeyPart;
     Some (seal_kad datagram key randomKeyPart False receiverVerifyKey senderVerifyKey)
   }"

definition seal_kad_for_key ::
  "(byte list \<Rightarrow> byte list) \<Rightarrow> byte list \<Rightarrow> 32 word \<Rightarrow> 32 word \<Rightarrow> 16 word \<Rightarrow> byte list" where
  "seal_kad_for_key md5 datagram receiverVerifyKey senderVerifyKey randomKeyPart =
     seal_kad datagram (kadVerifyKeyObfuscationKey md5 receiverVerifyKey randomKeyPart) randomKeyPart True
       receiverVerifyKey senderVerifyKey"

definition open_kad :: "kad_obfuscated \<Rightarrow> byte list \<Rightarrow> byte list \<Rightarrow> bool \<times> kad_obfuscated" where
  "open_kad parsed datagram key =
     (if \<not> possibleKadObfuscatedDatagram datagram \<or> datagram ! 0 AND 0x01 \<noteq> 0 then (False, parsed)
      else
        let decrypted = rc4Crypt (drop 3 datagram) key
        in if length decrypted \<le> 13 \<or> readUInt32 decrypted \<noteq> KAD_UDP_SYNC_CLIENT then (False, parsed)
           else
             let padLen = unat (decrypted ! 4)
             in if length decrypted \<le> 13 + padLen then (False, parsed)
                else (True, \<lparr>ob_datagram = drop (5 + padLen + 4 + 4) decrypted,
                  ob_receiverVerifyKey = readUInt32 (drop (5 + padLen) decrypted),
                  ob_senderVerifyKey = readUInt32 (drop (5 + padLen + 4) decrypted)\<rparr>))"

definition open_kad_by_id ::
  "(byte list \<Rightarrow> byte list) \<Rightarrow> kad_obfuscated \<Rightarrow> byte list \<Rightarrow> byte list \<Rightarrow> (bool \<times> kad_obfuscated) option" where
  "open_kad_by_id md5 parsed datagram targetId =
     (if \<not> possibleKadObfuscatedDatagram datagram \<or> length targetId \<noteq> HASH_LENGTH then Some (False, parsed)
      else if datagram ! 0 AND 0x03 \<noteq> 0 then Some (False, parsed)
      else do {
        key \<leftarrow> kadObfuscationKey md5 targetId (readUInt16 (drop 1 datagram));
        Some (open_kad parsed datagram key)
      })"

definition open_kad_by_key ::
  "(byte list \<Rightarrow> byte list) \<Rightarrow> kad_obfuscated \<Rightarrow> byte list \<Rightarrow> 32 word \<Rightarrow> bool \<times> kad_obfuscated" where
  "open_kad_by_key md5 parsed datagram receiverVerifyKey =
     (if \<not> possibleKadObfuscatedDatagram datagram then (False, parsed)
      else if datagram ! 0 AND 0x03 \<noteq> 2 then (False, parsed)
      else open_kad parsed datagram
             (kadVerifyKeyObfuscationKey md5 receiverVerifyKey (readUInt16 (drop 1 datagram))))"

definition createKadUdpVerifyKey :: "(byte list \<Rightarrow> byte list) \<Rightarrow> 32 word \<Rightarrow> string \<Rightarrow> 32 word option" where
  "createKadUdpVerifyKey md5 baseKey h =
     (if baseKey = 0 \<or> h = [] then Some 0
      else do {
        ip \<leftarrow> ipv4ToEndpointValue h;
        let digest = md5 (packUInt64 (push_bit 32 (ucast baseKey) OR ucast ip));
        let v = readUInt32 digest XOR readUInt32 (drop 4 digest) XOR readUInt32 (drop 8 digest) XOR
                readUInt32 (drop 12 digest);
        Some (v mod 0xfffffffe + 1)
      })"

section \<open>The saved routing table\<close>

definition KAD_ROUTING_STATE_MAGIC :: "byte list" where
  "KAD_ROUTING_STATE_MAGIC = octets ''A2ED2KKAD''"

definition appendKadContact :: "kad_contact \<Rightarrow> byte list option" where
  "appendKadContact c = do {
     validate_hash (kc_id c);
     h \<leftarrow> appendString (octets (kc_host c));
     Some (kc_id c @ h @ packUInt16 (kc_udpPort c) @ packUInt16 (kc_tcpPort c) @ [kc_version c] @ packUInt32 (kc_udpKey c))
   }"

definition appendKadRoutingNode :: "kad_routing_node \<Rightarrow> byte list option" where
  "appendKadRoutingNode n = do {
     validate_hash (kc_id (rn_contact n));
     h \<leftarrow> appendString (octets (kc_host (rn_contact n)));
     Some (kc_id (rn_contact n) @ h @ packUInt16 (kc_udpPort (rn_contact n)) @ packUInt16 (kc_tcpPort (rn_contact n)) @
       [kc_version (rn_contact n)] @ flag_byte (rn_confirmed n) @ flag_byte (rn_seed n) @
       packUInt32 (rn_failCount n) @ appendInt64 (rn_firstSeen n) @ appendInt64 (rn_lastSeen n))
   }"

definition readKadRoutingNode :: "byte list \<Rightarrow> nat \<Rightarrow> (kad_routing_node \<times> nat) option" where
  "readKadRoutingNode payload off = do {
     (i, off) \<leftarrow> readBytes payload off HASH_LENGTH;
     (h, off) \<leftarrow> readString payload off;
     (udp, off) \<leftarrow> takeUInt16 payload off;
     (tcp, off) \<leftarrow> takeUInt16 payload off;
     (v, off) \<leftarrow> readByte payload off;
     (confirmed, off) \<leftarrow> readFlag payload off;
     (seed, off) \<leftarrow> readFlag payload off;
     (fails, off) \<leftarrow> takeUInt32 payload off;
     (firstSeen, off) \<leftarrow> readInt64 payload off;
     (lastSeen, off) \<leftarrow> readInt64 payload off;
     Some (\<lparr>rn_contact = \<lparr>kc_id = i, kc_host = chars h, kc_udpPort = udp, kc_tcpPort = tcp, kc_version = v, kc_udpKey = 0\<rparr>,
            rn_confirmed = confirmed, rn_seed = seed, rn_failCount = fails, rn_firstSeen = firstSeen,
            rn_lastSeen = lastSeen\<rparr>, off)
   }"

definition appendKadRoutingNodes :: "kad_routing_node list \<Rightarrow> byte list option" where
  "appendKadRoutingNodes nodes =
     (if length nodes > 0xffffffff then None
      else do {
        body \<leftarrow> write_list appendKadRoutingNode nodes;
        Some (packUInt32 (of_nat (length nodes)) @ body)
      })"

definition readKadRoutingNodes :: "byte list \<Rightarrow> nat \<Rightarrow> (kad_routing_node list \<times> nat) option" where
  "readKadRoutingNodes payload off = do {
     (n, off) \<leftarrow> takeUInt32 payload off;
     read_list readKadRoutingNode (unat n) payload off
   }"

text \<open>One entry of the loop over the buckets, in both directions.\<close>

definition append_bucket :: "kad_bucket \<Rightarrow> byte list option" where
  "append_bucket b = do {
     live \<leftarrow> appendKadRoutingNodes (bk_live b);
     replacements \<leftarrow> appendKadRoutingNodes (bk_replacements b);
     Some (appendInt64 (bk_lastActive b) @ live @ replacements)
   }"

definition read_bucket :: "byte list \<Rightarrow> nat \<Rightarrow> (kad_bucket \<times> nat) option" where
  "read_bucket payload off = do {
     (lastActive, off) \<leftarrow> readInt64 payload off;
     (live, off) \<leftarrow> readKadRoutingNodes payload off;
     (replacements, off) \<leftarrow> readKadRoutingNodes payload off;
     Some (\<lparr>bk_live = live, bk_replacements = replacements, bk_lastActive = lastActive\<rparr>, off)
   }"

text \<open>Lists behind a 16 bit count.\<close>

definition append_counted :: "('a \<Rightarrow> byte list option) \<Rightarrow> 'a list \<Rightarrow> byte list option" where
  "append_counted wr vs = do { body \<leftarrow> write_list wr vs; Some (packUInt16 (of_nat (length vs)) @ body) }"

definition read_counted :: "(byte list \<Rightarrow> nat \<Rightarrow> ('a \<times> nat) option) \<Rightarrow> byte list \<Rightarrow> nat \<Rightarrow> ('a list \<times> nat) option" where
  "read_counted rd payload off = do {
     (n, off) \<leftarrow> takeUInt16 payload off;
     read_list rd (unat n) payload off
   }"

definition createKadRoutingStatePayload :: "kad_snapshot \<Rightarrow> byte list option" where
  "createKadRoutingStatePayload s = do {
     validate_hash (sn_selfId s);
     if length (sn_buckets s) > 65535 \<or> length (sn_routerNodes s) > 65535 \<or> length (sn_routerContacts s) > 65535 \<or>
        length (sn_observedAddresses s) > 65535 then None
     else do {
       observed \<leftarrow> append_counted appendString (sn_observedAddresses s);
       routers \<leftarrow> append_counted appendServerStateEndpoint (sn_routerNodes s);
       contacts \<leftarrow> append_counted appendKadContact (sn_routerContacts s);
       buckets \<leftarrow> append_counted append_bucket (sn_buckets s);
       Some (KAD_ROUTING_STATE_MAGIC @ packUInt32 6 @ sn_selfId s @ appendInt64 (sn_lastBootstrap s) @
         appendInt64 (sn_lastRefresh s) @ appendInt64 (sn_lastSelfRefresh s) @ appendInt64 (sn_lastFirewalledCheck s) @
         appendInt64 (sn_lastSourcePublish s) @ appendInt64 (sn_lastSourceSearch s) @
         packUInt32 (sn_sourceSearchCount s) @ packUInt32 (sn_udpVerifyKey s) @ flag_byte (sn_firewalled s) @
         observed @ routers @ contacts @ buckets)
     }
   }"

definition read_router_contact :: "32 word \<Rightarrow> byte list \<Rightarrow> nat \<Rightarrow> (kad_contact \<times> nat) option" where
  "read_router_contact version payload off = do {
     (i, off) \<leftarrow> readBytes payload off HASH_LENGTH;
     (h, off) \<leftarrow> readString payload off;
     (udp, off) \<leftarrow> takeUInt16 payload off;
     (tcp, off) \<leftarrow> takeUInt16 payload off;
     (v, off) \<leftarrow> readByte payload off;
     (key, off) \<leftarrow> optional (version \<ge> 5) takeUInt32 0 payload off;
     Some (\<lparr>kc_id = i, kc_host = chars h, kc_udpPort = udp, kc_tcpPort = tcp, kc_version = v, kc_udpKey = key\<rparr>, off)
   }"

definition read_kad_state :: "32 word \<Rightarrow> byte list \<Rightarrow> nat \<Rightarrow> (kad_snapshot \<times> nat) option" where
  "read_kad_state version payload off = do {
     (selfId, off) \<leftarrow> readBytes payload off HASH_LENGTH;
     (lastBootstrap, off) \<leftarrow> readInt64 payload off;
     (lastRefresh, off) \<leftarrow> readInt64 payload off;
     (lastSelfRefresh, off) \<leftarrow> readInt64 payload off;
     (firewalledCheck, off) \<leftarrow> optional (version \<ge> 2) readInt64 0 payload off;
     (sourcePublish, off) \<leftarrow> optional (version \<ge> 2) readInt64 0 payload off;
     (sourceSearch, off) \<leftarrow> optional (version \<ge> 3) readInt64 0 payload off;
     (searchCount, off) \<leftarrow> optional (version \<ge> 3) takeUInt32 0 payload off;
     (verifyKey, off) \<leftarrow> optional (version \<ge> 6) takeUInt32 0 payload off;
     (firewalled, off) \<leftarrow> optional (version \<ge> 2) readFlag True payload off;
     (observed, off) \<leftarrow> optional (version \<ge> 2) (read_counted readString) [] payload off;
     (routers, off) \<leftarrow> read_counted readServerStateEndpoint payload off;
     (contacts, off) \<leftarrow> optional (version \<ge> 4) (read_counted (read_router_contact version)) [] payload off;
     (buckets, off) \<leftarrow> read_counted read_bucket payload off;
     Some (\<lparr>sn_selfId = selfId, sn_buckets = buckets, sn_routerNodes = routers, sn_routerContacts = contacts,
       sn_lastBootstrap = lastBootstrap, sn_lastRefresh = lastRefresh, sn_lastSelfRefresh = lastSelfRefresh,
       sn_lastFirewalledCheck = firewalledCheck, sn_lastSourcePublish = sourcePublish,
       sn_lastSourceSearch = sourceSearch, sn_sourceSearchCount = searchCount, sn_udpVerifyKey = verifyKey,
       sn_observedAddresses = observed, sn_firewalled = firewalled\<rparr>, off)
   }"

definition parseKadRoutingStatePayload :: "kad_snapshot \<Rightarrow> byte list \<Rightarrow> bool \<times> kad_snapshot" where
  "parseKadRoutingStatePayload snapshot payload =
     (case do {
        (magic, off) \<leftarrow> readBytes payload 0 (length KAD_ROUTING_STATE_MAGIC);
        if magic \<noteq> KAD_ROUTING_STATE_MAGIC then None
        else do {
          (version, off) \<leftarrow> takeUInt32 payload off;
          if version \<noteq> 1 \<and> (version < 3 \<or> version > 6) then None
          else do {
            (parsed, off) \<leftarrow> read_kad_state version payload off;
            if off \<noteq> length payload then None else Some parsed
          }
        }
      } of None \<Rightarrow> (False, snapshot) | Some parsed \<Rightarrow> (True, parsed))"

section \<open>The file of known nodes\<close>

definition validNodesDatContact :: "kad_contact \<Rightarrow> bool" where
  "validNodesDatContact c \<longleftrightarrow>
     \<not> (length (kc_id c) \<noteq> HASH_LENGTH \<or> kc_host c = [] \<or> kc_host c = ''0.0.0.0'' \<or> kc_udpPort c = 0 \<or> kc_version c \<le> 1) \<and>
     (kc_udpPort c \<noteq> 53 \<or> kc_version c > 5)"

text \<open>The header: the count and the place where the entries begin; \<open>Inl\<close> is \<open>return false\<close>.\<close>

definition nodes_header ::
  "byte list \<Rightarrow> nodes_dat \<Rightarrow> (nodes_dat + nodes_dat \<times> 32 word \<times> nat) option" where
  "nodes_header payload nodes = do {
     (n, off) \<leftarrow> takeUInt32 payload 0;
     let nodes = nodes\<lparr>nd_version := 0, nd_bootstrapEdition := 0, nd_contacts := [], nd_verified := []\<rparr>;
     if n \<noteq> 0 then Some (Inr (nodes, n, off))
     else if length payload - off < 4 then Some (Inl nodes)
     else do {
       (version, off) \<leftarrow> takeUInt32 payload off;
       let nodes = nodes\<lparr>nd_version := version\<rparr>;
       if \<not> (version \<ge> 1 \<and> version \<le> 3) then Some (Inr (nodes, n, off))
       else if version \<ge> 3 \<and> length payload - off < 4 then Some (Inl nodes)
       else do {
         (edition, off) \<leftarrow> optional (version \<ge> 3) takeUInt32 (nd_bootstrapEdition nodes) payload off;
         let nodes = nodes\<lparr>nd_bootstrapEdition := edition\<rparr>;
         if length payload - off < 4 then Some (Inl nodes)
         else do {
           (n, off) \<leftarrow> takeUInt32 payload off;
           Some (Inr (nodes, n, off))
         }
       }
     }
   }"

definition read_nodes_entry :: "bool \<Rightarrow> byte list \<Rightarrow> nat \<Rightarrow> ((kad_contact \<times> bool) \<times> nat) option" where
  "read_nodes_entry hasVerifiedData payload off = do {
     (c, off) \<leftarrow> readKadContact payload off;
     if hasVerifiedData then do {
       (_, off) \<leftarrow> readBytes payload off 8;
       (b, off) \<leftarrow> readByte payload off;
       Some ((c, b \<noteq> 0), off)
     } else Some ((c, True), off)
   }"

text \<open>What the loop keeps of the entries; without any verified node all count as verified.\<close>

definition keep_nodes :: "bool \<Rightarrow> (kad_contact \<times> bool) list \<Rightarrow> nodes_dat \<Rightarrow> nodes_dat" where
  "keep_nodes hasVerifiedData entries nodes =
     (let entries = filter (\<lambda>e. validNodesDatContact (fst e)) entries;
          anyVerified = (\<exists>e \<in> set entries. snd e);
          verified = (if \<not> hasVerifiedData \<or> \<not> anyVerified then map (\<lambda>_. True) entries else map snd entries)
      in nodes\<lparr>nd_contacts := map fst entries, nd_verified := verified\<rparr>)"

text \<open>
  \<open>None\<close> inside is a thrown error, which the function turns into false; what it leaves in the
  out-parameter then does not matter, since no read behind the size checks can fail.
\<close>

definition parseNodesDat :: "nodes_dat \<Rightarrow> byte list \<Rightarrow> bool \<times> nodes_dat" where
  "parseNodesDat nodes payload =
     (if length payload < 4 then (False, nodes)
      else
        case nodes_header payload nodes of
          None \<Rightarrow> (False, nodes)
        | Some (Inl nodes) \<Rightarrow> (False, nodes)
        | Some (Inr (nodes, n, off)) \<Rightarrow>
            (let hasVerifiedData = (nd_version nodes \<ge> 2 \<and> nd_bootstrapEdition nodes = 0);
                 entrySize = (if hasVerifiedData then 34 else 25)
             in if length payload - off < unat n * entrySize then (False, nodes)
                else
                  case read_list (read_nodes_entry hasVerifiedData) (unat n) payload off of
                    None \<Rightarrow> (False, nodes)
                  | Some (entries, off) \<Rightarrow> (off = length payload, keep_nodes hasVerifiedData entries nodes)))"

section \<open>Searches\<close>

record kad_search_entry =
  ke_id :: "byte list"
  ke_tags :: "tag list"

record kad_sources_request =
  ks_targetId :: "byte list"
  ks_startPosition :: "16 word"
  ks_size :: "64 word"

record kad_search_result =
  kx_sourceId :: "byte list"
  kx_targetId :: "byte list"
  kx_entries :: "kad_search_entry list"

record kad_source_endpoint =
  kn_endpoint :: endpoint
  kn_udpPort :: "16 word"
  kn_sourceType :: byte
  kn_buddyIp :: "32 word"
  kn_buddyPort :: "16 word"
  kn_buddyHash :: "byte list"
  kn_buddyId :: "byte list"

record kad_publish_request =
  ku_fileId :: "byte list"
  ku_source :: kad_search_entry

definition isSupportedSourceType :: "64 word \<Rightarrow> bool" where
  "isSupportedSourceType t \<longleftrightarrow> t \<in> {0, 1, 3, 4, 5, 6}"

definition isDirectKadTcpSourceType :: "64 word \<Rightarrow> bool" where
  "isDirectKadTcpSourceType t \<longleftrightarrow> t \<in> {0, 1, 4}"

definition decodeHexHash :: "byte list \<Rightarrow> byte list \<Rightarrow> byte list" where
  "decodeHexHash out v =
     (if length v = HASH_LENGTH * 2 then case fromHex (chars v) of None \<Rightarrow> out | Some h \<Rightarrow> octets h else out)"

text \<open>The loop collects the bytes of the tags it skips, which are then parsed again.\<close>

fun skip_tags :: "nat \<Rightarrow> byte list \<Rightarrow> nat \<Rightarrow> (byte list \<times> nat) option" where
  "skip_tags 0 data off = Some ([], off)"
| "skip_tags (Suc n) data off = do {
     (_, after) \<leftarrow> readTag data off;
     (bs, end) \<leftarrow> skip_tags n data after;
     Some (take (after - off) (drop off data) @ bs, end)
   }"

definition readKadSearchEntry :: "byte list \<Rightarrow> nat \<Rightarrow> (kad_search_entry \<times> nat) option" where
  "readKadSearchEntry data off = do {
     (i, off) \<leftarrow> readBytes data off HASH_LENGTH;
     (tagCount, off) \<leftarrow> readByte data off;
     (bs, off) \<leftarrow> skip_tags (unat tagCount) data off;
     (ok, tags) \<leftarrow> parseTagList [] (packUInt32 (ucast tagCount) @ bs);
     if \<not> ok then None else Some (\<lparr>ke_id = i, ke_tags = tags\<rparr>, off)
   }"

definition pack_search_tag :: "tag \<Rightarrow> byte list option" where
  "pack_search_tag t =
     (if valueType t = STRING then Some (createStringTag (tag_id t) (stringValue t))
      else if valueType t = UINT then
        if intValue t > 0xffffffff then Some (createUInt64Tag (tag_id t) (intValue t))
        else Some (createUInt32Tag (tag_id t) (ucast (intValue t)))
      else None)"

definition packKadSearchEntry :: "kad_search_entry \<Rightarrow> byte list option" where
  "packKadSearchEntry entry = do {
     validate_hash (ke_id entry);
     if length (ke_tags entry) > 255 then None
     else do {
       tags \<leftarrow> write_list pack_search_tag (ke_tags entry);
       Some (ke_id entry @ [of_nat (length (ke_tags entry))] @ tags)
     }
   }"

definition createKadSearchSourcesRequestPayload :: "byte list \<Rightarrow> 16 word \<Rightarrow> 64 word \<Rightarrow> byte list option" where
  "createKadSearchSourcesRequestPayload targetId startPosition sz = do {
     validate_hash targetId;
     Some (targetId @ packUInt16 startPosition @ packUInt64 sz)
   }"

definition parseKadSearchSourcesRequestPayload ::
  "kad_sources_request \<Rightarrow> byte list \<Rightarrow> (bool \<times> kad_sources_request) option" where
  "parseKadSearchSourcesRequestPayload request payload =
     (if length payload \<noteq> HASH_LENGTH + 10 then Some (False, request)
      else do {
        (i, off) \<leftarrow> readBytes payload 0 HASH_LENGTH;
        (start, off) \<leftarrow> takeUInt16 payload off;
        (sz, off) \<leftarrow> takeUInt64 payload off;
        Some (True, \<lparr>ks_targetId = i, ks_startPosition = start, ks_size = sz\<rparr>)
      })"

definition createKadSearchKeysRequestPayload :: "byte list \<Rightarrow> 16 word \<Rightarrow> byte list option" where
  "createKadSearchKeysRequestPayload targetId startPosition = do {
     validate_hash targetId;
     Some (targetId @ packUInt16 startPosition)
   }"

text \<open>A throw inside the loop leaves the entries read so far in the out-parameter; \<open>read_prefix\<close>
  gives them and the offset, if no reader threw.\<close>

fun read_prefix :: "(byte list \<Rightarrow> nat \<Rightarrow> ('a \<times> nat) option) \<Rightarrow> nat \<Rightarrow> byte list \<Rightarrow> nat \<Rightarrow> 'a list \<times> nat option" where
  "read_prefix rd 0 data off = ([], Some off)"
| "read_prefix rd (Suc n) data off =
     (case rd data off of
        None \<Rightarrow> ([], None)
      | Some (v, off) \<Rightarrow> (let (vs, end) = read_prefix rd n data off in (v # vs, end)))"

definition parseKadSearchResultPayload :: "kad_search_result \<Rightarrow> byte list \<Rightarrow> bool \<times> kad_search_result" where
  "parseKadSearchResultPayload result payload =
     (if length payload < HASH_LENGTH * 2 + 2 then (False, result)
      else
        case do {
          (s, off) \<leftarrow> readBytes payload 0 HASH_LENGTH;
          (t, off) \<leftarrow> readBytes payload off HASH_LENGTH;
          (n, off) \<leftarrow> takeUInt16 payload off;
          Some (s, t, n, off)
        } of
          None \<Rightarrow> (False, result)
        | Some (s, t, n, off) \<Rightarrow>
            (let (entries, end) = read_prefix readKadSearchEntry (unat n) payload off
             in (end = Some (length payload), \<lparr>kx_sourceId = s, kx_targetId = t, kx_entries = entries\<rparr>)))"

definition createKadSearchResultPayload ::
  "byte list \<Rightarrow> byte list \<Rightarrow> kad_search_entry list \<Rightarrow> byte list option" where
  "createKadSearchResultPayload sourceId targetId entries = do {
     validate_hash sourceId;
     validate_hash targetId;
     if length entries > 65535 then None
     else do {
       body \<leftarrow> write_list packKadSearchEntry entries;
       Some (sourceId @ targetId @ packUInt16 (of_nat (length entries)) @ body)
     }
   }"

text \<open>The local variables of \<open>extractKadSourceEndpoint\<close>, filled by a loop over the tags.\<close>

record source_fields =
  sf_ip :: "32 word"
  sf_port :: "16 word"
  sf_udpPort :: "16 word"
  sf_cryptOptions :: "16 word"
  sf_sourceType :: "64 word"
  sf_buddyIp :: "32 word"
  sf_buddyPort :: "16 word"
  sf_buddyId :: "byte list"
  sf_hasIp :: bool
  sf_hasPort :: bool

definition new_source_fields :: source_fields where
  "new_source_fields = \<lparr>sf_ip = 0, sf_port = 0, sf_udpPort = 0, sf_cryptOptions = 0, sf_sourceType = 0, sf_buddyIp = 0,
     sf_buddyPort = 0, sf_buddyId = [], sf_hasIp = False, sf_hasPort = False\<rparr>"

definition source_tag :: "tag \<Rightarrow> source_fields \<Rightarrow> source_fields" where
  "source_tag t f =
     (if valueType t = STRING \<and> tag_id t = 0xf8 then f\<lparr>sf_buddyId := decodeHexHash (sf_buddyId f) (stringValue t)\<rparr>
      else if valueType t \<noteq> UINT then f
      else if tag_id t = 0xfe then f\<lparr>sf_ip := ucast (intValue t), sf_hasIp := True\<rparr>
      else if tag_id t = 0xfd then f\<lparr>sf_port := ucast (intValue t), sf_hasPort := True\<rparr>
      else if tag_id t = 0xfc then f\<lparr>sf_udpPort := ucast (intValue t)\<rparr>
      else if tag_id t = 0xfb then f\<lparr>sf_buddyIp := ucast (intValue t)\<rparr>
      else if tag_id t = 0xfa then f\<lparr>sf_buddyPort := ucast (intValue t)\<rparr>
      else if tag_id t = 0xff then f\<lparr>sf_sourceType := intValue t\<rparr>
      else if tag_id t = 0xf3 then f\<lparr>sf_cryptOptions := ucast (intValue t)\<rparr>
      else f)"

text \<open>\<open>Some None\<close> is \<open>return false\<close>; the identifier of an entry of a wrong length makes
  \<open>kadIdToEd2kHash\<close> throw.\<close>

definition extract_source :: "kad_search_entry \<Rightarrow> kad_source_endpoint option option" where
  "extract_source entry =
     (let f = fold source_tag (ke_tags entry) new_source_fields
      in if \<not> sf_hasIp f \<or> \<not> sf_hasPort f \<or> sf_port f = 0 \<or> \<not> isSupportedSourceType (sf_sourceType f) then Some None
         else do {
           hash \<leftarrow> kadIdToEd2kHash (ke_id entry);
           Some (Some \<lparr>kn_endpoint = \<lparr>host = ipv4FromEndpoint (reverseUInt32Bytes (sf_ip f)), port = sf_port f,
                          cryptOptions = sf_cryptOptions f, userHash = hash\<rparr>,
                        kn_udpPort = sf_udpPort f, kn_sourceType = ucast (sf_sourceType f),
                        kn_buddyIp = (if sf_buddyIp f = 0 then 0 else reverseUInt32Bytes (sf_buddyIp f)),
                        kn_buddyPort = sf_buddyPort f, kn_buddyHash = sf_buddyId f, kn_buddyId = sf_buddyId f\<rparr>)
         })"

definition extractKadSourceEndpoint :: "kad_search_entry \<Rightarrow> endpoint option option" where
  "extractKadSourceEndpoint entry = do {
     source \<leftarrow> extract_source entry;
     Some (case source of
       None \<Rightarrow> None
     | Some k \<Rightarrow> if isDirectKadTcpSourceType (ucast (kn_sourceType k)) then Some (kn_endpoint k) else None)
   }"

fun extract_details :: "kad_search_entry list \<Rightarrow> kad_source_endpoint list option" where
  "extract_details [] = Some []"
| "extract_details (e # es) = do {
     source \<leftarrow> extract_source e;
     rest \<leftarrow> extract_details es;
     Some ((case source of None \<Rightarrow> [] | Some k \<Rightarrow> [k]) @ rest)
   }"

definition extractKadSourceEndpoints :: "kad_search_result \<Rightarrow> endpoint list option" where
  "extractKadSourceEndpoints result = do {
     sources \<leftarrow> extract_details (kx_entries result);
     Some (map kn_endpoint (filter (\<lambda>k. isDirectKadTcpSourceType (ucast (kn_sourceType k))) sources))
   }"

definition uint_tag :: "byte \<Rightarrow> 64 word \<Rightarrow> tag" where
  "uint_tag i v = new_tag\<lparr>tag_id := i, valueType := UINT, intValue := v\<rparr>"

definition publish_tags :: "32 word option \<Rightarrow> 16 word \<Rightarrow> 64 word \<Rightarrow> 16 word \<Rightarrow> 16 word \<Rightarrow> tag list" where
  "publish_tags ip sourcePort sz udp crypt =
     [uint_tag 0xff (if sz > 0xffffffff then 4 else 1)] @
     (case ip of None \<Rightarrow> [] | Some v \<Rightarrow> [uint_tag 0xfe (ucast (reverseUInt32Bytes v))]) @
     [uint_tag 0xfd (ucast sourcePort)] @
     (if udp \<noteq> 0 then [uint_tag 0xfc (ucast udp)] else []) @
     (if crypt \<noteq> 0 then [uint_tag 0xf3 (ucast crypt)] else []) @
     (if sz \<noteq> 0 then [uint_tag 0xd3 sz] else [])"

definition createKadPublishSourceRequestPayload ::
  "byte list \<Rightarrow> endpoint \<Rightarrow> byte list \<Rightarrow> 64 word \<Rightarrow> 16 word \<Rightarrow> 16 word \<Rightarrow> byte list option" where
  "createKadPublishSourceRequestPayload fileId source sourceId sz udp crypt = do {
     validate_hash fileId;
     validate_hash sourceId;
     ip \<leftarrow> (if host source = [] then Some None else map_option Some (ipv4ToEndpointValue (host source)));
     body \<leftarrow> packKadSearchEntry \<lparr>ke_id = sourceId, ke_tags = publish_tags ip (port source) sz udp crypt\<rparr>;
     Some (fileId @ body)
   }"

text \<open>The file identifier is written before the entry is read.\<close>

definition parseKadPublishSourceRequestPayload :: "kad_publish_request \<Rightarrow> byte list \<Rightarrow> bool \<times> kad_publish_request" where
  "parseKadPublishSourceRequestPayload request payload =
     (if length payload < HASH_LENGTH * 2 + 1 then (False, request)
      else
        case readBytes payload 0 HASH_LENGTH of
          None \<Rightarrow> (False, request)
        | Some (i, off) \<Rightarrow>
            (let request = request\<lparr>ku_fileId := i\<rparr>
             in case readKadSearchEntry payload off of
                  None \<Rightarrow> (False, request)
                | Some (entry, off) \<Rightarrow> (off = length payload, request\<lparr>ku_source := entry\<rparr>)))"

end
