(* ===== verification/Kad_Messages.thy ===== *)
theory Kad_Messages
  imports Kad_Protocol
begin

text \<open>
  What the messages of \<open>Kad_Protocol\<close> promise: every message a node writes is read back by the parser
  for it, obfuscated datagrams open with the right key, a saved routing table and published sources
  survive, and the file of known nodes gives only usable contacts.
\<close>

section \<open>Byte order of addresses\<close>

lemma reverse_read: "reverseUInt32Bytes v = readUInt32 (rev (packUInt32 v))"
proof -
  have m: "(0x000000ff :: 32 word) = mask 8" "(0x0000ff00 :: 32 word) = push_bit 8 (mask 8)"
    "(0x00ff0000 :: 32 word) = push_bit 16 (mask 8)" "(0xff000000 :: 32 word) = push_bit 24 (mask 8)"
    by (simp_all add: mask_eq_exp_minus_1 push_bit_eq_mult)
  show ?thesis
    unfolding reverseUInt32Bytes_def m readUInt32_def packUInt32_def upt_numerals
    by (rule bit_word_eqI)
      (auto simp: bit_or_iff bit_push_bit_iff bit_drop_bit_eq bit_and_iff bit_mask_iff bit_ucast_iff dest: bit_imp_le_length)
qed

lemma pack_reverse: "packUInt32 (reverseUInt32Bytes v) = rev (packUInt32 v)"
  by (simp add: reverse_read pack_read)

lemma reverse_reverse [simp]: "reverseUInt32Bytes (reverseUInt32Bytes v) = v"
  by (metis pack_reverse reverse_read rev_rev_ident read_pack(2))

lemma unat_byte_up: "unat (ucast (b :: byte) :: 32 word) = unat b"
  using byte_index [of b] by (simp add: unsigned_ucast_eq take_bit_nat_eq_self)

lemma byte_up: "ucast (b :: byte) = (of_nat (unat b) :: 32 word)"
  using byte_index [of b] by (intro unsigned_word_eqI [where ?'a = nat]) (simp only: unat_byte_up unat_of_nat, simp)

lemma octet_byte: "unat (drop_bit k w AND 0xff :: 32 word) = unat (ucast (drop_bit k w) :: byte)"
proof -
  have "w' AND 0xff = ucast (ucast w' :: byte)" for w' :: "32 word"
    unfolding low_octet by (rule bit_word_eqI) (auto simp: bit_ucast_iff bit_take_bit_iff)
  then have "unat (drop_bit k w AND 0xff) = unat (ucast (ucast (drop_bit k w) :: byte) :: 32 word)" by (simp only:)
  also have "\<dots> = unat (ucast (drop_bit k w) :: byte)" by (rule unat_byte_up)
  finally show ?thesis .
qed

lemma kad_address: "ipv4FromKadContactValue ip = ipv4FromEndpoint (reverseUInt32Bytes ip)"
proof -
  have b: "packUInt32 w = [ucast w, ucast (drop_bit 8 w), ucast (drop_bit 16 w), ucast (drop_bit 24 w)]" for w
    by (simp add: packUInt32_def upt_numerals)
  have o: "unat (w AND 0xff :: 32 word) = unat (ucast w :: byte)" for w using octet_byte [of 0 w] by simp
  show ?thesis using pack_reverse [of ip] unfolding b ipv4FromKadContactValue_def ipv4FromEndpoint_def octet_byte o by simp
qed

lemma kad_address_roundtrip:
  assumes "dotted h" and "ipv4ToKadContactValue h = Some ip"
  shows "ipv4FromKadContactValue ip = h"
proof -
  obtain e where e: "h = ipv4FromEndpoint e" using assms(1) by (auto simp: dotted_def split: option.splits)
  then show ?thesis using assms(2) by (auto simp: ipv4ToKadContactValue_def ipv4_roundtrip kad_address)
qed

section \<open>Reading what was written\<close>

lemma parse_hash:
  "cursor data off (h @ rest) \<Longrightarrow> length h = HASH_LENGTH \<Longrightarrow>
     (cursor data (off + HASH_LENGTH) rest \<Longrightarrow> g h (off + HASH_LENGTH) = r) \<Longrightarrow>
     (readBytes data off HASH_LENGTH \<bind> (\<lambda>(v, off). g v off)) = r"
  using cursor_advance [of data off h rest] cursor_readBytes [of data off h rest] by simp

lemma parse_byte:
  "cursor data off ([b] @ rest) \<Longrightarrow> (cursor data (off + 1) rest \<Longrightarrow> g b (off + 1) = r) \<Longrightarrow>
     (readByte data off \<bind> (\<lambda>(v, off). g v off)) = r"
  using cursor_advance [of data off "[b]" rest] cursor_readByte [of data off b rest] by simp

lemma parse_u64:
  "cursor data off (packUInt64 w @ rest) \<Longrightarrow> (cursor data (off + 8) rest \<Longrightarrow> g w (off + 8) = r) \<Longrightarrow>
     (takeUInt64 data off \<bind> (\<lambda>(v, off). g v off)) = r"
  using cursor_bind [of data off "packUInt64 w" rest takeUInt64 w g r] cursor_takeUInt(3) [of data off w rest] by simp

lemmas kad_steps = parse_hash parse_byte parse_u64 parse_steps

lemma validate_hash_Some [simp]: "validate_hash h = Some u \<longleftrightarrow> length h = HASH_LENGTH"
  by (simp add: validate_hash_def)

text \<open>A contact on the wire has no UDP key.\<close>

definition plain :: "kad_contact \<Rightarrow> kad_contact" where
  "plain c = c\<lparr>kc_udpKey := 0\<rparr>"

lemma packKadContact_bytes:
  assumes "packKadContact c = Some bs"
  obtains ip where "ipv4ToKadContactValue (kc_host c) = Some ip" and "length (kc_id c) = HASH_LENGTH"
    and "bs = kc_id c @ packUInt32 ip @ packUInt16 (kc_udpPort c) @ packUInt16 (kc_tcpPort c) @ [kc_version c]"
  using assms by (auto simp: packKadContact_def split: bind_splits)

lemma cursor_kad_contact:
  assumes "packKadContact c = Some bs" and "dotted (kc_host c)" and "cursor data off (bs @ rest)"
  shows "readKadContact data off = Some (plain c, off + length bs)"
proof -
  obtain ip where ip: "ipv4ToKadContactValue (kc_host c) = Some ip" "length (kc_id c) = HASH_LENGTH"
    "bs = kc_id c @ packUInt32 ip @ packUInt16 (kc_udpPort c) @ packUInt16 (kc_tcpPort c) @ [kc_version c]"
    using packKadContact_bytes [OF assms(1)] .
  have "cursor data off (kc_id c @ packUInt32 ip @ packUInt16 (kc_udpPort c) @ packUInt16 (kc_tcpPort c) @ [kc_version c] @ rest)"
    using assms(3) ip(3) by simp
  then show ?thesis
    unfolding readKadContact_def
    by - ((erule kad_steps, (rule ip(2))?)+,
      cases c, use ip(2) in \<open>simp add: kad_address_roundtrip [OF assms(2) ip(1)] ip(3) plain_def\<close>)
qed

lemma readKadContact_bounds:
  "readKadContact data off = Some (c, off') \<Longrightarrow> off' = off + 25 \<and> off' \<le> length data"
  by (auto simp: readKadContact_def HASH_LENGTH_def split: bind_splits dest!: readByte_bounds readBytes_bounds takeUInt_bounds)

interpretation contacts: codec readKadContact 25 packKadContact plain "\<lambda>c. dotted (kc_host c)"
  by unfold_locales (use readKadContact_bounds cursor_kad_contact in fastforce)+

lemma write_contacts_length: "write_list packKadContact cs = Some bs \<Longrightarrow> length bs = length cs * 25"
proof (induction cs arbitrary: bs)
  case (Cons c cs)
  then obtain b bs' where b: "packKadContact c = Some b" "write_list packKadContact cs = Some bs'" "bs = b @ bs'"
    by (auto split: bind_splits)
  obtain ip where "length (kc_id c) = HASH_LENGTH"
    "b = kc_id c @ packUInt32 ip @ packUInt16 (kc_udpPort c) @ packUInt16 (kc_tcpPort c) @ [kc_version c]"
    using packKadContact_bytes [OF b(1)] by blast
  then show ?case using Cons.IH [OF b(2)] b(3) by (simp add: HASH_LENGTH_def)
qed simp

section \<open>Messages\<close>

lemma hello_options_bits:
  "hello_options a t u AND 0x04 \<noteq> 0 \<longleftrightarrow> a" "hello_options a t u AND 0x02 \<noteq> 0 \<longleftrightarrow> t"
  "hello_options a t u AND 0x01 \<noteq> 0 \<longleftrightarrow> u" "hello_options a t u = 0 \<longleftrightarrow> \<not> a \<and> \<not> t \<and> \<not> u"
  by (cases a; cases t; cases u; simp add: hello_options_def)+

lemma hello_options_ucast: "(ucast (ucast (ucast (b :: byte) :: 32 word) :: 64 word) :: byte) = b"
  by (rule bit_word_eqI) (simp add: bit_ucast_iff)

text \<open>Flags the receiver of a hello keeps when the sender sets none: those it had before.\<close>

lemma kad_hello_roundtrip:
  assumes "createKadHelloPayload i tcp v a t u = Some p"
  shows "\<exists>tags. parseKadHelloPayload old p = Some (True,
    if a \<or> t \<or> u
    then old\<lparr>kh_id := i, kh_tcpPort := tcp, kh_version := v, kh_tags := tags,
      kh_requestsAck := a, kh_tcpFirewalled := t, kh_udpFirewalled := u\<rparr>
    else old\<lparr>kh_id := i, kh_tcpPort := tcp, kh_version := v, kh_tags := tags\<rparr>)"
proof -
  define opts where "opts = hello_options a t u"
  define ts where "ts = (if opts \<noteq> 0 then [UInt32Tag 0xf2 (ucast opts)] else [])"
  define n :: byte where "n = (if opts = 0 then 0 else 1)"
  have i: "length i = HASH_LENGTH" and p: "p = i @ packUInt16 tcp @ [v] @ [n] @ concat (map create_tag ts)"
    using assms by (auto simp: createKadHelloPayload_def Let_def opts_def [symmetric] ts_def n_def split: bind_splits)
  have r: "parseTagList x (packUInt32 (ucast n) @ concat (map create_tag ts)) = Some (True, map tag_of ts)" for x
    using tag_list_read [of ts x] by (cases "opts = 0") (simp_all add: ts_def n_def)
  have l: "\<not> length p < HASH_LENGTH + 4" using i by (simp add: p)
  have e: "drop (0 + HASH_LENGTH + 2 + 1 + 1) p = concat (map create_tag ts)" using i by (simp add: p)
  have m: "\<not> length p - (0 + HASH_LENGTH + 2 + 1 + 1) < unat n * 2"
    using i by (simp add: p n_def ts_def createUInt32Tag_def createTagHeader_def)
  have f: "fold hello_tag (map tag_of ts) h = (if a \<or> t \<or> u
      then h\<lparr>kh_requestsAck := a, kh_tcpFirewalled := t, kh_udpFirewalled := u\<rparr> else h)" for h
    using hello_options_bits [of a t u]
    by (auto simp: ts_def hello_tag_def opts_def [symmetric] hello_options_ucast new_tag_def Let_def)
  have c: "cursor p 0 (i @ packUInt16 tcp @ [v] @ [n] @ concat (map create_tag ts))" by (simp add: p)
  have "parseKadHelloPayload old p = Some (True, fold hello_tag (map tag_of ts)
      (old\<lparr>kh_id := i, kh_tcpPort := tcp, kh_version := v, kh_tags := map tag_of ts\<rparr>))"
    unfolding parseKadHelloPayload_def if_not_P [OF l] using c
    by - ((erule kad_steps, (rule i)?)+, simp only: Let_def if_not_P [OF m] e r Option.bind.bind_lunit prod.case simp_thms if_False)
  then show ?thesis unfolding f by (intro exI [of _ "map tag_of ts"]) simp
qed

lemma kad_bootstrap_roundtrip:
  assumes "createKadBootstrapResponsePayload i tcp v cs = Some p" and "list_all (\<lambda>c. dotted (kc_host c)) cs"
  shows "parseKadBootstrapResponsePayload old p =
    Some (True, old\<lparr>kb_id := i, kb_tcpPort := tcp, kb_version := v, kb_contacts := map plain cs\<rparr>)"
proof -
  obtain body where i: "length i = HASH_LENGTH" and n: "length cs \<le> 65535" and body: "write_list packKadContact cs = Some body"
    and p: "p = i @ packUInt16 tcp @ [v] @ packUInt16 (of_nat (length cs)) @ body"
    using assms(1) by (auto simp: createKadBootstrapResponsePayload_def split: bind_splits if_splits)
  have c: "cursor p 0 (i @ packUInt16 tcp @ [v] @ packUInt16 (of_nat (length cs)) @ body)" by (simp add: p)
  have l: "\<not> length p < HASH_LENGTH + 5" using i by (simp add: p)
  have u: "unat (of_nat (length cs) :: 16 word) = length cs" using n by (simp add: unat_of_nat)
  have e: "cursor p (0 + HASH_LENGTH + 2 + 1 + 2) (body @ [])" using i by (simp add: p cursor_def)
  have r: "read_list readKadContact (length cs) p (0 + HASH_LENGTH + 2 + 1 + 2) =
      Some (map plain cs, 0 + HASH_LENGTH + 2 + 1 + 2 + length body)"
    by (rule contacts.list_roundtrip [OF body assms(2) e])
  have m: "length p - (0 + HASH_LENGTH + 2 + 1 + 2) = length cs * 25"
    using write_contacts_length [OF body] i by (simp add: p)
  show ?thesis
    unfolding parseKadBootstrapResponsePayload_def if_not_P [OF l] using c
    by - ((erule kad_steps, (rule i)?)+, simp only: Let_def u m r not_not if_False simp_thms Option.bind.bind_lunit prod.case)
qed

lemma kad_response_roundtrip:
  assumes "createKadResponsePayload i cs = Some p" and "list_all (\<lambda>c. dotted (kc_host c)) cs"
  shows "parseKadResponsePayload old p = Some (True, old\<lparr>kr_targetId := i, kr_contacts := map plain cs\<rparr>)"
proof -
  obtain body where i: "length i = HASH_LENGTH" and n: "length cs \<le> 255" and body: "write_list packKadContact cs = Some body"
    and p: "p = i @ [of_nat (length cs)] @ body"
    using assms(1) by (auto simp: createKadResponsePayload_def split: bind_splits if_splits)
  have c: "cursor p 0 (i @ [of_nat (length cs)] @ body)" by (simp add: p)
  have l: "\<not> length p < HASH_LENGTH + 1" using i by (simp add: p)
  have u: "unat (of_nat (length cs) :: byte) = length cs" using n by (simp add: unat_of_nat)
  have e: "cursor p (0 + HASH_LENGTH + 1) (body @ [])" using i by (simp add: p cursor_def)
  have r: "read_list readKadContact (length cs) p (0 + HASH_LENGTH + 1) =
      Some (map plain cs, 0 + HASH_LENGTH + 1 + length body)"
    by (rule contacts.list_roundtrip [OF body assms(2) e])
  have m: "length p - (0 + HASH_LENGTH + 1) = length cs * 25"
    using write_contacts_length [OF body] i by (simp add: p)
  show ?thesis
    unfolding parseKadResponsePayload_def if_not_P [OF l] using c
    by - ((erule kad_steps, (rule i)?)+, simp only: Let_def u m r not_not if_False simp_thms Option.bind.bind_lunit prod.case)
qed

text \<open>The messages of fixed size.\<close>

lemma kad_request_roundtrip:
  "createKadRequestPayload k t r = Some p \<Longrightarrow>
     parseKadRequestPayload old p = Some (True, \<lparr>kq_searchType = k, kq_targetId = t, kq_receiverId = r\<rparr>)"
  by (auto simp: createKadRequestPayload_def parseKadRequestPayload_def readByte_def readBytes_def HASH_LENGTH_def split: bind_splits)

lemma kad_publish_result_roundtrip:
  "createKadPublishResultPayload f n = Some p \<Longrightarrow>
     parseKadPublishResultPayload old p = Some (True, \<lparr>kp_fileId = f, kp_count = n\<rparr>)"
  by (auto simp: createKadPublishResultPayload_def parseKadPublishResultPayload_def readByte_def readBytes_def
      nth_append HASH_LENGTH_def split: bind_splits)

lemma kad_firewalled_roundtrip:
  "createKadFirewalledRequestPayload tcp i o1 = Some p \<Longrightarrow>
     parseKadFirewalledRequestPayload old p = Some (True, \<lparr>fq_tcpPort = tcp, fq_id = i, fq_options = o1\<rparr>)"
  "createDirectCallbackRequestPayload tcp i o1 = Some p \<Longrightarrow>
     parseDirectCallbackRequestPayload old2 p = Some (True, \<lparr>dc_tcpPort = tcp, dc_userHash = i, dc_connectOptions = o1\<rparr>)"
  by (auto simp: createKadFirewalledRequestPayload_def parseKadFirewalledRequestPayload_def
      createDirectCallbackRequestPayload_def parseDirectCallbackRequestPayload_def takeUInt16_def readByte_def
      readBytes_def read_pack nth_append HASH_LENGTH_def split: bind_splits)

lemma kad_firewalled_udp_roundtrip:
  "parseKadFirewalledUdpPayload old (createKadFirewalledUdpPayload e tcp) = Some (True, \<lparr>fu_errorCode = e, fu_tcpPort = tcp\<rparr>)"
  by (simp add: createKadFirewalledUdpPayload_def parseKadFirewalledUdpPayload_def takeUInt16_def readByte_def
      readBytes_def read_pack)

lemma kad_firewalled_response_roundtrip:
  "createKadFirewalledResponsePayload h = Some p \<Longrightarrow> dotted h \<Longrightarrow> parseKadFirewalledResponsePayload old p = (True, h)"
  by (auto simp: createKadFirewalledResponsePayload_def parseKadFirewalledResponsePayload_def read_pack
      kad_address_roundtrip split: bind_splits)

lemma kad_callback_roundtrip:
  "createKadCallbackRequestPayload b f tcp = Some p \<Longrightarrow>
     parseKadCallbackRequestPayload old p = Some (True, \<lparr>cb_buddyId = b, cb_fileId = f, cb_tcpPort = tcp\<rparr>)"
  by (auto simp: createKadCallbackRequestPayload_def parseKadCallbackRequestPayload_def takeUInt16_def
      readBytes_def read_pack HASH_LENGTH_def split: bind_splits)

lemma kad_hello_ack_roundtrip: "createKadHelloAckPayload i = Some p \<Longrightarrow> parseKadHelloAckPayload old p = (True, i)"
  by (auto simp: createKadHelloAckPayload_def parseKadHelloAckPayload_def nth_append split: bind_splits)

lemma buddy_callback_roundtrip:
  assumes "createBuddyCallbackPayload b f e = Some p" and "dotted (host e)"
  shows "parseBuddyCallbackPayload old p = Some (port e \<noteq> 0,
    \<lparr>bc_buddyId = b, bc_fileId = f, bc_endpoint = (bc_endpoint old)\<lparr>host := host e, port := port e\<rparr>\<rparr>)"
proof -
  obtain w where w: "host e = ipv4FromEndpoint w" using assms(2) by (auto simp: dotted_def split: option.splits)
  have l: "length b = HASH_LENGTH" "length f = HASH_LENGTH" and p: "p = b @ f @ packUInt32 w @ packUInt16 (port e)"
    using assms(1) by (auto simp: createBuddyCallbackPayload_def w ipv4_roundtrip split: bind_splits)
  have n: "\<not> length p \<noteq> HASH_LENGTH * 2 + 6" using l by (simp add: p)
  have c: "cursor p 0 (b @ f @ packUInt32 w @ packUInt16 (port e) @ [])" by (simp add: p)
  show ?thesis
    unfolding parseBuddyCallbackPayload_def if_not_P [OF n] using c
    by - ((erule kad_steps, (rule l)?)+, simp add: w)
qed

section \<open>Obfuscation\<close>

lemma open_seal_kad:
  assumes "datagram \<noteq> []"
  shows "open_kad old (seal_kad datagram key kp used rk sk) key =
    (True, \<lparr>ob_datagram = datagram, ob_receiverVerifyKey = rk, ob_senderVerifyKey = sk\<rparr>)"
proof -
  define body where "body = packUInt32 KAD_UDP_SYNC_CLIENT @ [0] @ packUInt32 rk @ packUInt32 sk @ datagram"
  have d: "drop 3 (seal_kad datagram key kp used rk sk) = fst (rc4_encrypt (rc4_init key) body)"
    "length (seal_kad datagram key kp used rk sk) = 16 + length datagram"
    "seal_kad datagram key kp used rk sk ! 0 = kadObfuscationMarker used"
    by (simp_all add: seal_kad_def body_def)
  have p: "possibleKadObfuscatedDatagram (seal_kad datagram key kp used rk sk)"
    using assms d by (simp add: possibleKadObfuscatedDatagram_def kadObfuscationMarker_def)
  have t: "readUInt32 (packUInt32 w @ r) = w" for w r
    using read_pack(2) [of w] by (simp add: readUInt32_def nth_append)
  have "length body = 13 + length datagram" "readUInt32 body = KAD_UDP_SYNC_CLIENT" "body ! 4 = 0"
    "readUInt32 (drop 5 body) = rk" "readUInt32 (drop 9 body) = sk" "drop 13 body = datagram"
    by (simp_all add: body_def t nth_append)
  then show ?thesis
    using assms p d rc4_involution [of "rc4_init key" body]
    by (simp add: open_kad_def rc4Crypt_def kadObfuscationMarker_def Let_def)
qed

lemma seal_kad_key_part: "readUInt16 (drop 1 (seal_kad datagram key kp used rk sk)) = kp"
  using read_pack(1) [of kp] by (simp add: seal_kad_def readUInt16_def nth_append)

lemma seal_kad_possible:
  "datagram \<noteq> [] \<Longrightarrow> possibleKadObfuscatedDatagram (seal_kad datagram key kp used rk sk)"
  "seal_kad datagram key kp used rk sk ! 0 = (if used then 0x0a else 0x08)"
  by (auto simp: possibleKadObfuscatedDatagram_def seal_kad_def kadObfuscationMarker_def)

text \<open>A key of ours that another node sends back is never zero, which would mean none.\<close>

lemma verify_key_positive:
  assumes "createKadUdpVerifyKey md5 baseKey h = Some k" and "baseKey \<noteq> 0" and "h \<noteq> []"
  shows "k \<noteq> 0"
proof -
  obtain v where k: "k = v mod 0xfffffffe + 1"
    using assms by (auto simp: createKadUdpVerifyKey_def Let_def split: bind_splits)
  have "unat (v mod 0xfffffffe) < 0xfffffffe" by (simp add: unat_mod)
  moreover have "unat (- 1 :: 32 word) = 0xffffffff" by (simp add: unsigned_minus_1_eq_mask mask_eq_exp_minus_1)
  ultimately have "v mod 0xfffffffe \<noteq> - 1" by auto
  then show ?thesis unfolding k by (simp only: eq_neg_iff_add_eq_0 not_False_eq_True)
qed

section \<open>Saved state\<close>

context codec
begin

lemma parse_counted:
  assumes "cursor data off (bs @ rest)" and "append_counted enc vs = Some bs" and "length vs \<le> 65535" and "list_all ok vs"
    and "cursor data (off + length bs) rest \<Longrightarrow> g (map canon vs) (off + length bs) = r"
  shows "(read_counted dec data off \<bind> (\<lambda>(v, off). g v off)) = r"
proof -
  obtain body where b: "write_list enc vs = Some body" and bs: "bs = packUInt16 (of_nat (length vs)) @ body"
    using assms(2) by (auto simp: append_counted_def split: bind_splits)
  have c: "cursor data off (packUInt16 (of_nat (length vs)) @ body @ rest)" using assms(1) bs by simp
  have d: "cursor data (off + 2) (body @ rest)" using cursor_step [OF c] by simp
  have u: "unat (of_nat (length vs) :: 16 word) = length vs" using assms(3) by (simp add: unat_of_nat)
  have "read_counted dec data off = Some (map canon vs, off + length bs)"
    using cursor_takeUInt(1) [OF c] list_roundtrip [OF b assms(4) d] u by (simp add: read_counted_def bs)
  then show ?thesis using assms(5) [OF cursor_advance [OF assms(1)]] by simp
qed

end

text \<open>A saved node keeps all but the key for its datagrams.\<close>

definition saved_node :: "kad_routing_node \<Rightarrow> kad_routing_node" where
  "saved_node n = n\<lparr>rn_contact := plain (rn_contact n)\<rparr>"

definition node_times :: "kad_routing_node \<Rightarrow> bool" where
  "node_times n \<longleftrightarrow> int64 (rn_firstSeen n) \<and> int64 (rn_lastSeen n)"

lemma cursor_routing_node:
  assumes "appendKadRoutingNode n = Some bs" and "node_times n" and "cursor data off (bs @ rest)"
  shows "readKadRoutingNode data off = Some (saved_node n, off + length bs)"
proof -
  obtain h where h: "appendString (octets (kc_host (rn_contact n))) = Some h" and i: "length (kc_id (rn_contact n)) = HASH_LENGTH"
    and bs: "bs = kc_id (rn_contact n) @ h @ packUInt16 (kc_udpPort (rn_contact n)) @ packUInt16 (kc_tcpPort (rn_contact n)) @
       [kc_version (rn_contact n)] @ flag_byte (rn_confirmed n) @ flag_byte (rn_seed n) @
       packUInt32 (rn_failCount n) @ appendInt64 (rn_firstSeen n) @ appendInt64 (rn_lastSeen n)"
    using assms(1) by (auto simp: appendKadRoutingNode_def split: bind_splits)
  have t: "int64 (rn_firstSeen n)" "int64 (rn_lastSeen n)" using assms(2) by (simp_all add: node_times_def)
  have l: "length bs = HASH_LENGTH + length h + 27" using i by (simp add: bs flag_byte_def appendInt64_def)
  have "cursor data off (kc_id (rn_contact n) @ h @ packUInt16 (kc_udpPort (rn_contact n)) @ packUInt16 (kc_tcpPort (rn_contact n)) @
       [kc_version (rn_contact n)] @ flag_byte (rn_confirmed n) @ flag_byte (rn_seed n) @
       packUInt32 (rn_failCount n) @ appendInt64 (rn_firstSeen n) @ appendInt64 (rn_lastSeen n) @ rest)"
    using assms(3) bs by simp
  then show ?thesis
    unfolding readKadRoutingNode_def
    by - ((erule kad_steps, (rule i h t)?)+, cases n, cases "rn_contact n", simp add: l saved_node_def plain_def)
qed

lemma readString_advances: "readString data off = Some (v, off') \<Longrightarrow> off \<le> off' \<and> off' \<le> length data"
  using readString_bounds by fastforce

lemma readKadRoutingNode_bounds:
  "readKadRoutingNode data off = Some (n, off') \<Longrightarrow> off + 1 \<le> off' \<and> off' \<le> length data"
  by (auto simp: readKadRoutingNode_def readFlag_def readInt64_def HASH_LENGTH_def split: bind_splits
      dest!: readByte_bounds readBytes_bounds takeUInt_bounds readString_advances)

interpretation routing_nodes: codec readKadRoutingNode 1 appendKadRoutingNode saved_node node_times
  by unfold_locales (use readKadRoutingNode_bounds cursor_routing_node in blast)+

lemma parse_nodes:
  assumes "cursor data off (bs @ rest)" and "appendKadRoutingNodes ns = Some bs" and "list_all node_times ns"
    and "cursor data (off + length bs) rest \<Longrightarrow> g (map saved_node ns) (off + length bs) = r"
  shows "(readKadRoutingNodes data off \<bind> (\<lambda>(v, off). g v off)) = r"
proof -
  obtain body where b: "write_list appendKadRoutingNode ns = Some body" and n: "length ns \<le> 0xffffffff"
    and bs: "bs = packUInt32 (of_nat (length ns)) @ body"
    using assms(2) by (auto simp: appendKadRoutingNodes_def split: bind_splits if_splits)
  have c: "cursor data off (packUInt32 (of_nat (length ns)) @ body @ rest)" using assms(1) bs by simp
  have d: "cursor data (off + 4) (body @ rest)" using cursor_step [OF c] by simp
  have u: "unat (of_nat (length ns) :: 32 word) = length ns" using n by (simp add: unat_of_nat)
  have "readKadRoutingNodes data off = Some (map saved_node ns, off + length bs)"
    using cursor_takeUInt(2) [OF c] routing_nodes.list_roundtrip [OF b assms(3) d] u by (simp add: readKadRoutingNodes_def bs)
  then show ?thesis using assms(4) [OF cursor_advance [OF assms(1)]] by simp
qed

definition saved_bucket :: "kad_bucket \<Rightarrow> kad_bucket" where
  "saved_bucket b = \<lparr>bk_live = map saved_node (bk_live b), bk_replacements = map saved_node (bk_replacements b),
     bk_lastActive = bk_lastActive b\<rparr>"

definition bucket_times :: "kad_bucket \<Rightarrow> bool" where
  "bucket_times b \<longleftrightarrow> int64 (bk_lastActive b) \<and> list_all node_times (bk_live b) \<and> list_all node_times (bk_replacements b)"

lemma cursor_bucket:
  assumes "append_bucket b = Some bs" and "bucket_times b" and "cursor data off (bs @ rest)"
  shows "read_bucket data off = Some (saved_bucket b, off + length bs)"
proof -
  obtain l m where ns: "appendKadRoutingNodes (bk_live b) = Some l" "appendKadRoutingNodes (bk_replacements b) = Some m"
    and bs: "bs = appendInt64 (bk_lastActive b) @ l @ m"
    using assms(1) by (auto simp: append_bucket_def split: bind_splits)
  have t: "int64 (bk_lastActive b)" "list_all node_times (bk_live b)" "list_all node_times (bk_replacements b)"
    using assms(2) by (simp_all add: bucket_times_def)
  have "cursor data off (appendInt64 (bk_lastActive b) @ l @ m @ rest)" using assms(3) bs by simp
  then show ?thesis
    unfolding read_bucket_def
    by - ((erule kad_steps parse_nodes, ((rule ns t)+)?)+, simp add: bs saved_bucket_def appendInt64_def)
qed

lemma readKadRoutingNodes_bounds:
  "readKadRoutingNodes data off = Some (ns, off') \<Longrightarrow> off \<le> off' \<and> off' \<le> length data"
  unfolding readKadRoutingNodes_def
  by (auto split: bind_splits dest!: takeUInt_bounds routing_nodes.list_bounds)

lemma read_bucket_bounds: "read_bucket data off = Some (b, off') \<Longrightarrow> off + 8 \<le> off' \<and> off' \<le> length data"
  by (auto simp: read_bucket_def readInt64_def split: bind_splits dest!: takeUInt_bounds readKadRoutingNodes_bounds)

interpretation saved_buckets: codec read_bucket 8 append_bucket saved_bucket bucket_times
  by unfold_locales (use read_bucket_bounds cursor_bucket in blast)+

lemma cursor_router_contact:
  assumes "appendKadContact c = Some bs" and "cursor data off (bs @ rest)"
  shows "read_router_contact 6 data off = Some (c, off + length bs)"
proof -
  obtain h where h: "appendString (octets (kc_host c)) = Some h" and i: "length (kc_id c) = HASH_LENGTH"
    and bs: "bs = kc_id c @ h @ packUInt16 (kc_udpPort c) @ packUInt16 (kc_tcpPort c) @ [kc_version c] @ packUInt32 (kc_udpKey c)"
    using assms(1) by (auto simp: appendKadContact_def split: bind_splits)
  have v: "(6 :: 32 word) \<ge> 5" by (simp add: word_le_nat_alt)
  have l: "length bs = HASH_LENGTH + length h + 9" using i by (simp add: bs)
  have "cursor data off (kc_id c @ h @ packUInt16 (kc_udpPort c) @ packUInt16 (kc_tcpPort c) @ [kc_version c] @
      packUInt32 (kc_udpKey c) @ rest)" using assms(2) bs by simp
  then show ?thesis
    unfolding read_router_contact_def optional_def if_P [OF v]
    by - ((erule kad_steps, (rule i h)?)+, cases c, simp add: l)
qed

lemma read_router_contact_bounds:
  "read_router_contact v data off = Some (c, off') \<Longrightarrow> off + 1 \<le> off' \<and> off' \<le> length data"
  by (auto simp: read_router_contact_def optional_def HASH_LENGTH_def split: bind_splits if_splits
      dest!: readByte_bounds readBytes_bounds takeUInt_bounds readString_advances)

interpretation router_contacts: codec "read_router_contact 6" 1 appendKadContact "\<lambda>c. c" "\<lambda>c. True"
  by unfold_locales (use read_router_contact_bounds cursor_router_contact in blast)+

lemma state_endpoint_bounds: "readServerStateEndpoint data off = Some (e, off') \<Longrightarrow> off + 2 \<le> off' \<and> off' \<le> length data"
  by (auto simp: readServerStateEndpoint_def split: bind_splits dest!: takeUInt_bounds readString_advances)

interpretation state_endpoints: codec readServerStateEndpoint 2 appendServerStateEndpoint bare "\<lambda>e. True"
  by unfold_locales (use state_endpoint_bounds cursor_state_endpoint in blast)+

lemmas state_steps = strings.parse_counted state_endpoints.parse_counted router_contacts.parse_counted
  saved_buckets.parse_counted kad_steps

text \<open>What a saved table keeps, and the condition that its times are \<open>int64_t\<close> values.\<close>

definition saved_snapshot :: "kad_snapshot \<Rightarrow> kad_snapshot" where
  "saved_snapshot s = s\<lparr>sn_buckets := map saved_bucket (sn_buckets s), sn_routerNodes := map bare (sn_routerNodes s)\<rparr>"

definition snapshot_times :: "kad_snapshot \<Rightarrow> bool" where
  "snapshot_times s \<longleftrightarrow> int64 (sn_lastBootstrap s) \<and> int64 (sn_lastRefresh s) \<and> int64 (sn_lastSelfRefresh s) \<and>
     int64 (sn_lastFirewalledCheck s) \<and> int64 (sn_lastSourcePublish s) \<and> int64 (sn_lastSourceSearch s) \<and>
     list_all bucket_times (sn_buckets s)"

lemma kad_state_read:
  assumes "createKadRoutingStatePayload s = Some p" and "snapshot_times s"
  shows "parseKadRoutingStatePayload old p = (True, saved_snapshot s)"
proof -
  have v: "(6 :: 32 word) \<ge> 2" "(6 :: 32 word) \<ge> 3" "(6 :: 32 word) \<ge> 4" by (simp_all add: word_le_nat_alt)
  obtain os rs cs bs where parts: "append_counted appendString (sn_observedAddresses s) = Some os"
    "append_counted appendServerStateEndpoint (sn_routerNodes s) = Some rs"
    "append_counted appendKadContact (sn_routerContacts s) = Some cs" "append_counted append_bucket (sn_buckets s) = Some bs"
    and lens: "length (sn_selfId s) = HASH_LENGTH" "length (sn_observedAddresses s) \<le> 65535" "length (sn_routerNodes s) \<le> 65535"
    "length (sn_routerContacts s) \<le> 65535" "length (sn_buckets s) \<le> 65535"
    and p: "createKadRoutingStatePayload s = Some p"
    using assms(1) by (auto simp: createKadRoutingStatePayload_def split: bind_splits if_splits)
  define body where "body = drop (length KAD_ROUTING_STATE_MAGIC + 4) p"
  have c: "cursor p 0 (KAD_ROUTING_STATE_MAGIC @ packUInt32 6 @ body)"
    and body: "body = sn_selfId s @ appendInt64 (sn_lastBootstrap s) @
         appendInt64 (sn_lastRefresh s) @ appendInt64 (sn_lastSelfRefresh s) @ appendInt64 (sn_lastFirewalledCheck s) @
         appendInt64 (sn_lastSourcePublish s) @ appendInt64 (sn_lastSourceSearch s) @
         packUInt32 (sn_sourceSearchCount s) @ packUInt32 (sn_udpVerifyKey s) @ flag_byte (sn_firewalled s) @
         os @ rs @ cs @ bs @ []"
    using p parts lens by (auto simp: createKadRoutingStatePayload_def validate_hash_def body_def)
  have c2: "cursor p (length KAD_ROUTING_STATE_MAGIC) (packUInt32 6 @ body)" using cursor_step [OF c] by simp
  have c3: "cursor p (length KAD_ROUTING_STATE_MAGIC + 4) body" by (rule cursor_step [OF c2]) simp
  have t: "int64 (sn_lastBootstrap s)" "int64 (sn_lastRefresh s)" "int64 (sn_lastSelfRefresh s)"
    "int64 (sn_lastFirewalledCheck s)" "int64 (sn_lastSourcePublish s)" "int64 (sn_lastSourceSearch s)"
    "list_all bucket_times (sn_buckets s)"
    using assms(2) by (simp_all add: snapshot_times_def)
  have a: "list_all (\<lambda>_. True) xs" for xs :: "'x list" by (simp add: list_all_iff)
  have "read_kad_state 6 p (length KAD_ROUTING_STATE_MAGIC + 4) = Some (saved_snapshot s, length p)"
    using c3 [unfolded body] unfolding read_kad_state_def optional_def
    by (simp only: v order.refl if_True)
      ((erule state_steps, ((rule parts lens t a)+)?)+, drule cursor_end, cases s, simp add: saved_snapshot_def)
  then show ?thesis
    using cursor_readBytes [OF c refl] cursor_takeUInt(2) [OF c2] by (simp add: parseKadRoutingStatePayload_def)
qed

section \<open>The file of known nodes\<close>

lemma read_list_succeeds:
  assumes "\<And>off. off + k \<le> length data \<Longrightarrow> \<exists>v. rd data off = Some (v, off + k)"
  shows "off + n * k \<le> length data \<Longrightarrow> \<exists>vs. read_list rd n data off = Some (vs, off + n * k)"
proof (induction n arbitrary: off)
  case (Suc n)
  obtain v where v: "rd data off = Some (v, off + k)" using assms [of off] Suc.prems by auto
  obtain vs where "read_list rd n data (off + k) = Some (vs, off + k + n * k)" using Suc.IH [of "off + k"] Suc.prems by auto
  then show ?case using v by (simp add: add.assoc)
qed simp

lemma readKadContact_succeeds: "off + 25 \<le> length data \<Longrightarrow> \<exists>c. readKadContact data off = Some (c, off + 25)"
  by (auto simp: readKadContact_def takeUInt32_def takeUInt16_def readBytes_def readByte_def HASH_LENGTH_def)

lemma read_nodes_entry_succeeds:
  assumes "off + (if v then 34 else 25) \<le> length data"
  shows "\<exists>e. read_nodes_entry v data off = Some (e, off + (if v then 34 else 25))"
proof -
  obtain c where "readKadContact data off = Some (c, off + 25)" using readKadContact_succeeds [of off data] assms
    by (auto split: if_splits)
  then show ?thesis using assms by (auto simp: read_nodes_entry_def readBytes_def readByte_def split: if_splits)
qed

lemma nodes_header_total:
  assumes "4 \<le> length payload"
  shows "nodes_header payload nodes \<noteq> None"
proof -
  have t: "off + 4 \<le> length payload \<Longrightarrow> takeUInt32 payload off = Some (readUInt32 (take 4 (drop off payload)), off + 4)" for off
    by (auto simp: takeUInt32_def readBytes_def)
  show ?thesis
    using assms by (auto simp: nodes_header_def optional_def t [of 0, simplified] t Let_def not_less)
qed

lemma nodes_header_fresh:
  "nodes_header payload nodes = Some (Inr (nodes', n, off)) \<Longrightarrow> 4 \<le> off \<and> off \<le> length payload"
  by (auto simp: nodes_header_def optional_def Let_def split: bind_splits if_splits dest!: takeUInt_bounds)

text \<open>No read of \<open>parseNodesDat\<close> throws: the size is checked before the entries are read.\<close>

lemma nodes_entries_total:
  assumes "off + unat n * (if v then 34 else 25) \<le> length payload"
  shows "\<exists>es. read_list (read_nodes_entry v) (unat n) payload off = Some (es, off + unat n * (if v then 34 else 25)) \<and>
    length es = unat n"
proof -
  obtain es where "read_list (read_nodes_entry v) (unat n) payload off = Some (es, off + unat n * (if v then 34 else 25))"
    using read_list_succeeds [of "if v then 34 else 25" payload "read_nodes_entry v" off "unat n"]
      read_nodes_entry_succeeds [of _ v payload] assms by blast
  moreover have "read_list rd k data o' = Some (vs, e) \<Longrightarrow> length vs = k"
    for rd :: "byte list \<Rightarrow> nat \<Rightarrow> ((kad_contact \<times> bool) \<times> nat) option" and k data o' vs e
    by (induction k arbitrary: o' vs) (auto split: bind_splits)
  ultimately show ?thesis by blast
qed

definition nodes_ok :: "byte list \<Rightarrow> nodes_dat \<Rightarrow> bool" where
  "nodes_ok payload nd \<longleftrightarrow> list_all validNodesDatContact (nd_contacts nd) \<and> length (nd_verified nd) = length (nd_contacts nd) \<and>
     4 + 25 * length (nd_contacts nd) \<le> length payload \<and> (nd_contacts nd \<noteq> [] \<longrightarrow> True \<in> set (nd_verified nd))"

lemma keep_nodes_ok:
  "list_all validNodesDatContact (nd_contacts (keep_nodes v es nodes)) \<and>
   length (nd_verified (keep_nodes v es nodes)) = length (nd_contacts (keep_nodes v es nodes)) \<and>
   length (nd_contacts (keep_nodes v es nodes)) \<le> length es \<and>
   (nd_contacts (keep_nodes v es nodes) \<noteq> [] \<longrightarrow> True \<in> set (nd_verified (keep_nodes v es nodes)))"
proof -
  define fs where "fs = filter (\<lambda>e. validNodesDatContact (fst e)) es"
  have "length fs \<le> length es" by (simp add: fs_def)
  moreover have "\<forall>e \<in> set fs. validNodesDatContact (fst e)" by (simp add: fs_def)
  moreover have "fs \<noteq> [] \<Longrightarrow> True \<in> set (map (\<lambda>_. True) fs)" by (cases fs) auto
  moreover have "\<exists>e \<in> set fs. snd e \<Longrightarrow> True \<in> set (map snd fs)" by force
  ultimately show ?thesis by (simp add: keep_nodes_def fs_def [symmetric] Let_def list_all_iff)
qed

lemma nodes_dat_ok:
  assumes "parseNodesDat old payload = (True, nd)"
  shows "nodes_ok payload nd"
proof -
  have l: "4 \<le> length payload" using assms by (auto simp: parseNodesDat_def split: if_splits)
  then obtain h where h: "nodes_header payload old = Some h" using nodes_header_total by blast
  obtain nodes n off where i: "h = Inr (nodes, n, off)"
    using assms l h by (cases h) (auto simp: parseNodesDat_def)
  define v where "v = (nd_version nodes \<ge> 2 \<and> nd_bootstrapEdition nodes = 0)"
  define k :: nat where "k = (if v then 34 else 25)"
  have o: "4 \<le> off" "off \<le> length payload" using nodes_header_fresh h i by auto
  have sz: "\<not> length payload - off < unat n * k"
    using assms l h i by (auto simp: parseNodesDat_def Let_def v_def k_def split: if_splits)
  then have "off + unat n * k \<le> length payload" using o by linarith
  then obtain es where es: "read_list (read_nodes_entry v) (unat n) payload off = Some (es, off + unat n * k)" "length es = unat n"
    using nodes_entries_total unfolding k_def by blast
  have nd: "nd = keep_nodes v es nodes"
    using assms l h i sz es(1) by (simp add: parseNodesDat_def Let_def v_def [symmetric] k_def [symmetric])
  have "length (nd_contacts nd) \<le> unat n" using keep_nodes_ok [of v es nodes] es(2) nd by simp
  moreover have "unat n * 25 \<le> unat n * k" by (simp add: k_def)
  ultimately have "4 + 25 * length (nd_contacts nd) \<le> length payload" using o sz by linarith
  then show ?thesis using keep_nodes_ok [of v es nodes] by (simp add: nodes_ok_def nd)
qed

section \<open>Searches\<close>

text \<open>The tag that is written for a tag of an entry, and what comes back.\<close>

definition out_of :: "tag \<Rightarrow> out_tag" where
  "out_of t =
     (if valueType t = STRING then StringTag (tag_id t) (stringValue t)
      else if intValue t > 0xffffffff then UInt64Tag (tag_id t) (intValue t)
      else UInt32Tag (tag_id t) (ucast (intValue t)))"

definition entry_ok :: "kad_search_entry \<Rightarrow> bool" where
  "entry_ok e \<longleftrightarrow> list_all (\<lambda>t. tag_ok (out_of t)) (ke_tags e)"

definition entry_read :: "kad_search_entry \<Rightarrow> kad_search_entry" where
  "entry_read e = e\<lparr>ke_tags := map (\<lambda>t. tag_of (out_of t)) (ke_tags e)\<rparr>"

lemma pack_search_tag_out: "pack_search_tag t = Some bs \<Longrightarrow> bs = create_tag (out_of t)"
  by (auto simp: pack_search_tag_def out_of_def split: if_splits)

lemma write_search_tags:
  "write_list pack_search_tag ts = Some bs \<Longrightarrow> bs = concat (map (\<lambda>t. create_tag (out_of t)) ts)"
  by (induction ts arbitrary: bs) (auto split: bind_splits dest: pack_search_tag_out)

lemma skip_tags_read:
  "list_all tag_ok ts \<Longrightarrow> cursor data off (concat (map create_tag ts) @ rest) \<Longrightarrow>
     skip_tags (length ts) data off = Some (concat (map create_tag ts), off + length (concat (map create_tag ts)))"
proof (induction ts arbitrary: off)
  case (Cons t ts)
  have c: "cursor data off (create_tag t @ concat (map create_tag ts) @ rest)" using Cons.prems by simp
  have t: "readTag data off = Some (tag_of t, off + length (create_tag t))"
    using Cons.prems by (intro cursor_createTag [OF _ c]) simp
  have d: "take (length (create_tag t)) (drop off data) = create_tag t" using c by (simp add: cursor_def)
  show ?case using Cons.IH [OF _ cursor_advance [OF c]] Cons.prems t d by simp
qed simp

lemma cursor_search_entry:
  assumes "packKadSearchEntry e = Some bs" and "entry_ok e" and "cursor data off (bs @ rest)"
  shows "readKadSearchEntry data off = Some (entry_read e, off + length bs)"
proof -
  define ts where "ts = map out_of (ke_tags e)"
  have i: "length (ke_id e) = HASH_LENGTH" and n: "length (ke_tags e) \<le> 255"
    and bs: "bs = ke_id e @ [of_nat (length (ke_tags e))] @ concat (map create_tag ts)"
    using assms(1) by (auto simp: packKadSearchEntry_def ts_def comp_def split: bind_splits if_splits dest: write_search_tags)
  have u: "unat (of_nat (length (ke_tags e)) :: byte) = length ts" using n by (simp add: unat_of_nat ts_def)
  have w: "packUInt32 (ucast (of_nat (length (ke_tags e)) :: byte)) = packUInt32 (of_nat (length ts))"
    using u byte_up by metis
  have ok: "list_all tag_ok ts" using assms(2) by (simp add: entry_ok_def ts_def list_all_iff)
  have c: "cursor data off (ke_id e @ [of_nat (length (ke_tags e))] @ concat (map create_tag ts) @ rest)"
    using assms(3) bs by simp
  have d: "cursor data (off + HASH_LENGTH + 1) (concat (map create_tag ts) @ rest)"
    using cursor_step [OF c, of "off + HASH_LENGTH"] cursor_step [of data "off + HASH_LENGTH" "[of_nat (length (ke_tags e))]"] i by simp
  have p: "parseTagList [] (packUInt32 (of_nat (length ts)) @ concat (map create_tag ts)) = Some (True, map tag_of ts)"
    using n by (intro tag_list_read [OF ok]) (simp add: ts_def)
  have r: "entry_read e = \<lparr>ke_id = ke_id e, ke_tags = map tag_of ts\<rparr>" by (cases e) (simp add: entry_read_def ts_def)
  show ?thesis
    unfolding readKadSearchEntry_def using c
    by - ((erule kad_steps, (rule i)?)+,
      simp only: u w skip_tags_read [OF ok d] p r Option.bind.bind_lunit prod.case simp_thms if_False,
      use i bs in simp)
qed

lemma skip_tags_bounds: "skip_tags n data off = Some (bs, off') \<Longrightarrow> off \<le> length data \<Longrightarrow> off \<le> off' \<and> off' \<le> length data"
proof (induction n arbitrary: off bs)
  case (Suc n)
  then obtain t mid bs' where t: "readTag data off = Some (t, mid)" "skip_tags n data mid = Some (bs', off')"
    by (auto split: bind_splits)
  show ?case using Suc.IH [OF t(2)] readTag_bounds [OF t(1)] by simp
qed simp

lemma readKadSearchEntry_bounds:
  "readKadSearchEntry data off = Some (e, off') \<Longrightarrow> off + 17 \<le> off' \<and> off' \<le> length data"
  by (auto simp: readKadSearchEntry_def HASH_LENGTH_def split: bind_splits if_splits
      dest!: readByte_bounds readBytes_bounds skip_tags_bounds)

interpretation search_entries: codec readKadSearchEntry 17 packKadSearchEntry entry_read entry_ok
  by unfold_locales (use readKadSearchEntry_bounds cursor_search_entry in blast)+

lemma read_prefix_list: "read_list rd n data off = Some (vs, off') \<Longrightarrow> read_prefix rd n data off = (vs, Some off')"
  by (induction n arbitrary: off vs) (auto split: bind_splits)

lemma kad_search_result_roundtrip:
  assumes "createKadSearchResultPayload a b es = Some p" and "list_all entry_ok es"
  shows "parseKadSearchResultPayload old p = (True, \<lparr>kx_sourceId = a, kx_targetId = b, kx_entries = map entry_read es\<rparr>)"
proof -
  obtain body where i: "length a = HASH_LENGTH" "length b = HASH_LENGTH" and n: "length es \<le> 65535"
    and body: "write_list packKadSearchEntry es = Some body" and p: "p = a @ b @ packUInt16 (of_nat (length es)) @ body"
    using assms(1) by (auto simp: createKadSearchResultPayload_def split: bind_splits if_splits)
  have l: "\<not> length p < HASH_LENGTH * 2 + 2" using i by (simp add: p)
  have c: "cursor p 0 (a @ b @ packUInt16 (of_nat (length es)) @ body)" by (simp add: p)
  have d: "cursor p (HASH_LENGTH + HASH_LENGTH + 2) (body @ [])" using i by (simp add: p cursor_def)
  have u: "unat (of_nat (length es) :: 16 word) = length es" using n by (simp add: unat_of_nat)
  have h: "(do { (s, off) \<leftarrow> readBytes p 0 HASH_LENGTH; (t, off) \<leftarrow> readBytes p off HASH_LENGTH;
      (n, off) \<leftarrow> takeUInt16 p off; Some (s, t, n, off) }) = Some (a, b, of_nat (length es), HASH_LENGTH + HASH_LENGTH + 2)"
    using c by - ((erule kad_steps, (rule i)?)+, simp)
  show ?thesis
    using read_prefix_list [OF search_entries.list_roundtrip [OF body assms(2) d]] i
    by (simp add: parseKadSearchResultPayload_def if_not_P [OF l] h u) (simp add: p)
qed

text \<open>Reading the published tags does not depend on how wide a number was written.\<close>

lemma source_tag_read: "valueType t = UINT \<Longrightarrow> source_tag (tag_of (out_of t)) f = source_tag t f"
proof -
  assume u: "valueType t = UINT"
  have "ucast (ucast (intValue t) :: 32 word) = intValue t" if "\<not> intValue t > 0xffffffff"
    using that by (intro unsigned_word_eqI [where ?'a = nat])
      (simp add: word_less_nat_alt unsigned_ucast_eq unsigned_take_bit_eq take_bit_nat_eq_self)
  then show ?thesis using u by (auto simp: source_tag_def out_of_def new_tag_def)
qed

lemma publish_tags_uint: "t \<in> set (publish_tags ip p sz udp crypt) \<Longrightarrow> valueType t = UINT"
  by (auto simp: publish_tags_def uint_tag_def split: option.splits if_splits)

lemma fold_source_tags:
  "\<forall>t \<in> set ts. valueType t = UINT \<Longrightarrow> fold source_tag (map (\<lambda>t. tag_of (out_of t)) ts) f = fold source_tag ts f"
  by (induction ts arbitrary: f) (simp_all add: source_tag_read)

lemma ucast_back: "ucast (ucast (p :: 16 word) :: 64 word) = p" "ucast (ucast (w :: 32 word) :: 64 word) = w"
  by (rule bit_word_eqI, simp add: bit_ucast_iff)+

lemma publish_fields:
  "fold source_tag (publish_tags (Some ip) p sz udp crypt) new_source_fields =
     new_source_fields\<lparr>sf_ip := reverseUInt32Bytes ip, sf_port := p, sf_udpPort := udp, sf_cryptOptions := crypt,
       sf_sourceType := (if sz > 0xffffffff then 4 else 1), sf_hasIp := True, sf_hasPort := True\<rparr>"
  by (simp add: publish_tags_def uint_tag_def source_tag_def new_tag_def new_source_fields_def ucast_back)

lemma kad_id_involution:
  assumes "ed2kHashToKadId h = Some i"
  shows "kadIdToEd2kHash i = Some h"
proof -
  have l: "length h = 16" using assms by (auto simp: ed2kHashToKadId_def HASH_LENGTH_def split: bind_splits)
  then have h: "h = map (\<lambda>k. h ! k) [0..<16]" by (metis map_nth)
  have u: "[0..<16] = [0, 1, 2, 3, 4, 5, 6, 7, 8, 9, 10, 11, 12, 13, 14, 15::nat]" by (simp add: upt_rec)
  have i: "i = concat (map (\<lambda>k. [h ! (k + 3), h ! (k + 2), h ! (k + 1), h ! k]) [0, 4, 8, 12])"
    using assms by (auto simp: ed2kHashToKadId_def split: bind_splits)
  then have "length i = HASH_LENGTH" by (simp add: HASH_LENGTH_def)
  moreover have "concat (map (\<lambda>k. [i ! (k + 3), i ! (k + 2), i ! (k + 1), i ! k]) [0, 4, 8, 12]) = map (\<lambda>k. h ! k) [0..<16]"
    unfolding u by (simp add: i numeral_2_eq_2)
  ultimately show ?thesis using h by (simp add: kadIdToEd2kHash_def ed2kHashToKadId_def validate_hash_def)
qed

lemma publish_read:
  assumes "createKadPublishSourceRequestPayload f e i sz udp crypt = Some p" and "host e = ipv4FromEndpoint ip"
  shows "parseKadPublishSourceRequestPayload old p = (True, old\<lparr>ku_fileId := f,
    ku_source := entry_read \<lparr>ke_id = i, ke_tags = publish_tags (Some ip) (port e) sz udp crypt\<rparr>\<rparr>)"
proof -
  define entry where "entry = \<lparr>ke_id = i, ke_tags = publish_tags (Some ip) (port e) sz udp crypt\<rparr>"
  have "host e \<noteq> []" using ipv4_roundtrip [of ip] by (auto simp: assms(2) ipv4ToEndpointValue_def getline_def)
  then obtain body where f: "length f = HASH_LENGTH" and body: "packKadSearchEntry entry = Some body" and p: "p = f @ body"
    using assms by (auto simp: createKadPublishSourceRequestPayload_def ipv4_roundtrip entry_def split: bind_splits)
  have ok: "entry_ok entry"
    by (auto simp: entry_ok_def entry_def list_all_iff out_of_def dest: publish_tags_uint)
  have "17 \<le> length body" using body by (auto simp: packKadSearchEntry_def HASH_LENGTH_def split: bind_splits if_splits)
  then have l: "\<not> length p < HASH_LENGTH * 2 + 1" using f by (simp add: p HASH_LENGTH_def)
  have d: "cursor p HASH_LENGTH (body @ [])" using f by (simp add: p cursor_def)
  have r: "readBytes p 0 HASH_LENGTH = Some (f, HASH_LENGTH)" using cursor_readBytes [of p 0 f body] f by (simp add: p)
  show ?thesis
    using cursor_search_entry [OF body ok d] f
    by (simp only: parseKadPublishSourceRequestPayload_def if_not_P [OF l] r entry_def [symmetric] option.case prod.case Let_def)
      (simp add: p)
qed

lemma publish_extracted:
  assumes "port e \<noteq> 0" and "ed2kHashToKadId h = Some i"
  shows "extractKadSourceEndpoint (entry_read \<lparr>ke_id = i, ke_tags = publish_tags (Some ip) (port e) sz udp crypt\<rparr>) =
    Some (Some \<lparr>host = ipv4FromEndpoint ip, port = port e, cryptOptions = crypt, userHash = h\<rparr>)"
proof -
  define fields where "fields = fold source_tag (map (\<lambda>t. tag_of (out_of t)) (publish_tags (Some ip) (port e) sz udp crypt)) new_source_fields"
  have "fields = fold source_tag (publish_tags (Some ip) (port e) sz udp crypt) new_source_fields"
    unfolding fields_def by (rule fold_source_tags) (use publish_tags_uint in blast)
  then have "sf_ip fields = reverseUInt32Bytes ip" "sf_port fields = port e" "sf_cryptOptions fields = crypt"
    "sf_sourceType fields = (if sz > 0xffffffff then 4 else 1)" "sf_hasIp fields" "sf_hasPort fields"
    by (simp_all add: publish_fields)
  then show ?thesis
    using assms kad_id_involution [OF assms(2)]
    by (simp add: extractKadSourceEndpoint_def extract_source_def entry_read_def fields_def [symmetric]
        isSupportedSourceType_def isDirectKadTcpSourceType_def Let_def)
qed

section \<open>Properties\<close>

definition new_kad_hello :: kad_hello where
  "new_kad_hello = \<lparr>kh_id = [], kh_tcpPort = 0, kh_version = 0, kh_tags = [], kh_requestsAck = False,
     kh_tcpFirewalled = False, kh_udpFirewalled = False\<rparr>"


definition demo_contact :: kad_contact where
  "demo_contact = \<lparr>kc_id = replicate 16 1, kc_host = ''10.0.0.1'', kc_udpPort = 4672, kc_tcpPort = 4662,
     kc_version = 9, kc_udpKey = 7\<rparr>"


text \<open>
  The routing table survives a restart: what \<open>createKadRoutingStatePayload\<close> writes is read back
  with every bucket, node, router, time and observed address; only the keys for the datagrams of the
  nodes in the buckets are not saved.
\<close>

theorem kad_state_roundtrip:
  assumes "createKadRoutingStatePayload s = Some p" and "snapshot_times s"
  shows "parseKadRoutingStatePayload old p = (True, saved_snapshot s)"
  using assms by (rule kad_state_read)

definition demo_snapshot :: kad_snapshot where
  "demo_snapshot = \<lparr>sn_selfId = replicate 16 3,
     sn_buckets = [\<lparr>bk_live = [\<lparr>rn_contact = demo_contact, rn_confirmed = True, rn_seed = False, rn_failCount = 2,
       rn_firstSeen = 5, rn_lastSeen = 6\<rparr>], bk_replacements = [], bk_lastActive = 9\<rparr>],
     sn_routerNodes = [], sn_routerContacts = [demo_contact], sn_lastBootstrap = 1, sn_lastRefresh = 0, sn_lastSelfRefresh = 0,
     sn_lastFirewalledCheck = 0, sn_lastSourcePublish = 0, sn_lastSourceSearch = - 1, sn_sourceSearchCount = 4,
     sn_udpVerifyKey = 8, sn_observedAddresses = [[49]], sn_firewalled = False\<rparr>"


text \<open>
  Obfuscated Kad datagrams open for the node they are meant for, whatever MD5 computes: with
  its identifier when it gave no key, with its key otherwise, and each kind is refused by the other
  parser without trying to decrypt it. A key that a node gives out is never zero, the value that
  means no key.
\<close>

theorem kad_obfuscation_roundtrip:
  assumes "datagram \<noteq> []" and "length target = HASH_LENGTH"
  shows "(\<exists>p. seal_kad_for_id md5 datagram target kp rk sk = Some p \<and>
      open_kad_by_id md5 old p target =
        Some (True, \<lparr>ob_datagram = datagram, ob_receiverVerifyKey = rk, ob_senderVerifyKey = sk\<rparr>) \<and>
      open_kad_by_key md5 old p k = (False, old)) \<and>
    (let q = seal_kad_for_key md5 datagram rk sk kp in
      open_kad_by_key md5 old q rk = (True, \<lparr>ob_datagram = datagram, ob_receiverVerifyKey = rk, ob_senderVerifyKey = sk\<rparr>) \<and>
      open_kad_by_id md5 old q target = Some (False, old)) \<and>
    (createKadUdpVerifyKey md5 baseKey h = Some key \<longrightarrow> baseKey \<noteq> 0 \<longrightarrow> h \<noteq> [] \<longrightarrow> key \<noteq> 0)"
  using assms verify_key_positive
  by (simp add: seal_kad_for_id_def seal_kad_for_key_def open_kad_by_id_def open_kad_by_key_def kadObfuscationKey_def
      kadIdToObfuscationKeyBytes_def validate_hash_def seal_kad_possible seal_kad_key_part [simplified] open_seal_kad Let_def)






end
