(* ===== verification/Kad_Routing.thy ===== *)
theory Kad_Routing
  imports Kad_Messages
begin

text \<open>
  The routing table of the Kad network (\<open>KadRoutingTable\<close>, \<open>KadTransactionTable\<close> and
  \<open>KadSourceIndex\<close> of \<open>ed2k/KadRouting.cc\<close>): contacts by their distance from us, in buckets of bounded
  size with as many replacements, the requests under way, and the sources published to us.

  Operations that throw for an identifier of a wrong length are preceded by a test of it in every
  caller but \<open>findClosestExcluding\<close>, \<open>restore\<close> and the source index, which return an option here.
  \<open>std::sort\<close> may leave contacts at the same distance in any order; the model keeps theirs.
\<close>

section \<open>Distances\<close>

definition sameContact :: "kad_contact \<Rightarrow> kad_contact \<Rightarrow> bool" where
  "sameContact lhs rhs \<longleftrightarrow>
     (kc_id lhs \<noteq> [] \<and> kc_id lhs = kc_id rhs) \<or> (kc_host lhs = kc_host rhs \<and> kc_udpPort lhs = kc_udpPort rhs)"

definition sameEndpoint :: "endpoint \<Rightarrow> endpoint \<Rightarrow> bool" where
  "sameEndpoint lhs rhs \<longleftrightarrow> host lhs = host rhs \<and> port lhs = port rhs"

definition sameContactEndpoint :: "kad_contact \<Rightarrow> kad_contact \<Rightarrow> bool" where
  "sameContactEndpoint lhs rhs \<longleftrightarrow> kc_host lhs = kc_host rhs \<and> kc_udpPort lhs = kc_udpPort rhs"

definition validId :: "byte list \<Rightarrow> bool" where
  "validId i \<longleftrightarrow> length i = HASH_LENGTH"

definition validRoutingContact :: "kad_contact \<Rightarrow> bool" where
  "validRoutingContact c \<longleftrightarrow>
     \<not> (\<not> validId (kc_id c) \<or> kc_host c = [] \<or> kc_host c = ''0.0.0.0'' \<or> kc_udpPort c = 0 \<or> kc_version c \<le> 1) \<and>
     (kc_udpPort c \<noteq> 53 \<or> kc_version c > 5)"

definition kad_word :: "byte list \<Rightarrow> nat \<Rightarrow> 32 word" where
  "kad_word i chunk = readUInt32 (drop (chunk * 4) i)"

fun compare_from :: "nat list \<Rightarrow> byte list \<Rightarrow> byte list \<Rightarrow> byte list \<Rightarrow> int" where
  "compare_from [] lhs rhs target = 0"
| "compare_from (chunk # cs) lhs rhs target =
     (let ld = kad_word lhs chunk XOR kad_word target chunk;
          rd = kad_word rhs chunk XOR kad_word target chunk
      in if ld < rd then - 1 else if ld > rd then 1 else compare_from cs lhs rhs target)"

definition distanceCompare :: "byte list \<Rightarrow> byte list \<Rightarrow> byte list \<Rightarrow> int" where
  "distanceCompare lhs rhs target = compare_from [0..<4] lhs rhs target"

text \<open>The distance as one number, the key by which the model sorts.\<close>

definition kad_distance :: "byte list \<Rightarrow> byte list \<Rightarrow> nat" where
  "kad_distance i target =
     foldl (\<lambda>d chunk. d * 2 ^ 32 + unat (kad_word i chunk XOR kad_word target chunk)) 0 [0..<4]"

section \<open>The table\<close>

definition splitLevels :: nat where
  "splitLevels = 4"

definition farBuckets :: nat where
  "farBuckets = 15"

definition bucketCount :: nat where
  "bucketCount = farBuckets + 128 - splitLevels"

record kad_table =
  tb_selfId :: "byte list"
  tb_bucketSize :: nat
  tb_buckets :: "kad_bucket list"
  tb_routerNodes :: "endpoint list"
  tb_routerContacts :: "kad_contact list"
  tb_lastBootstrap :: int
  tb_lastRefresh :: int
  tb_lastSelfRefresh :: int

definition new_bucket :: kad_bucket where
  "new_bucket = \<lparr>bk_live = [], bk_replacements = [], bk_lastActive = 0\<rparr>"

definition new_table :: "byte list \<Rightarrow> nat \<Rightarrow> kad_table option" where
  "new_table selfId bucketSize =
     (if \<not> validId selfId then None
      else Some \<lparr>tb_selfId = selfId, tb_bucketSize = (if bucketSize = 0 then 10 else bucketSize),
        tb_buckets = replicate bucketCount new_bucket, tb_routerNodes = [], tb_routerContacts = [],
        tb_lastBootstrap = 0, tb_lastRefresh = 0, tb_lastSelfRefresh = 0\<rparr>)"

definition leading_bit :: "32 word \<Rightarrow> nat option" where
  "leading_bit x = find (\<lambda>b. x AND drop_bit b 0x80000000 \<noteq> 0) [0..<32]"

fun bucket_from :: "nat list \<Rightarrow> byte list \<Rightarrow> byte list \<Rightarrow> nat" where
  "bucket_from [] selfId i = bucketCount - 1"
| "bucket_from (chunk # cs) selfId i =
     (let x = kad_word selfId chunk XOR kad_word i chunk
      in if x = 0 then bucket_from cs selfId i
         else if chunk = 0 \<and> drop_bit (32 - splitLevels) x \<noteq> 0 then unat (drop_bit (32 - splitLevels) x) - 1
         else case leading_bit x of
                Some b \<Rightarrow> farBuckets + chunk * 32 + b - splitLevels
              | None \<Rightarrow> bucket_from cs selfId i)"

definition bucketIndex :: "byte list \<Rightarrow> byte list \<Rightarrow> nat" where
  "bucketIndex selfId i = bucket_from [0..<4] selfId i"

text \<open>The place of the first node that matches, and a list without it.\<close>

fun find_at :: "('a \<Rightarrow> bool) \<Rightarrow> 'a list \<Rightarrow> nat option" where
  "find_at P [] = None"
| "find_at P (x # xs) = (if P x then Some 0 else map_option Suc (find_at P xs))"

definition erase_at :: "nat \<Rightarrow> 'a list \<Rightarrow> 'a list" where
  "erase_at i xs = take i xs @ drop (Suc i) xs"

definition findNode :: "kad_routing_node list \<Rightarrow> kad_contact \<Rightarrow> nat option" where
  "findNode nodes c = find_at (\<lambda>n. sameContact (rn_contact n) c) nodes"

definition updateNode :: "kad_routing_node \<Rightarrow> kad_contact \<Rightarrow> bool \<Rightarrow> int \<Rightarrow> kad_routing_node" where
  "updateNode node c confirmed now =
     (let c = (if kc_udpKey c = 0 then c\<lparr>kc_udpKey := kc_udpKey (rn_contact node)\<rparr> else c);
          node = node\<lparr>rn_contact := c, rn_lastSeen := now\<rparr>;
          node = (if rn_firstSeen node = 0 then node\<lparr>rn_firstSeen := now\<rparr> else node)
      in if confirmed then node\<lparr>rn_confirmed := True, rn_failCount := 0\<rparr> else node)"

definition new_node :: "kad_contact \<Rightarrow> bool \<Rightarrow> int \<Rightarrow> kad_routing_node" where
  "new_node c confirmed now = \<lparr>rn_contact = c, rn_confirmed = confirmed, rn_seed = False, rn_failCount = 0,
     rn_firstSeen = now, rn_lastSeen = now\<rparr>"

definition bucket_add :: "nat \<Rightarrow> kad_contact \<Rightarrow> bool \<Rightarrow> int \<Rightarrow> kad_bucket \<Rightarrow> kad_bucket" where
  "bucket_add bucketSize c confirmed now bucket =
     (let bucket = bucket\<lparr>bk_lastActive := now\<rparr>
      in case findNode (bk_live bucket) c of
           Some i \<Rightarrow>
             bucket\<lparr>bk_live := erase_at i (bk_live bucket) @ [updateNode (bk_live bucket ! i) c confirmed now]\<rparr>
         | None \<Rightarrow>
             (case findNode (bk_replacements bucket) c of
                Some i \<Rightarrow>
                  (let node = updateNode (bk_replacements bucket ! i) c confirmed now
                   in if confirmed \<and> length (bk_live bucket) < bucketSize
                      then bucket\<lparr>bk_replacements := erase_at i (bk_replacements bucket), bk_live := bk_live bucket @ [node]\<rparr>
                      else bucket\<lparr>bk_replacements := (bk_replacements bucket)[i := node]\<rparr>)
              | None \<Rightarrow>
                  (let node = new_node c confirmed now
                   in if length (bk_live bucket) < bucketSize then bucket\<lparr>bk_live := bk_live bucket @ [node]\<rparr>
                      else
                        let rs = (if length (bk_replacements bucket) = bucketSize then tl (bk_replacements bucket)
                                  else bk_replacements bucket)
                        in bucket\<lparr>bk_replacements := rs @ [node]\<rparr>)))"

definition on_bucket :: "byte list \<Rightarrow> (kad_bucket \<Rightarrow> kad_bucket) \<Rightarrow> kad_table \<Rightarrow> kad_table" where
  "on_bucket i f t =
     (let k = bucketIndex (tb_selfId t) i in t\<lparr>tb_buckets := (tb_buckets t)[k := f (tb_buckets t ! k)]\<rparr>)"

definition addNode :: "kad_contact \<Rightarrow> bool \<Rightarrow> int \<Rightarrow> kad_table \<Rightarrow> kad_table" where
  "addNode c confirmed now t =
     (if \<not> validRoutingContact c \<or> kc_id c = tb_selfId t then t
      else on_bucket (kc_id c) (bucket_add (tb_bucketSize t) c confirmed now) t)"

definition heardAbout :: "kad_contact \<Rightarrow> int \<Rightarrow> kad_table \<Rightarrow> kad_table" where
  "heardAbout c now t = addNode c False now t"

definition nodeSeen :: "kad_contact \<Rightarrow> int \<Rightarrow> kad_table \<Rightarrow> kad_table" where
  "nodeSeen c now t = addNode c True now t"

definition bucket_fail :: "kad_contact \<Rightarrow> kad_bucket \<Rightarrow> kad_bucket" where
  "bucket_fail c bucket =
     (case findNode (bk_live bucket) c of
        Some i \<Rightarrow>
          (let node = bk_live bucket ! i
           in if \<not> rn_confirmed node then bucket\<lparr>bk_live := erase_at i (bk_live bucket)\<rparr>
              else
                let node = node\<lparr>rn_failCount := rn_failCount node + 1\<rparr>
                in case bk_replacements bucket of
                     r # rs \<Rightarrow> bucket\<lparr>bk_live := (bk_live bucket)[i := r], bk_replacements := rs\<rparr>
                   | [] \<Rightarrow>
                       if rn_failCount node \<ge> 20 then bucket\<lparr>bk_live := erase_at i (bk_live bucket)\<rparr>
                       else bucket\<lparr>bk_live := (bk_live bucket)[i := node]\<rparr>)
      | None \<Rightarrow>
          (case findNode (bk_replacements bucket) c of
             Some i \<Rightarrow> bucket\<lparr>bk_replacements := erase_at i (bk_replacements bucket)\<rparr>
           | None \<Rightarrow> bucket))"

definition nodeFailed :: "kad_contact \<Rightarrow> kad_table \<Rightarrow> kad_table" where
  "nodeFailed c t = (if \<not> validId (kc_id c) then t else on_bucket (kc_id c) (bucket_fail c) t)"

definition findClosestExcluding :: "byte list \<Rightarrow> byte list \<Rightarrow> nat \<Rightarrow> bool \<Rightarrow> kad_table \<Rightarrow> kad_contact list option" where
  "findClosestExcluding targetId excludedId limit includeUnconfirmed t =
     (if \<not> validId targetId \<or> excludedId \<noteq> [] \<and> \<not> validId excludedId then None
      else
        let nodes = filter (\<lambda>n. (includeUnconfirmed \<or> rn_confirmed n) \<and> kc_id (rn_contact n) \<noteq> excludedId)
              (concat (map bk_live (tb_buckets t)));
            nodes = sort_key (\<lambda>n. kad_distance (kc_id (rn_contact n)) targetId) nodes;
            nodes = (if limit > 0 \<and> length nodes > limit then take limit nodes else nodes)
        in Some (map rn_contact nodes))"

definition findClosest :: "byte list \<Rightarrow> nat \<Rightarrow> bool \<Rightarrow> kad_table \<Rightarrow> kad_contact list option" where
  "findClosest targetId limit includeUnconfirmed t = findClosestExcluding targetId [] limit includeUnconfirmed t"

definition liveSize :: "kad_table \<Rightarrow> nat" where
  "liveSize t = sum_list (map (\<lambda>b. length (bk_live b)) (tb_buckets t))"

definition replacementSize :: "kad_table \<Rightarrow> nat" where
  "replacementSize t = sum_list (map (\<lambda>b. length (bk_replacements b)) (tb_buckets t))"

definition usefulSize :: "kad_table \<Rightarrow> nat" where
  "usefulSize t = liveSize t + replacementSize t"

definition needBootstrap :: "int \<Rightarrow> kad_table \<Rightarrow> bool \<times> kad_table" where
  "needBootstrap now t =
     (if liveSize t \<noteq> 0 \<or> replacementSize t \<ge> tb_bucketSize t then (False, t)
      else if tb_lastBootstrap t = 0 \<or> now - tb_lastBootstrap t \<ge> 2 then (True, t\<lparr>tb_lastBootstrap := now\<rparr>)
      else (False, t))"

text \<open>The leading bits of the distance pick the bucket; the rest come from \<open>random\<close>, four words of
  the random number generator.\<close>

definition bucket_distance :: "nat \<Rightarrow> 32 word list \<Rightarrow> 32 word list" where
  "bucket_distance index words =
     (if index < farBuckets
      then words[0 := push_bit (32 - splitLevels) (of_nat (index + 1)) OR drop_bit splitLevels (words ! 0)]
      else
        let prefix = min (index - farBuckets + splitLevels) 127;
            words = fold (\<lambda>chunk words. words[chunk := 0]) [0..<prefix div 32] words;
            b = drop_bit (prefix mod 32) 0x80000000
        in words[prefix div 32 := b OR (words ! (prefix div 32) AND (b - 1))])"

definition randomIdIn :: "byte list \<Rightarrow> nat \<Rightarrow> 32 word list \<Rightarrow> byte list" where
  "randomIdIn selfId index random =
     concat (map (\<lambda>chunk. packUInt32 (kad_word selfId chunk XOR bucket_distance index random ! chunk)) [0..<4])"

text \<open>The first of the buckets that were active longest ago, at least 15 minutes.\<close>

definition oldest_bucket :: "int \<Rightarrow> kad_bucket list \<Rightarrow> nat option" where
  "oldest_bucket now buckets =
     fold (\<lambda>i oldest.
         let active = bk_lastActive (buckets ! i)
         in if active = 0 \<or> now - active < 900 then oldest
            else case oldest of
                   None \<Rightarrow> Some i
                 | Some k \<Rightarrow> if active < bk_lastActive (buckets ! k) then Some i else oldest)
       [0..<length buckets] None"

definition needRefresh :: "byte list \<Rightarrow> int \<Rightarrow> 32 word list \<Rightarrow> kad_table \<Rightarrow> bool \<times> byte list \<times> kad_table" where
  "needRefresh targetId now random t =
     (if tb_lastSelfRefresh t = 0 \<or> now - tb_lastSelfRefresh t \<ge> 900
      then (True, tb_selfId t, t\<lparr>tb_lastSelfRefresh := now\<rparr>)
      else if tb_lastRefresh t \<noteq> 0 \<and> now - tb_lastRefresh t < 45 then (False, targetId, t)
      else case oldest_bucket now (tb_buckets t) of
             None \<Rightarrow> (False, targetId, t)
           | Some i \<Rightarrow> (True, randomIdIn (tb_selfId t) i random, t\<lparr>tb_lastRefresh := now\<rparr>))"

section \<open>Routers\<close>

definition addRouterNode :: "endpoint \<Rightarrow> kad_table \<Rightarrow> kad_table" where
  "addRouterNode e t =
     (if host e = [] \<or> port e = 0 then t
      else if \<exists>item \<in> set (tb_routerNodes t). sameEndpoint item e then t
      else t\<lparr>tb_routerNodes := tb_routerNodes t @ [e]\<rparr>)"

definition addRouterContact :: "kad_contact \<Rightarrow> kad_table \<Rightarrow> kad_table" where
  "addRouterContact c t =
     (if \<not> validRoutingContact c then t
      else
        let t = addRouterNode (new_endpoint\<lparr>host := kc_host c, port := kc_udpPort c\<rparr>) t
        in case find_at (\<lambda>item. sameContact item c \<or> sameContactEndpoint item c) (tb_routerContacts t) of
             None \<Rightarrow> t\<lparr>tb_routerContacts := tb_routerContacts t @ [c]\<rparr>
           | Some i \<Rightarrow> t\<lparr>tb_routerContacts := (tb_routerContacts t)[i := c]\<rparr>)"

definition findByEndpoint :: "endpoint \<Rightarrow> kad_table \<Rightarrow> kad_contact option" where
  "findByEndpoint e t =
     find (\<lambda>c. kc_host c = host e \<and> kc_udpPort c = port e)
       (concat (map (\<lambda>b. map rn_contact (bk_live b) @ map rn_contact (bk_replacements b)) (tb_buckets t)) @
        tb_routerContacts t)"

section \<open>Saving and restoring\<close>

definition snapshot :: "kad_table \<Rightarrow> kad_snapshot" where
  "snapshot t = \<lparr>sn_selfId = tb_selfId t, sn_buckets = tb_buckets t, sn_routerNodes = tb_routerNodes t,
     sn_routerContacts = tb_routerContacts t, sn_lastBootstrap = tb_lastBootstrap t, sn_lastRefresh = tb_lastRefresh t,
     sn_lastSelfRefresh = tb_lastSelfRefresh t, sn_lastFirewalledCheck = 0, sn_lastSourcePublish = 0,
     sn_lastSourceSearch = 0, sn_sourceSearchCount = 0, sn_udpVerifyKey = 0, sn_observedAddresses = [],
     sn_firewalled = True\<rparr>"

text \<open>One node of the inner loop: whether it comes from the live list, and when its bucket was active.\<close>

definition restore_node :: "int \<Rightarrow> bool \<Rightarrow> kad_routing_node \<Rightarrow> kad_table \<Rightarrow> kad_table" where
  "restore_node active live node t =
     (if \<not> validId (kc_id (rn_contact node)) then t
      else on_bucket (kc_id (rn_contact node))
        (\<lambda>bucket.
          let bucket = bucket\<lparr>bk_lastActive := max (bk_lastActive bucket) active\<rparr>
          in if live \<and> length (bk_live bucket) < tb_bucketSize t then bucket\<lparr>bk_live := bk_live bucket @ [node]\<rparr>
             else if length (bk_replacements bucket) < tb_bucketSize t
             then bucket\<lparr>bk_replacements := bk_replacements bucket @ [node]\<rparr>
             else bucket) t)"

definition restore_bucket :: "kad_bucket \<Rightarrow> kad_table \<Rightarrow> kad_table" where
  "restore_bucket old t =
     fold (restore_node (bk_lastActive old) False) (bk_replacements old)
       (fold (restore_node (bk_lastActive old) True) (bk_live old) t)"

definition restore :: "kad_snapshot \<Rightarrow> kad_table \<Rightarrow> kad_table option" where
  "restore s t =
     (if \<not> validId (sn_selfId s) then None
      else Some (fold restore_bucket (sn_buckets s)
        (t\<lparr>tb_routerNodes := sn_routerNodes s, tb_routerContacts := sn_routerContacts s,
           tb_lastBootstrap := sn_lastBootstrap s, tb_lastRefresh := sn_lastRefresh s,
           tb_lastSelfRefresh := sn_lastSelfRefresh s, tb_buckets := replicate bucketCount new_bucket\<rparr>)))"

section \<open>Requests under way\<close>

datatype transaction_purpose = BOOTSTRAP | SOURCE_LOOKUP | KEYWORD_LOOKUP | REFRESH | FIREWALLED_CHECK

record kad_transaction =
  tr_endpoint :: endpoint
  tr_contact :: kad_contact
  tr_purpose :: transaction_purpose
  tr_expectedOpcode :: byte
  tr_targetId :: "byte list"
  tr_sentTime :: int

definition transaction_add :: "kad_transaction \<Rightarrow> kad_transaction list \<Rightarrow> kad_transaction list" where
  "transaction_add tr trs = trs @ [tr]"

definition complete_where :: "(kad_transaction \<Rightarrow> bool) \<Rightarrow> kad_transaction list \<Rightarrow> kad_transaction option \<times> kad_transaction list" where
  "complete_where P trs =
     (case find_at P trs of None \<Rightarrow> (None, trs) | Some i \<Rightarrow> (Some (trs ! i), erase_at i trs))"

text \<open>The two overloads of \<open>complete\<close>; \<open>None\<close> is \<open>return false\<close>.\<close>

definition complete_any :: "endpoint \<Rightarrow> byte \<Rightarrow> kad_transaction list \<Rightarrow> kad_transaction option \<times> kad_transaction list" where
  "complete_any e opcode =
     complete_where (\<lambda>item. tr_expectedOpcode item = opcode \<and> sameEndpoint (tr_endpoint item) e)"

definition complete_target ::
  "endpoint \<Rightarrow> byte \<Rightarrow> byte list \<Rightarrow> kad_transaction list \<Rightarrow> kad_transaction option \<times> kad_transaction list" where
  "complete_target e opcode targetId =
     complete_where (\<lambda>item. tr_expectedOpcode item = opcode \<and> tr_targetId item = targetId \<and> sameEndpoint (tr_endpoint item) e)"

definition expire :: "int \<Rightarrow> int \<Rightarrow> kad_transaction list \<Rightarrow> kad_transaction list \<times> kad_transaction list" where
  "expire now timeoutSeconds trs =
     (filter (\<lambda>tr. now - tr_sentTime tr \<ge> timeoutSeconds) trs, filter (\<lambda>tr. \<not> now - tr_sentTime tr \<ge> timeoutSeconds) trs)"

section \<open>Sources published to us\<close>

definition sameSourceEndpoint :: "kad_search_entry \<Rightarrow> kad_search_entry \<Rightarrow> bool option" where
  "sameSourceEndpoint lhs rhs = do {
     l \<leftarrow> extractKadSourceEndpoint lhs;
     case l of
       None \<Rightarrow> Some False
     | Some le \<Rightarrow> do {
         r \<leftarrow> extractKadSourceEndpoint rhs;
         Some (case r of None \<Rightarrow> False | Some re \<Rightarrow> sameEndpoint le re)
       }
   }"

type_synonym source_index = "(byte list \<times> kad_search_entry list) list"

fun find_source :: "kad_search_entry \<Rightarrow> kad_search_entry list \<Rightarrow> nat option option" where
  "find_source source [] = Some None"
| "find_source source (item # items) = do {
     same \<leftarrow> (if ke_id item = ke_id source then Some True else sameSourceEndpoint item source);
     if same then Some (Some 0) else map_option (map_option Suc) (find_source source items)
   }"

fun store_in :: "byte list \<Rightarrow> (kad_search_entry list \<Rightarrow> kad_search_entry list option) \<Rightarrow> source_index \<Rightarrow> source_index option" where
  "store_in fileId f [] = map_option (\<lambda>ss. [(fileId, ss)]) (f [])"
| "store_in fileId f ((i, ss) # bs) =
     (if i = fileId then map_option (\<lambda>ss. (i, ss) # bs) (f ss) else map_option (\<lambda>bs. (i, ss) # bs) (store_in fileId f bs))"

definition store_source :: "byte list \<Rightarrow> kad_search_entry \<Rightarrow> source_index \<Rightarrow> source_index option" where
  "store_source fileId source index =
     (if \<not> validId fileId \<or> \<not> validId (ke_id source) then None
      else store_in fileId
        (\<lambda>ss. do {
           pos \<leftarrow> find_source source ss;
           Some (case pos of None \<Rightarrow> ss @ [source] | Some i \<Rightarrow> ss[i := source])
         }) index)"

definition find_sources :: "byte list \<Rightarrow> nat \<Rightarrow> nat \<Rightarrow> source_index \<Rightarrow> kad_search_entry list option" where
  "find_sources fileId startPosition limit index =
     (if \<not> validId fileId then None
      else case map_of index fileId of
             None \<Rightarrow> Some []
           | Some ss \<Rightarrow>
               if startPosition \<ge> length ss then Some []
               else
                 let stop = (if limit = 0 then length ss else min (length ss) (startPosition + limit))
                 in Some (take (stop - startPosition) (drop startPosition ss)))"

definition source_count :: "source_index \<Rightarrow> nat" where
  "source_count index = sum_list (map (\<lambda>(_, ss). length ss) index)"

section \<open>Buckets stay in shape\<close>

lemma find_at_Some: "find_at P xs = Some i \<Longrightarrow> i < length xs \<and> P (xs ! i) \<and> (\<forall>j < i. \<not> P (xs ! j))"
  by (induction xs arbitrary: i) (auto simp: nth_Cons split: if_splits nat.splits)

lemma find_at_None: "find_at P xs = None \<longleftrightarrow> (\<forall>x \<in> set xs. \<not> P x)"
  by (induction xs) auto

lemma length_erase_at: "i < length xs \<Longrightarrow> length (erase_at i xs) = length xs - 1"
  by (simp add: erase_at_def)

lemma set_erase_at: "set (erase_at i xs) \<subseteq> set xs"
  by (auto simp: erase_at_def dest: in_set_takeD in_set_dropD)

lemma list_all_erase_at: "list_all P xs \<Longrightarrow> list_all P (erase_at i xs)"
  using set_erase_at by (fastforce simp: list_all_iff)

lemma list_all_update: "list_all P xs \<Longrightarrow> P x \<Longrightarrow> list_all P (xs[i := x])"
  using set_update_subset_insert [of xs i x] by (auto simp: list_all_iff)

lemma leading_bit_less: "leading_bit x = Some b \<Longrightarrow> b < 32"
  by (auto simp: leading_bit_def find_Some_iff)

lemma top_bits: "unat (drop_bit (32 - splitLevels) (x :: 32 word)) \<le> farBuckets"
proof -
  have "unat x < 2 ^ 32" using unsigned_less [of x, where ?'a = nat] by simp
  then have "unat x div 2 ^ 28 < 16" by (simp add: div_less_iff_less_mult)
  then show ?thesis by (simp add: splitLevels_def farBuckets_def drop_bit_eq_div unat_div)
qed

lemma bucket_from_less: "list_all (\<lambda>c. c < 4) cs \<Longrightarrow> bucket_from cs selfId i < bucketCount"
proof (induction cs)
  case (Cons c cs)
  define x where "x = kad_word selfId c XOR kad_word i c"
  have "unat (drop_bit (32 - splitLevels) x) - 1 < bucketCount"
    using top_bits [of x] by (simp add: bucketCount_def splitLevels_def farBuckets_def)
  moreover have "farBuckets + c * 32 + b - splitLevels < bucketCount" if "leading_bit x = Some b" for b
    using leading_bit_less [OF that] Cons.prems by (simp add: bucketCount_def splitLevels_def farBuckets_def)
  ultimately show ?case using Cons by (auto simp: x_def [symmetric] Let_def split: option.splits)
qed (simp add: bucketCount_def splitLevels_def farBuckets_def)

lemma bucketIndex_less: "bucketIndex selfId i < bucketCount"
  unfolding bucketIndex_def by (rule bucket_from_less) (simp add: upt_numerals)

definition placed :: "byte list \<Rightarrow> nat \<Rightarrow> kad_routing_node \<Rightarrow> bool" where
  "placed selfId k n \<longleftrightarrow> validId (kc_id (rn_contact n)) \<and> bucketIndex selfId (kc_id (rn_contact n)) = k"

definition bucket_ok :: "byte list \<Rightarrow> nat \<Rightarrow> nat \<Rightarrow> kad_bucket \<Rightarrow> bool" where
  "bucket_ok selfId sz k b \<longleftrightarrow> length (bk_live b) \<le> sz \<and> length (bk_replacements b) \<le> sz \<and>
     list_all (placed selfId k) (bk_live b) \<and> list_all (placed selfId k) (bk_replacements b)"

definition table_ok :: "kad_table \<Rightarrow> bool" where
  "table_ok t \<longleftrightarrow> validId (tb_selfId t) \<and> 0 < tb_bucketSize t \<and> length (tb_buckets t) = bucketCount \<and>
     (\<forall>k < bucketCount. bucket_ok (tb_selfId t) (tb_bucketSize t) k (tb_buckets t ! k))"

lemma updateNode_id [simp]: "kc_id (rn_contact (updateNode n c confirmed now)) = kc_id c"
  by (simp add: updateNode_def Let_def)

lemma bucket_add_ok:
  assumes b: "bucket_ok selfId sz k b" and "validId (kc_id c)" "bucketIndex selfId (kc_id c) = k" and "0 < sz"
  shows "bucket_ok selfId sz k (bucket_add sz c confirmed now b)"
proof -
  have p: "placed selfId k (updateNode n c f now)" "placed selfId k (new_node c f now)" for n f
    using assms(2,3) by (simp_all add: placed_def new_node_def)
  have e: "findNode xs c = Some i \<Longrightarrow> Suc (length (erase_at i xs)) = length xs" for xs i
    by (auto simp: findNode_def length_erase_at dest!: find_at_Some)
  have t: "list_all P (tl xs)" if "list_all P xs" for P :: "kad_routing_node \<Rightarrow> bool" and xs using that by (cases xs) auto
  show ?thesis
    using b assms(4) unfolding bucket_ok_def bucket_add_def
    by (auto simp: Let_def p e [THEN eq_imp_le] less_Suc_eq_le Suc_le_eq list_all_erase_at list_all_update t
        dest: e split: option.splits)
qed

lemma bucket_fail_ok:
  assumes "bucket_ok selfId sz k b"
  shows "bucket_ok selfId sz k (bucket_fail c b)"
proof -
  have e: "length (erase_at i xs) \<le> sz" if "length xs \<le> sz" for i and xs :: "kad_routing_node list"
    using that by (simp add: erase_at_def)
  have "placed selfId k (n\<lparr>rn_failCount := f\<rparr>) = placed selfId k n" for n f by (simp add: placed_def)
  moreover have "placed selfId k (bk_live b ! i)" if "findNode (bk_live b) c = Some i" for i
    using that assms by (auto simp: findNode_def bucket_ok_def list_all_length dest!: find_at_Some)
  ultimately show ?thesis
    using assms unfolding bucket_ok_def bucket_fail_def
    by (auto simp: Let_def e list_all_erase_at list_all_update split: option.splits list.splits)
qed

lemma on_bucket_ok:
  assumes "table_ok t"
    and "\<And>b. bucket_ok (tb_selfId t) (tb_bucketSize t) (bucketIndex (tb_selfId t) i) b \<Longrightarrow>
      bucket_ok (tb_selfId t) (tb_bucketSize t) (bucketIndex (tb_selfId t) i) (f b)"
  shows "table_ok (on_bucket i f t)"
  using assms bucketIndex_less [of "tb_selfId t" i] unfolding table_ok_def on_bucket_def
  by (auto simp: Let_def nth_list_update)

lemma addNode_ok: "table_ok t \<Longrightarrow> table_ok (addNode c confirmed now t)"
  unfolding addNode_def
  by (auto intro!: on_bucket_ok bucket_add_ok simp: validRoutingContact_def) (simp_all add: table_ok_def)

lemma nodeFailed_ok: "table_ok t \<Longrightarrow> table_ok (nodeFailed c t)"
  unfolding nodeFailed_def by (auto intro!: on_bucket_ok bucket_fail_ok)

lemma restore_node_ok: "table_ok t \<Longrightarrow> table_ok (restore_node active live n t)"
  unfolding restore_node_def
  by (auto intro!: on_bucket_ok simp: bucket_ok_def Let_def placed_def)

lemma restore_bucket_ok: "table_ok t \<Longrightarrow> table_ok (restore_bucket b t)"
proof -
  have f: "table_ok t \<Longrightarrow> table_ok (fold (restore_node active live) ns t)" for active live ns t
    by (induction ns arbitrary: t) (simp_all add: restore_node_ok)
  then show "table_ok t \<Longrightarrow> table_ok (restore_bucket b t)" by (simp add: restore_bucket_def)
qed

lemma empty_buckets_ok:
  "validId (tb_selfId t) \<Longrightarrow> 0 < tb_bucketSize t \<Longrightarrow> tb_buckets t = replicate bucketCount new_bucket \<Longrightarrow> table_ok t"
  by (simp add: table_ok_def bucket_ok_def new_bucket_def)

lemma new_table_ok: "new_table i n = Some t \<Longrightarrow> table_ok t"
  by (rule empty_buckets_ok) (auto simp: new_table_def split: if_splits)

lemma restore_ok:
  assumes "restore s t = Some t'" and "table_ok t"
  shows "table_ok t'"
proof -
  have f: "table_ok t \<Longrightarrow> table_ok (fold restore_bucket bs t)" for bs t
    by (induction bs arbitrary: t) (simp_all add: restore_bucket_ok)
  have "table_ok (t\<lparr>tb_routerNodes := sn_routerNodes s, tb_routerContacts := sn_routerContacts s,
       tb_lastBootstrap := sn_lastBootstrap s, tb_lastRefresh := sn_lastRefresh s,
       tb_lastSelfRefresh := sn_lastSelfRefresh s, tb_buckets := replicate bucketCount new_bucket\<rparr>)"
    using assms(2) by (intro empty_buckets_ok) (simp_all add: table_ok_def)
  from f [OF this] show ?thesis using assms(1) by (auto simp: restore_def split: if_splits)
qed

lemma other_fields_ok [simp]:
  "table_ok (t\<lparr>tb_routerNodes := a\<rparr>) = table_ok t" "table_ok (t\<lparr>tb_routerContacts := b\<rparr>) = table_ok t"
  "table_ok (t\<lparr>tb_lastBootstrap := x\<rparr>) = table_ok t" "table_ok (t\<lparr>tb_lastRefresh := x\<rparr>) = table_ok t"
  "table_ok (t\<lparr>tb_lastSelfRefresh := x\<rparr>) = table_ok t"
  by (simp_all add: table_ok_def)

lemma addRouterNode_ok: "table_ok t \<Longrightarrow> table_ok (addRouterNode e t)"
  by (simp add: addRouterNode_def)

lemma addRouterContact_ok: "table_ok t \<Longrightarrow> table_ok (addRouterContact c t)"
  by (simp add: addRouterContact_def Let_def addRouterNode_ok split: option.splits)

text \<open>The operations of a table, as steps.\<close>

inductive table_step :: "kad_table \<Rightarrow> kad_table \<Rightarrow> bool" where
  heard: "table_step t (heardAbout c now t)"
| seen: "table_step t (nodeSeen c now t)"
| failed: "table_step t (nodeFailed c t)"
| bootstrap: "needBootstrap now t = (r, t') \<Longrightarrow> table_step t t'"
| refresh: "needRefresh old now random t = (r, target, t') \<Longrightarrow> table_step t t'"
| router: "table_step t (addRouterNode e t)"
| contact: "table_step t (addRouterContact c t)"
| restored: "restore s t = Some t' \<Longrightarrow> table_step t t'"

lemma table_step_ok: "table_ok t \<Longrightarrow> table_step t t' \<Longrightarrow> table_ok t'"
  by (erule table_step.cases)
    (auto simp: heardAbout_def nodeSeen_def addNode_ok nodeFailed_ok addRouterNode_ok addRouterContact_ok restore_ok
      needBootstrap_def needRefresh_def split: if_splits option.splits)

interpretation routing: transition_system "\<lambda>t. \<exists>i n. new_table i n = Some t" table_step table_ok
  by unfold_locales (use new_table_ok table_step_ok in blast)+

section \<open>Identifiers in a bucket\<close>

lemma drop_bit_exp: "b \<le> m \<Longrightarrow> m < 32 \<Longrightarrow> drop_bit b (2 ^ m :: 32 word) = 2 ^ (m - b)"
  by (rule bit_word_eqI) (auto simp: bit_drop_bit_eq bit_exp_iff possible_bit_word)

lemma high_bit: "b < 32 \<Longrightarrow> drop_bit b (0x80000000 :: 32 word) = 2 ^ (31 - b)"
  using drop_bit_exp [of b 31] by simp

lemma leading_bit_iff: "leading_bit x = find (\<lambda>b. bit x (31 - b)) [0..<32]"
  unfolding leading_bit_def
  by (rule find_cong [OF refl]) (simp add: high_bit and_exp_eq_0_iff_not_bit)

lemma leading_bit_exact:
  assumes "b < 32" and "bit x (31 - b)" and "\<And>n. n > 31 - b \<Longrightarrow> \<not> bit x n"
  shows "leading_bit x = Some b"
  unfolding leading_bit_iff find_Some_iff
  using assms by (intro exI [of _ b]) auto

text \<open>The word that decides the bucket: its highest bit is the given one.\<close>

lemma picked_word:
  assumes "b < 32"
  defines "h \<equiv> drop_bit b (0x80000000 :: 32 word)"
  shows "bit (h OR (r AND (h - 1))) n \<longleftrightarrow> n = 31 - b \<or> (n < 31 - b \<and> bit r n)"
proof -
  have h: "h = 2 ^ (31 - b)" unfolding h_def using assms(1) by (rule high_bit)
  have "h - 1 = mask (31 - b)" by (simp add: h mask_eq_exp_minus_1)
  then show ?thesis using assms(1)
    by (auto simp: h bit_or_iff bit_and_iff bit_mask_iff bit_exp_iff possible_bit_word dest: bit_imp_le_length)
qed

lemma length_zero_prefix [simp]: "length (fold (\<lambda>k ws. ws[k := 0]) ks ws) = length ws"
  by (induction ks arbitrary: ws) simp_all

lemma zero_prefix:
  "j < length ws \<Longrightarrow> fold (\<lambda>k ws. ws[k := 0 :: 32 word]) [0..<c] ws ! j = (if j < c then 0 else ws ! j)"
  by (induction c) (auto simp: nth_list_update less_Suc_eq)

lemma kad_word_packed:
  assumes "chunk < 4"
  shows "kad_word (concat (map (\<lambda>c. packUInt32 (f c)) [0..<4])) chunk = f chunk"
proof -
  have t: "readUInt32 (packUInt32 w @ r) = w" "readUInt32 (packUInt32 w) = w" for w r
    using read_pack(2) [of w] by (simp_all add: readUInt32_def nth_append)
  have "chunk \<in> set [0, 1, 2, 3]" using assms by auto
  then show ?thesis by (auto simp: kad_word_def upt_numerals t drop_append)
qed

lemma word_of_random:
  "chunk < 4 \<Longrightarrow> kad_word selfId chunk XOR kad_word (randomIdIn selfId index random) chunk = bucket_distance index random ! chunk"
  unfolding randomIdIn_def by (simp add: kad_word_packed xor.assoc [symmetric])

lemma far_distance:
  assumes "index < farBuckets" and "length random = 4"
  shows "unat (drop_bit (32 - splitLevels) (bucket_distance index random ! 0)) = Suc index"
proof -
  define n where "n = index + 1"
  have n: "n < 16" using assms(1) by (simp add: n_def farBuckets_def)
  have u: "unat (of_nat n :: 32 word) = n" using n by (simp add: unat_of_nat)
  have "take_bit 4 (of_nat n :: 32 word) = of_nat n"
    by (rule unsigned_word_eqI [where ?'a = nat]) (use n u in \<open>simp add: unsigned_take_bit_eq take_bit_nat_eq_self\<close>)
  then have k: "bit (of_nat n :: 32 word) k \<Longrightarrow> k < 4" for k by (metis bit_take_bit_iff)
  have "drop_bit 28 (push_bit 28 (of_nat n) OR drop_bit 4 r) = (of_nat n :: 32 word)" for r :: "32 word"
    by (rule bit_word_eqI)
      (auto simp: bit_drop_bit_eq bit_or_iff bit_push_bit_iff dest: k bit_imp_le_length)
  moreover have "bucket_distance index random ! 0 = push_bit 28 (of_nat n) OR drop_bit 4 (random ! 0)"
    using assms by (simp add: bucket_distance_def splitLevels_def n_def)
  ultimately show ?thesis using u by (simp only: splitLevels_def) (simp add: n_def)
qed

lemma near_distance:
  assumes "farBuckets \<le> index" and "index < bucketCount" and "length random = 4"
  defines "p \<equiv> index - farBuckets + splitLevels"
  shows "p div 32 < 4" "\<And>c. c < p div 32 \<Longrightarrow> bucket_distance index random ! c = 0"
    "leading_bit (bucket_distance index random ! (p div 32)) = Some (p mod 32)"
    "p div 32 = 0 \<Longrightarrow> drop_bit (32 - splitLevels) (bucket_distance index random ! 0) = 0"
proof -
  define b where "b = p mod 32"
  have b: "b < 32" by (simp add: b_def)
  have p: "p \<le> 127" "splitLevels \<le> p" using assms(1,2) by (auto simp: p_def bucketCount_def farBuckets_def splitLevels_def)
  show c: "p div 32 < 4" using p by simp
  obtain r where w: "bucket_distance index random ! (p div 32) =
      drop_bit b 0x80000000 OR (r AND (drop_bit b 0x80000000 - 1))"
    using assms(1,3) c p by (auto simp: bucket_distance_def Let_def p_def [symmetric] b_def [symmetric] min_def zero_prefix)
  show "bucket_distance index random ! c = 0" if "c < p div 32" for c
    using that assms(1,3) p by (simp add: bucket_distance_def Let_def p_def [symmetric] min_def zero_prefix)
  show "leading_bit (bucket_distance index random ! (p div 32)) = Some (p mod 32)"
    unfolding w b_def [symmetric]
    by (rule leading_bit_exact [OF b]) (simp_all only: picked_word [OF b], auto)
  show "drop_bit (32 - splitLevels) (bucket_distance index random ! 0) = 0" if z: "p div 32 = 0"
  proof -
    have "4 \<le> b" using z p by (simp add: b_def splitLevels_def)
    then have "\<not> bit (bucket_distance index random ! 0) (28 + n)" for n
      unfolding w [unfolded z] picked_word [OF b] by linarith
    then show ?thesis by (intro bit_word_eqI) (simp add: bit_drop_bit_eq splitLevels_def)
  qed
qed

lemma randomId_bucket:
  assumes "index < bucketCount" and "length random = 4"
  shows "bucketIndex selfId (randomIdIn selfId index random) = index"
proof (cases "index < farBuckets")
  case True
  define x where "x = bucket_distance index random ! 0"
  have u: "unat (drop_bit (32 - splitLevels) x) = Suc index" unfolding x_def by (rule far_distance [OF True assms(2)])
  then have "drop_bit (32 - splitLevels) x \<noteq> 0" "x \<noteq> 0" by auto
  then show ?thesis using u word_of_random [of 0 selfId index random]
    by (simp add: bucketIndex_def upt_numerals x_def Let_def)
next
  case False
  define p where "p = index - farBuckets + splitLevels"
  have far: "farBuckets \<le> index" using False by simp
  note near = near_distance [OF far assms, folded p_def]
  define w where "w = bucket_distance index random"
  have x: "kad_word selfId c XOR kad_word (randomIdIn selfId index random) c = w ! c" if "c < 4" for c
    using word_of_random [OF that] by (simp add: w_def)
  have "leading_bit 0 = None" by (simp add: leading_bit_iff find_None_iff)
  then have n: "w ! (p div 32) \<noteq> 0" using near(3) by (metis option.distinct(1) w_def)
  have i: "farBuckets + p div 32 * 32 + p mod 32 - splitLevels = index"
    using far div_mult_mod_eq [of p 32] by (simp add: p_def farBuckets_def splitLevels_def)
  have "bucket_from ks selfId (randomIdIn selfId index random) = index"
    if "p div 32 \<in> set ks" "sorted_wrt (<) ks" "set ks \<subseteq> {..<4}" for ks
    using that
  proof (induction ks)
    case (Cons k ks)
    then consider "k = p div 32" | "k < p div 32" by auto
    then show ?case
    proof cases
      case 1
      then show ?thesis using Cons.prems x n near(3,4) i by (auto simp: w_def Let_def)
    next
      case 2
      then have "w ! k = 0" using near(2) by (simp add: w_def)
      then show ?thesis using 2 Cons x by (auto simp: Let_def)
    qed
  qed simp
  from this [of "[0..<4]"] show ?thesis unfolding bucketIndex_def using near(1) by (simp add: sorted_wrt_upt atLeast0LessThan)
qed

section \<open>The closest contacts\<close>

lemma lexicographic: "x < B \<Longrightarrow> y < B \<Longrightarrow> a * B + x < c * B + y \<longleftrightarrow> a < c \<or> a = c \<and> x < (y :: nat)"
proof -
  assume xy: "x < B" "y < B"
  have "a * B + x < c * B + y" if "a < c"
  proof -
    have "(a + 1) * B \<le> c * B" using that by (intro mult_le_mono1) simp
    then show ?thesis using xy by simp
  qed
  moreover have "c * B + y < a * B + x" if "c < a"
  proof -
    have "(c + 1) * B \<le> a * B" using that by (intro mult_le_mono1) simp
    then show ?thesis using xy by simp
  qed
  ultimately show ?thesis by (metis add_less_cancel_left linorder_cases order.asym)
qed

lemma lexicographic_eq: "x < B \<Longrightarrow> y < B \<Longrightarrow> a * B + x = c * B + y \<longleftrightarrow> a = c \<and> x = (y :: nat)"
  using lexicographic [of x B y a c] lexicographic [of y B x c a] by (metis less_irrefl nat_neq_iff)

text \<open>\<open>distanceCompare\<close> orders by the distance as one 128 bit number.\<close>

lemma distanceCompare_less:
  "distanceCompare a b t < 0 \<longleftrightarrow> kad_distance a t < kad_distance b t"
  "distanceCompare a b t = 0 \<longleftrightarrow> kad_distance a t = kad_distance b t"
proof -
  define d where "d i k = unat (kad_word i k XOR kad_word t k)" for i k
  have d: "d i k < 2 ^ 32" for i k using unsigned_less [of "kad_word i k XOR kad_word t k", where ?'a = nat] by (simp add: d_def)
  have k: "kad_distance i t = ((d i 0 * 2 ^ 32 + d i 1) * 2 ^ 32 + d i 2) * 2 ^ 32 + d i 3" for i
    by (simp add: kad_distance_def upt_numerals d_def)
  have c: "distanceCompare a b t = (if d a 0 < d b 0 then - 1 else if d a 0 > d b 0 then 1
      else if d a 1 < d b 1 then - 1 else if d a 1 > d b 1 then 1 else if d a 2 < d b 2 then - 1 else if d a 2 > d b 2 then 1
      else if d a 3 < d b 3 then - 1 else if d a 3 > d b 3 then 1 else 0)" for a b
    by (simp add: distanceCompare_def upt_numerals Let_def d_def word_less_nat_alt)
  show less: "distanceCompare a b t < 0 \<longleftrightarrow> kad_distance a t < kad_distance b t" for a b
    unfolding c k by (simp only: lexicographic [OF d d] lexicographic_eq [OF d d]) auto
  have "distanceCompare b a t = - distanceCompare a b t" unfolding c by auto
  then show "distanceCompare a b t = 0 \<longleftrightarrow> kad_distance a t = kad_distance b t"
    using less [of a b] less [of b a] by linarith
qed

definition eligible :: "byte list \<Rightarrow> bool \<Rightarrow> kad_table \<Rightarrow> kad_contact list" where
  "eligible excluded includeUnconfirmed t = map rn_contact
     (filter (\<lambda>n. (includeUnconfirmed \<or> rn_confirmed n) \<and> kc_id (rn_contact n) \<noteq> excluded) (concat (map bk_live (tb_buckets t))))"

lemma findClosest_exact:
  assumes "findClosestExcluding target excluded limit unconfirmed t = Some cs"
  shows "sorted (map (\<lambda>c. kad_distance (kc_id c) target) cs) \<and>
    length cs = (if limit = 0 then length (eligible excluded unconfirmed t) else min limit (length (eligible excluded unconfirmed t))) \<and>
    (\<exists>rest. mset (eligible excluded unconfirmed t) = mset cs + mset rest \<and>
       (\<forall>c \<in> set cs. \<forall>r \<in> set rest. distanceCompare (kc_id c) (kc_id r) target \<le> 0))"
proof -
  define ns where "ns = filter (\<lambda>n. (unconfirmed \<or> rn_confirmed n) \<and> kc_id (rn_contact n) \<noteq> excluded) (concat (map bk_live (tb_buckets t)))"
  define key where "key = (\<lambda>c :: kad_contact. kad_distance (kc_id c) target)"
  define ms where "ms = map rn_contact (sort_key (\<lambda>n. key (rn_contact n)) ns)"
  define k where "k = (if limit = 0 then length ms else limit)"
  have cs: "cs = take k ms"
    using assms by (auto simp: findClosestExcluding_def ns_def [symmetric] ms_def key_def k_def Let_def take_map split: if_splits)
  have e: "eligible excluded unconfirmed t = map rn_contact ns" by (simp add: eligible_def ns_def)
  have so: "sorted (map key ms)" using sorted_sort_key [of "\<lambda>n. key (rn_contact n)" ns] by (simp add: ms_def comp_def)
  then have "sorted (map key (take k ms) @ map key (drop k ms))" by (simp only: map_append [symmetric] append_take_drop_id)
  then have "\<forall>c \<in> set cs. \<forall>r \<in> set (drop k ms). key c \<le> key r" and "sorted (map key cs)" by (auto simp: sorted_append cs)
  moreover have "mset (eligible excluded unconfirmed t) = mset cs + mset (drop k ms)"
    unfolding e cs mset_append [symmetric] append_take_drop_id by (simp add: ms_def)
  moreover have "length cs = (if limit = 0 then length (eligible excluded unconfirmed t) else min limit (length (eligible excluded unconfirmed t)))"
    by (simp add: cs k_def e ms_def min.commute)
  moreover have "key c \<le> key r \<longleftrightarrow> distanceCompare (kc_id c) (kc_id r) target \<le> 0" for c r
    using distanceCompare_less [of "kc_id c" "kc_id r" target] by (auto simp: key_def le_less)
  ultimately show ?thesis unfolding key_def by blast
qed

section \<open>Restart\<close>

text \<open>What restoring gives for a bucket: an empty one has not been active.\<close>

definition restored_bucket :: "kad_bucket \<Rightarrow> kad_bucket" where
  "restored_bucket b = (if bk_live b = [] \<and> bk_replacements b = [] then new_bucket else b)"

lemma restore_nodes:
  assumes "list_all (placed (tb_selfId t) k) ns" and "k < length (tb_buckets t)"
    and "length (if live then bk_live (tb_buckets t ! k) else bk_replacements (tb_buckets t ! k)) + length ns \<le> tb_bucketSize t"
  shows "fold (restore_node active live) ns t =
    t\<lparr>tb_buckets := (tb_buckets t)[k :=
      (let b = tb_buckets t ! k;
           b = (if ns = [] then b else b\<lparr>bk_lastActive := max (bk_lastActive b) active\<rparr>)
       in if live then b\<lparr>bk_live := bk_live b @ ns\<rparr> else b\<lparr>bk_replacements := bk_replacements b @ ns\<rparr>)]\<rparr>"
  using assms
proof (induction ns arbitrary: t)
  case (Cons n ns)
  then have "restore_node active live n t = t\<lparr>tb_buckets := (tb_buckets t)[k :=
      (let b = (tb_buckets t ! k)\<lparr>bk_lastActive := max (bk_lastActive (tb_buckets t ! k)) active\<rparr>
       in if live then b\<lparr>bk_live := bk_live b @ [n]\<rparr> else b\<lparr>bk_replacements := bk_replacements b @ [n]\<rparr>)]\<rparr>"
    by (auto simp: restore_node_def on_bucket_def placed_def Let_def)
  then show ?case using Cons by (cases live; cases "ns = []") (simp_all add: Let_def)
qed (simp add: Let_def)

lemma restore_bucket_fresh:
  assumes "bucket_ok (tb_selfId t) (tb_bucketSize t) k b" and "k < length (tb_buckets t)" and "tb_buckets t ! k = new_bucket"
    and "0 \<le> bk_lastActive b"
  shows "restore_bucket b t = t\<lparr>tb_buckets := (tb_buckets t)[k := restored_bucket b]\<rparr>"
proof -
  define t1 where "t1 = fold (restore_node (bk_lastActive b) True) (bk_live b) t"
  define b1 where "b1 = new_bucket\<lparr>bk_lastActive := (if bk_live b = [] then 0 else bk_lastActive b), bk_live := bk_live b\<rparr>"
  have t1: "t1 = t\<lparr>tb_buckets := (tb_buckets t)[k := b1]\<rparr>"
    unfolding t1_def using assms
    by (subst restore_nodes [where k = k]) (auto simp: bucket_ok_def new_bucket_def b1_def Let_def)
  have "fold (restore_node (bk_lastActive b) False) (bk_replacements b) t1 =
      t\<lparr>tb_buckets := (tb_buckets t)[k := restored_bucket b]\<rparr>"
    using assms by (cases b, subst restore_nodes [where k = k])
      (auto simp: t1 bucket_ok_def b1_def new_bucket_def restored_bucket_def Let_def)
  then show ?thesis by (simp add: restore_bucket_def t1_def)
qed

lemma restore_buckets:
  assumes "\<And>k. k < length bs \<Longrightarrow> bucket_ok (tb_selfId t) (tb_bucketSize t) k (bs ! k) \<and> 0 \<le> bk_lastActive (bs ! k)"
    and "tb_buckets t = replicate n new_bucket" and "length bs \<le> n"
  shows "fold restore_bucket bs t = t\<lparr>tb_buckets := map restored_bucket bs @ replicate (n - length bs) new_bucket\<rparr>"
  using assms(1,3)
proof (induction bs rule: rev_induct)
  case Nil
  then show ?case by (simp add: assms(2) [symmetric])
next
  case (snoc b bs)
  define t1 where "t1 = fold restore_bucket bs t"
  have k: "bucket_ok (tb_selfId t) (tb_bucketSize t) (length bs) b" "0 \<le> bk_lastActive b"
    using snoc.prems(1) [of "length bs"] by simp_all
  have "bucket_ok (tb_selfId t) (tb_bucketSize t) k (bs ! k) \<and> 0 \<le> bk_lastActive (bs ! k)" if "k < length bs" for k
    using snoc.prems(1) [of k] that by (simp add: nth_append)
  then have t1: "t1 = t\<lparr>tb_buckets := map restored_bucket bs @ replicate (n - length bs) new_bucket\<rparr>"
    unfolding t1_def using snoc.prems(2) by (intro snoc.IH) simp_all
  have "restore_bucket b t1 = t1\<lparr>tb_buckets := (tb_buckets t1)[length bs := restored_bucket b]\<rparr>"
    using k snoc.prems(2) by (intro restore_bucket_fresh) (simp_all add: t1 nth_append)
  moreover have "n - length bs = Suc (n - Suc (length bs))" using snoc.prems(2) by simp
  ultimately show ?case by (simp add: t1_def [symmetric]) (simp add: t1 list_update_append)
qed

lemma saved_bucket_ok: "bucket_ok i n k b \<Longrightarrow> bucket_ok i n k (saved_bucket b)"
  by (simp add: bucket_ok_def saved_bucket_def list_all_iff placed_def saved_node_def plain_def)

text \<open>The table as it is after a restart.\<close>

definition restarted :: "kad_table \<Rightarrow> kad_table" where
  "restarted t = t\<lparr>tb_buckets := map (\<lambda>b. restored_bucket (saved_bucket b)) (tb_buckets t),
     tb_routerNodes := map bare (tb_routerNodes t)\<rparr>"

lemma restart:
  assumes "table_ok t" and "list_all (\<lambda>b. 0 \<le> bk_lastActive b) (tb_buckets t)" and "new_table (tb_selfId t) (tb_bucketSize t) = Some t0"
  shows "restore (saved_snapshot (snapshot t)) t0 = Some (restarted t)"
proof -
  define s where "s = saved_snapshot (snapshot t)"
  define t1 where "t1 = t0\<lparr>tb_routerNodes := sn_routerNodes s, tb_routerContacts := sn_routerContacts s,
           tb_lastBootstrap := sn_lastBootstrap s, tb_lastRefresh := sn_lastRefresh s,
           tb_lastSelfRefresh := sn_lastSelfRefresh s, tb_buckets := replicate bucketCount new_bucket\<rparr>"
  have v: "validId (tb_selfId t)" and sz: "0 < tb_bucketSize t" and l: "length (tb_buckets t) = bucketCount"
    using assms(1) by (simp_all add: table_ok_def)
  have t0: "tb_selfId t0 = tb_selfId t" "tb_bucketSize t0 = tb_bucketSize t"
    using assms(3) sz v by (auto simp: new_table_def)
  have s: "sn_selfId s = tb_selfId t" "sn_buckets s = map saved_bucket (tb_buckets t)"
    by (simp_all add: s_def saved_snapshot_def snapshot_def)
  have "fold restore_bucket (sn_buckets s) t1 =
      t1\<lparr>tb_buckets := map restored_bucket (sn_buckets s) @ replicate (bucketCount - length (sn_buckets s)) new_bucket\<rparr>"
  proof (rule restore_buckets)
    show "bucket_ok (tb_selfId t1) (tb_bucketSize t1) k (sn_buckets s ! k) \<and> 0 \<le> bk_lastActive (sn_buckets s ! k)"
      if "k < length (sn_buckets s)" for k
      using that assms(1,2) l by (simp add: s t1_def t0 table_ok_def saved_bucket_ok list_all_length) (simp add: saved_bucket_def)
  qed (simp_all add: t1_def s l)
  moreover have "t1\<lparr>tb_buckets := map restored_bucket (map saved_bucket (tb_buckets t))\<rparr> = restarted t"
    using t0 by (cases t; cases t0) (simp add: t1_def restarted_def s_def saved_snapshot_def snapshot_def)
  ultimately show ?thesis
    using v by (simp add: restore_def s_def [symmetric] s t1_def [symmetric] l)
qed

lemma oldest_bucket_fold:
  fixes now bs
  defines "el \<equiv> \<lambda>k. bk_lastActive (bs ! k) \<noteq> 0 \<and> \<not> now - bk_lastActive (bs ! k) < 900"
  defines "pick \<equiv> \<lambda>i oldest. let active = bk_lastActive (bs ! i)
         in if active = 0 \<or> now - active < 900 then oldest
            else case oldest of
                   None \<Rightarrow> Some i
                 | Some k \<Rightarrow> if active < bk_lastActive (bs ! k) then Some i else oldest"
  shows "case fold pick [0..<n] None of
      None \<Rightarrow> \<forall>k < n. \<not> el k
    | Some i \<Rightarrow> i < n \<and> el i \<and> (\<forall>k < n. el k \<longrightarrow> bk_lastActive (bs ! i) \<le> bk_lastActive (bs ! k))"
proof (induction n)
  case (Suc n)
  then show ?case
    by (cases "fold pick [0..<n] None") (fastforce simp: pick_def el_def Let_def less_Suc_eq)+
qed simp

lemma oldest_bucket_exact:
  fixes bs :: "kad_bucket list"
  shows "case oldest_bucket now bs of
      None \<Rightarrow> \<forall>k < length bs. \<not> (bk_lastActive (bs ! k) \<noteq> 0 \<and> \<not> now - bk_lastActive (bs ! k) < 900)
    | Some i \<Rightarrow> i < length bs \<and> (bk_lastActive (bs ! i) \<noteq> 0 \<and> \<not> now - bk_lastActive (bs ! i) < 900) \<and>
        (\<forall>k < length bs. bk_lastActive (bs ! k) \<noteq> 0 \<and> \<not> now - bk_lastActive (bs ! k) < 900 \<longrightarrow>
           bk_lastActive (bs ! i) \<le> bk_lastActive (bs ! k))"
  unfolding oldest_bucket_def by (rule oldest_bucket_fold)

section \<open>Properties\<close>

text \<open>
  C9. In every history of a routing table, restarts included, each bucket keeps at most
  \<open>bucketSize\<close> contacts and as many replacements, every contact lies in the one bucket that belongs
  to its distance from us, and there are always 139 buckets.
\<close>

theorem kad_table_always_ok:
  assumes "new_table selfId bucketSize = Some t" and "table_step\<^sup>*\<^sup>* t t'"
  shows "length (tb_buckets t') = 139 \<and>
    (\<forall>k < 139. length (bk_live (tb_buckets t' ! k)) \<le> tb_bucketSize t' \<and>
       length (bk_replacements (tb_buckets t' ! k)) \<le> tb_bucketSize t' \<and>
       (\<forall>n \<in> set (bk_live (tb_buckets t' ! k)) \<union> set (bk_replacements (tb_buckets t' ! k)).
          validId (kc_id (rn_contact n)) \<and> bucketIndex (tb_selfId t') (kc_id (rn_contact n)) = k))"
proof -
  have "bucketCount = 139" by (simp add: bucketCount_def farBuckets_def splitLevels_def)
  moreover have "table_ok t'" using assms by (intro routing.always_ok) auto
  ultimately show ?thesis by (auto simp: table_ok_def bucket_ok_def placed_def list_all_iff)
qed

theorem kad_table_always_ok_witness:
  "\<exists>t. new_table (replicate 16 0) 10 = Some t \<and> length (tb_buckets (nodeSeen demo_contact 5 t)) = 139"
proof -
  obtain t where t: "new_table (replicate 16 0) 10 = Some t" by (auto simp: new_table_def validId_def HASH_LENGTH_def)
  have "table_step\<^sup>*\<^sup>* t (nodeSeen demo_contact 5 t)" by (rule r_into_rtranclp) (rule table_step.seen)
  then show ?thesis using t kad_table_always_ok [OF t] by blast
qed

text \<open>
  C37. Refreshing looks up where it should: unless it is our own turn, the identifier that
  \<open>needRefresh\<close> gives falls into a bucket that has been inactive for at least 15 minutes, longest of
  all, whatever the random numbers; and no refresh is due exactly when there is no such bucket.
\<close>

theorem kad_refresh_hits_bucket:
  assumes "table_ok t" and "length random = 4" and "tb_lastSelfRefresh t \<noteq> 0" and "now - tb_lastSelfRefresh t < 900"
    and "tb_lastRefresh t = 0 \<or> now - tb_lastRefresh t \<ge> 45" and "needRefresh old now random t = (due, target, t')"
  shows "let inactive = (\<lambda>k. k < length (tb_buckets t) \<and> bk_lastActive (tb_buckets t ! k) \<noteq> 0 \<and>
             now - bk_lastActive (tb_buckets t ! k) \<ge> 900);
           k = bucketIndex (tb_selfId t) target
    in if due then inactive k \<and> (\<forall>j. inactive j \<longrightarrow> bk_lastActive (tb_buckets t ! k) \<le> bk_lastActive (tb_buckets t ! j)) \<and>
                   tb_lastRefresh t' = now
       else (\<forall>j. \<not> inactive j) \<and> target = old \<and> t' = t"
proof -
  have l: "length (tb_buckets t) = bucketCount" using assms(1) by (simp add: table_ok_def)
  show ?thesis
  proof (cases "oldest_bucket now (tb_buckets t)")
    case None
    then show ?thesis using assms(3-6) oldest_bucket_exact [of "tb_buckets t" now]
      by (auto simp: needRefresh_def Let_def not_less)
  next
    case (Some i)
    then have i: "i < length (tb_buckets t)" using oldest_bucket_exact [of "tb_buckets t" now] by simp
    then have "bucketIndex (tb_selfId t) target = i" "due" "t' = t\<lparr>tb_lastRefresh := now\<rparr>"
      using Some assms(2-6) randomId_bucket [of i random "tb_selfId t"] l by (auto simp: needRefresh_def)
    then show ?thesis using Some oldest_bucket_exact [of "tb_buckets t" now] by (auto simp: Let_def not_less)
  qed
qed

theorem kad_refresh_hits_bucket_witness:
  "\<exists>t. new_table (replicate 16 0) 10 = Some t \<and>
     needRefresh [7] 2000 [1, 2, 3, 4] (t\<lparr>tb_lastSelfRefresh := 1500\<rparr>) = (False, [7], t\<lparr>tb_lastSelfRefresh := 1500\<rparr>)"
proof -
  obtain t where t: "new_table (replicate 16 0) 10 = Some t" by (auto simp: new_table_def validId_def HASH_LENGTH_def)
  define u where "u = t\<lparr>tb_lastSelfRefresh := 1500\<rparr>"
  obtain due target u' where n: "needRefresh [7] 2000 [1, 2, 3, 4] u = (due, target, u')" by (metis prod_cases3)
  have z: "tb_lastRefresh u = 0" "tb_buckets u = replicate bucketCount new_bucket" "table_ok u"
    using t new_table_ok [OF t] by (auto simp: u_def new_table_def split: if_splits)
  have "due \<Longrightarrow> False" "\<not> due \<Longrightarrow> target = [7] \<and> u' = u"
    using kad_refresh_hits_bucket [OF z(3) _ _ _ _ n] z(1,2) by (auto simp: u_def new_bucket_def Let_def split: if_splits)
  then show ?thesis using t n by (auto simp: u_def)
qed



text \<open>
  C15. A restart keeps the routing table: saving a table, reading the file and restoring it into a new
  table gives the same contacts in the same buckets and order, the same routers and times; what is
  lost is the datagram keys of the contacts and when a bucket without contacts was last active.
\<close>

theorem kad_restart:
  assumes "table_ok t" and "list_all (\<lambda>b. 0 \<le> bk_lastActive b) (tb_buckets t)"
    and "createKadRoutingStatePayload (snapshot t) = Some p" and "snapshot_times (snapshot t)"
    and "new_table (tb_selfId t) (tb_bucketSize t) = Some t0"
  shows "\<exists>s. parseKadRoutingStatePayload old p = (True, s) \<and> sn_selfId s = tb_selfId t \<and> restore s t0 = Some (restarted t)"
  using kad_state_read [OF assms(3,4)] restart [OF assms(1,2,5)]
  by (intro exI [of _ "saved_snapshot (snapshot t)"]) (simp add: saved_snapshot_def snapshot_def)

theorem kad_restart_witness:
  "\<exists>t p s. new_table (replicate 16 0) 10 = Some t \<and> createKadRoutingStatePayload (snapshot t) = Some p \<and>
     parseKadRoutingStatePayload demo_snapshot p = (True, s) \<and> restore s t = Some (restarted t)"
proof -
  obtain t where t: "new_table (replicate 16 0) 10 = Some t" by (auto simp: new_table_def validId_def HASH_LENGTH_def)
  have e: "tb_selfId t = replicate 16 0" "tb_bucketSize t = 10" "tb_buckets t = replicate bucketCount new_bucket" "table_ok t"
    "tb_routerNodes t = []" "tb_routerContacts t = []" "tb_lastBootstrap t = 0" "tb_lastRefresh t = 0" "tb_lastSelfRefresh t = 0"
    using t new_table_ok [OF t] by (auto simp: new_table_def split: if_splits)
  have w: "write_list append_bucket (replicate n new_bucket) \<noteq> None" for n
    by (induction n) (auto simp: append_bucket_def new_bucket_def appendKadRoutingNodes_def split: bind_splits)
  obtain bs where "write_list append_bucket (replicate 139 new_bucket) = Some bs" using w by blast
  then obtain p where p: "createKadRoutingStatePayload (snapshot t) = Some p"
    by (auto simp: createKadRoutingStatePayload_def snapshot_def e append_counted_def validate_hash_def HASH_LENGTH_def
        bucketCount_def farBuckets_def splitLevels_def)
  have "snapshot_times (snapshot t)" "list_all (\<lambda>b. 0 \<le> bk_lastActive b) (tb_buckets t)"
    by (simp_all add: snapshot_times_def snapshot_def e int64_def bucket_times_def new_bucket_def list_all_iff)
  then show ?thesis using kad_restart [OF e(4) _ p, of t demo_snapshot] t e p by auto
qed

end
