(* ===== verification/Kad_Lookup.thy ===== *)
theory Kad_Lookup
  imports Kad_Routing
begin

text \<open>
  The iterative lookup of the Kad network (\<open>KadTraversal\<close> of \<open>ed2k/KadRouting.cc\<close>): it asks the contacts
  nearest to a target for nearer ones, until the nearest that did not fail have all answered, and
  searches those that are close enough.

  The requests a lookup causes are answered or time out one by one. \<open>lookup_step\<close> runs the lookup
  together with the list of its requests under way, the way \<open>Kad.cc\<close> performs the actions and reports
  their outcome. The caller's test whether a contact is close enough is part of the state.
\<close>

section \<open>The lookup\<close>

datatype traversal_kind = SOURCE_TRAVERSAL | KEYWORD_TRAVERSAL

datatype kad_action = FIND_NODE kad_contact | SEARCH kad_contact

record observer =
  oq_contact :: kad_contact
  oq_queried :: bool
  oq_alive :: bool
  oq_failed :: bool
  oq_searched :: bool

record traversal =
  tv_kind :: traversal_kind
  tv_targetId :: "byte list"
  tv_size :: "64 word"
  tv_searchable :: "(kad_contact \<Rightarrow> bool) option"
  tv_maxSearches :: nat
  tv_branchFactor :: nat
  tv_targetNodes :: nat
  tv_inFlight :: nat
  tv_extra :: nat
  tv_queried :: nat
  tv_answered :: nat
  tv_searches :: nat
  tv_searchInFlight :: nat
  tv_converged :: bool
  tv_done :: bool
  tv_observers :: "observer list"

definition new_traversal ::
  "traversal_kind \<Rightarrow> byte list \<Rightarrow> 64 word \<Rightarrow> (kad_contact \<Rightarrow> bool) option \<Rightarrow> nat \<Rightarrow> nat \<Rightarrow> nat \<Rightarrow> traversal option" where
  "new_traversal kind targetId fileSize searchable maxSearches branchFactor targetNodes =
     (if \<not> validId targetId then None
      else Some \<lparr>tv_kind = kind, tv_targetId = targetId, tv_size = fileSize, tv_searchable = searchable,
        tv_maxSearches = maxSearches, tv_branchFactor = (if branchFactor = 0 then 3 else branchFactor),
        tv_targetNodes = (if targetNodes = 0 then 8 else targetNodes), tv_inFlight = 0, tv_extra = 0,
        tv_queried = 0, tv_answered = 0, tv_searches = 0, tv_searchInFlight = 0, tv_converged = False,
        tv_done = False, tv_observers = []\<rparr>)"

definition new_observer :: "kad_contact \<Rightarrow> observer" where
  "new_observer c = \<lparr>oq_contact = c, oq_queried = False, oq_alive = False, oq_failed = False, oq_searched = False\<rparr>"

definition find_observer :: "kad_contact \<Rightarrow> observer list \<Rightarrow> nat option" where
  "find_observer c obs = find_at (\<lambda>ob. sameContact (oq_contact ob) c \<or> sameContactEndpoint (oq_contact ob) c) obs"

definition search_observer :: "nat \<Rightarrow> bool \<Rightarrow> traversal \<Rightarrow> kad_action list \<times> traversal" where
  "search_observer i anyAnswered tv =
     (let ob = tv_observers tv ! i
      in if oq_searched ob \<or> tv_searches tv \<ge> tv_maxSearches tv \<or>
            (case tv_searchable tv of None \<Rightarrow> True | Some near \<Rightarrow> \<not> anyAnswered \<and> \<not> near (oq_contact ob))
         then ([], tv)
         else ([SEARCH (oq_contact ob)],
           tv\<lparr>tv_observers := (tv_observers tv)[i := ob\<lparr>oq_searched := True\<rparr>],
              tv_searches := tv_searches tv + 1, tv_searchInFlight := tv_searchInFlight tv + 1\<rparr>))"

text \<open>What a contact heard of again adds to the one known.\<close>

definition merge_contact :: "kad_contact \<Rightarrow> kad_contact \<Rightarrow> kad_contact" where
  "merge_contact c known =
     (let known = (if kc_tcpPort known = 0 then known\<lparr>kc_tcpPort := kc_tcpPort c\<rparr> else known);
          known = (if kc_version known = 0 then known\<lparr>kc_version := kc_version c\<rparr> else known)
      in if kc_udpKey known = 0 then known\<lparr>kc_udpKey := kc_udpKey c\<rparr> else known)"

text \<open>\<open>std::lower_bound\<close>: the observers are in the order of their distance.\<close>

definition insert_observer :: "byte list \<Rightarrow> kad_contact \<Rightarrow> observer list \<Rightarrow> observer list" where
  "insert_observer targetId c obs =
     (let before = takeWhile (\<lambda>ob. distanceCompare (kc_id (oq_contact ob)) (kc_id c) targetId < 0) obs
      in before @ new_observer c # drop (length before) obs)"

fun drop_far :: "observer list \<Rightarrow> observer list" where
  "drop_far obs = (if length obs > 128 \<and> \<not> oq_queried (last obs) then drop_far (butlast obs) else obs)"

definition addContact :: "kad_contact \<Rightarrow> traversal \<Rightarrow> traversal" where
  "addContact c tv =
     (if \<not> validId (kc_id c) \<or> kc_host c = [] \<or> kc_udpPort c = 0 then tv
      else case find_observer c (tv_observers tv) of
             Some i \<Rightarrow>
               (let ob = tv_observers tv ! i
                in tv\<lparr>tv_observers := (tv_observers tv)[i := ob\<lparr>oq_contact := merge_contact c (oq_contact ob)\<rparr>]\<rparr>)
           | None \<Rightarrow> tv\<lparr>tv_observers := drop_far (insert_observer (tv_targetId tv) c (tv_observers tv))\<rparr>)"

text \<open>The loop over the nearest contacts that did not fail: whether all answered, what to ask, and the
  counters \<open>inFlight_\<close> and \<open>queried_\<close>.\<close>

fun ask_observers ::
  "nat \<Rightarrow> nat \<Rightarrow> nat \<Rightarrow> nat \<times> nat \<Rightarrow> observer list \<Rightarrow> bool \<times> kad_action list \<times> (nat \<times> nat) \<times> observer list" where
  "ask_observers limit targetNodes considered n [] = (True, [], n, [])"
| "ask_observers limit targetNodes considered (inFlight, queried) (ob # obs) =
     (if oq_failed ob then
        let (conv, acts, n, obs) = ask_observers limit targetNodes considered (inFlight, queried) obs
        in (conv, acts, n, ob # obs)
      else if considered + 1 > targetNodes then (True, [], (inFlight, queried), ob # obs)
      else if oq_alive ob then
        let (conv, acts, n, obs) = ask_observers limit targetNodes (considered + 1) (inFlight, queried) obs
        in (conv, acts, n, ob # obs)
      else if \<not> oq_queried ob \<and> inFlight < limit then
        let (conv, acts, n, obs) = ask_observers limit targetNodes (considered + 1) (inFlight + 1, queried + 1) obs
        in (False, FIND_NODE (oq_contact ob) # acts, n, ob\<lparr>oq_queried := True\<rparr> # obs)
      else
        let (conv, acts, n, obs) = ask_observers limit targetNodes (considered + 1) (inFlight, queried) obs
        in (False, acts, n, ob # obs))"

text \<open>The loop that searches the nearest contacts that answered.\<close>

fun search_closest :: "nat \<Rightarrow> nat list \<Rightarrow> traversal \<Rightarrow> kad_action list \<times> traversal" where
  "search_closest considered [] tv = ([], tv)"
| "search_closest considered (i # is) tv =
     (if oq_alive (tv_observers tv ! i) then
        if considered + 1 \<le> tv_targetNodes tv then
          let (acts, tv) = search_observer i True tv;
              (more, tv) = search_closest (considered + 1) is tv
          in (acts @ more, tv)
        else search_closest (considered + 1) is tv
      else search_closest considered is tv)"

definition nextActions :: "traversal \<Rightarrow> kad_action list \<times> traversal" where
  "nextActions tv =
     (if tv_done tv \<or> tv_converged tv then ([], tv)
      else
        let (conv, acts, (inFlight, queried), obs) =
              ask_observers (tv_branchFactor tv + tv_extra tv) (tv_targetNodes tv) 0
                (tv_inFlight tv, tv_queried tv) (tv_observers tv);
            tv = tv\<lparr>tv_inFlight := inFlight, tv_queried := queried, tv_observers := obs\<rparr>
        in if \<not> conv then (acts, tv)
           else
             let (more, tv) = search_closest 0 [0..<length obs] (tv\<lparr>tv_converged := True\<rparr>)
             in (acts @ more, if tv_searchInFlight tv = 0 then tv\<lparr>tv_done := True\<rparr> else tv))"

definition start :: "kad_contact list \<Rightarrow> traversal \<Rightarrow> kad_action list \<times> traversal" where
  "start seeds tv = nextActions (fold addContact seeds tv)"

text \<open>The first halves of \<open>onResponse\<close> and \<open>onFailure\<close>: what the outcome changes at the observer.\<close>

definition note_answer :: "kad_contact \<Rightarrow> traversal \<Rightarrow> kad_action list \<times> traversal" where
  "note_answer c tv =
     (case find_observer c (tv_observers tv) of
        None \<Rightarrow> ([], tv)
      | Some i \<Rightarrow>
          (let ob = tv_observers tv ! i
           in if oq_queried ob \<and> \<not> oq_alive ob
              then search_observer i False
                (tv\<lparr>tv_observers := (tv_observers tv)[i := ob\<lparr>oq_alive := True, oq_failed := False\<rparr>],
                   tv_answered := tv_answered tv + 1,
                   tv_inFlight := (if tv_inFlight tv > 0 then tv_inFlight tv - 1 else tv_inFlight tv)\<rparr>)
              else ([], tv)))"

definition note_failure :: "kad_contact \<Rightarrow> traversal \<Rightarrow> traversal" where
  "note_failure c tv =
     (case find_observer c (tv_observers tv) of
        None \<Rightarrow> tv
      | Some i \<Rightarrow>
          (let ob = tv_observers tv ! i
           in if \<not> oq_failed ob \<and> \<not> oq_alive ob
              then tv\<lparr>tv_observers := (tv_observers tv)[i := ob\<lparr>oq_failed := True\<rparr>],
                     tv_inFlight := (if tv_inFlight tv > 0 then tv_inFlight tv - 1 else tv_inFlight tv)\<rparr>
              else tv))"

definition onResponse :: "kad_contact \<Rightarrow> kad_contact list \<Rightarrow> traversal \<Rightarrow> kad_action list \<times> traversal" where
  "onResponse c closer tv =
     (if tv_done tv then ([], tv)
      else
        let (acts, tv) = note_answer c tv;
            (more, tv) = nextActions (fold addContact closer tv)
        in (acts @ more, tv))"

definition onFailure :: "kad_contact \<Rightarrow> traversal \<Rightarrow> kad_action list \<times> traversal" where
  "onFailure c tv = nextActions (note_failure c tv)"

definition stalled :: "traversal \<Rightarrow> kad_action list \<times> traversal" where
  "stalled tv =
     nextActions (if tv_extra tv < 2 * tv_branchFactor tv then tv\<lparr>tv_extra := tv_extra tv + 1\<rparr> else tv)"

definition finishSearch :: "kad_contact \<Rightarrow> bool \<Rightarrow> traversal \<Rightarrow> traversal" where
  "finishSearch c failed tv =
     (let tv = (case find_observer c (tv_observers tv) of
                  Some i \<Rightarrow>
                    if failed
                    then tv\<lparr>tv_observers := (tv_observers tv)[i := (tv_observers tv ! i)\<lparr>oq_failed := True\<rparr>]\<rparr>
                    else tv
                | None \<Rightarrow> tv);
          tv = (if tv_searchInFlight tv > 0 then tv\<lparr>tv_searchInFlight := tv_searchInFlight tv - 1\<rparr> else tv)
      in if tv_converged tv \<and> tv_searchInFlight tv = 0 then tv\<lparr>tv_done := True\<rparr> else tv)"

definition onSearchResponse :: "kad_contact \<Rightarrow> traversal \<Rightarrow> traversal" where
  "onSearchResponse c tv = finishSearch c False tv"

definition onSearchFailure :: "kad_contact \<Rightarrow> traversal \<Rightarrow> traversal" where
  "onSearchFailure c tv = finishSearch c True tv"

section \<open>A lookup and its requests\<close>

type_synonym node_ident = "byte list \<times> string \<times> 16 word"

definition ident :: "kad_contact \<Rightarrow> node_ident" where
  "ident c = (kc_id c, kc_host c, kc_udpPort c)"

fun asked_in :: "kad_action list \<Rightarrow> node_ident list" where
  "asked_in [] = []"
| "asked_in (FIND_NODE c # acts) = ident c # asked_in acts"
| "asked_in (SEARCH c # acts) = asked_in acts"

fun searched_in :: "kad_action list \<Rightarrow> node_ident list" where
  "searched_in [] = []"
| "searched_in (FIND_NODE c # acts) = searched_in acts"
| "searched_in (SEARCH c # acts) = ident c # searched_in acts"

text \<open>A lookup with the nodes whose answer to a find-node request and to a search it waits for.\<close>

record lookup_run =
  lr_tv :: traversal
  lr_asked :: "node_ident list"
  lr_searching :: "node_ident list"

definition perform :: "kad_action list \<times> traversal \<Rightarrow> lookup_run \<Rightarrow> lookup_run" where
  "perform u r = (case u of (acts, tv) \<Rightarrow>
     \<lparr>lr_tv = tv, lr_asked = lr_asked r @ asked_in acts, lr_searching = lr_searching r @ searched_in acts\<rparr>)"

definition begin_lookup :: "kad_contact list \<Rightarrow> traversal \<Rightarrow> lookup_run" where
  "begin_lookup seeds tv = perform (start seeds tv) \<lparr>lr_tv = tv, lr_asked = [], lr_searching = []\<rparr>"

text \<open>A find-node request ends with an answer or a timeout, and so does a search. Answers and
  timeouts of find-node requests may also reach a lookup that did not send them (it took the place of
  another one for the same target).\<close>

inductive lookup_step :: "lookup_run \<Rightarrow> lookup_run \<Rightarrow> bool" where
  answered: "ident c \<in> set (lr_asked r) \<Longrightarrow>
    lookup_step r (perform (onResponse c closer (lr_tv r)) (r\<lparr>lr_asked := remove1 (ident c) (lr_asked r)\<rparr>))"
| timed_out: "ident c \<in> set (lr_asked r) \<Longrightarrow>
    lookup_step r (perform (onFailure c (lr_tv r)) (r\<lparr>lr_asked := remove1 (ident c) (lr_asked r)\<rparr>))"
| answered_other: "lookup_step r (perform (onResponse c closer (lr_tv r)) r)"
| timed_out_other: "lookup_step r (perform (onFailure c (lr_tv r)) r)"
| stall: "lookup_step r (perform (stalled (lr_tv r)) r)"
| search_answered: "ident c \<in> set (lr_searching r) \<Longrightarrow>
    lookup_step r (r\<lparr>lr_tv := onSearchResponse c (lr_tv r), lr_searching := remove1 (ident c) (lr_searching r)\<rparr>)"
| search_timed_out: "ident c \<in> set (lr_searching r) \<Longrightarrow>
    lookup_step r (r\<lparr>lr_tv := onSearchFailure c (lr_tv r), lr_searching := remove1 (ident c) (lr_searching r)\<rparr>)"

inductive lookup_begun :: "lookup_run \<Rightarrow> bool" where
  "new_traversal kind targetId fileSize searchable maxSearches branchFactor targetNodes = Some tv \<Longrightarrow>
    lookup_begun (begin_lookup seeds tv)"

section \<open>The invariant\<close>

definition clash :: "kad_contact \<Rightarrow> kad_contact \<Rightarrow> bool" where
  "clash a b \<longleftrightarrow> kc_id a = kc_id b \<or> kc_host a = kc_host b \<and> kc_udpPort a = kc_udpPort b"

definition outstanding :: "observer \<Rightarrow> bool" where
  "outstanding ob \<longleftrightarrow> oq_queried ob \<and> \<not> oq_alive ob \<and> \<not> oq_failed ob"

definition flags_ok :: "observer \<Rightarrow> bool" where
  "flags_ok ob \<longleftrightarrow> validId (kc_id (oq_contact ob)) \<and> (oq_alive ob \<longrightarrow> oq_queried ob) \<and> (oq_searched ob \<longrightarrow> oq_alive ob)"

definition nearer :: "byte list \<Rightarrow> observer \<Rightarrow> observer \<Rightarrow> bool" where
  "nearer targetId a b \<longleftrightarrow>
     kad_distance (kc_id (oq_contact a)) targetId \<le> kad_distance (kc_id (oq_contact b)) targetId \<and>
     \<not> clash (oq_contact a) (oq_contact b)"

definition observers_ok :: "byte list \<Rightarrow> observer list \<Rightarrow> bool" where
  "observers_ok targetId obs \<longleftrightarrow> list_all flags_ok obs \<and> sorted_wrt (nearer targetId) obs"

abbreviation number_of :: "(observer \<Rightarrow> bool) \<Rightarrow> observer list \<Rightarrow> nat" where
  "number_of P obs \<equiv> length (filter P obs)"

abbreviation idents :: "(observer \<Rightarrow> bool) \<Rightarrow> observer list \<Rightarrow> node_ident multiset" where
  "idents P obs \<equiv> mset (map (\<lambda>ob. ident (oq_contact ob)) (filter P obs))"

definition counters_ok :: "traversal \<Rightarrow> bool" where
  "counters_ok tv \<longleftrightarrow>
     0 < tv_branchFactor tv \<and> 0 < tv_targetNodes tv \<and> tv_extra tv \<le> 2 * tv_branchFactor tv \<and>
     tv_inFlight tv \<le> tv_branchFactor tv + tv_extra tv \<and>
     tv_queried tv = number_of oq_queried (tv_observers tv) \<and> tv_answered tv = number_of oq_alive (tv_observers tv) \<and>
     tv_searches tv = number_of oq_searched (tv_observers tv) \<and> tv_searches tv \<le> tv_maxSearches tv"

definition base_ok :: "node_ident list \<Rightarrow> node_ident list \<Rightarrow> traversal \<Rightarrow> bool" where
  "base_ok asked searching tv \<longleftrightarrow>
     observers_ok (tv_targetId tv) (tv_observers tv) \<and> counters_ok tv \<and> validId (tv_targetId tv) \<and>
     (\<not> tv_done tv \<longrightarrow> tv_inFlight tv \<le> number_of outstanding (tv_observers tv) \<and>
        idents outstanding (tv_observers tv) \<subseteq># mset asked) \<and>
     tv_searchInFlight tv = length searching \<and> mset searching \<subseteq># idents oq_searched (tv_observers tv)"

text \<open>A lookup that is not finished waits for an answer.\<close>

definition waiting :: "traversal \<Rightarrow> bool" where
  "waiting tv \<longleftrightarrow> tv_done tv \<or>
     (if tv_converged tv then tv_searchInFlight tv > 0 else \<exists>ob \<in> set (tv_observers tv). outstanding ob)"

definition run_ok :: "lookup_run \<Rightarrow> bool" where
  "run_ok r \<longleftrightarrow> base_ok (lr_asked r) (lr_searching r) (lr_tv r) \<and> waiting (lr_tv r)"

lemma find_observer_split:
  assumes "find_observer c obs = Some i"
  obtains as ob bs where "obs = as @ ob # bs" "i = length as" "clash (oq_contact ob) c"
proof -
  have i: "i < length obs" and m: "sameContact (oq_contact (obs ! i)) c \<or> sameContactEndpoint (oq_contact (obs ! i)) c"
    using find_at_Some assms unfolding find_observer_def by (metis (no_types, lifting))+
  have "obs = take i obs @ obs ! i # drop (Suc i) obs" using i by (simp add: id_take_nth_drop)
  moreover have "clash (oq_contact (obs ! i)) c"
    using m by (auto simp: sameContact_def sameContactEndpoint_def clash_def)
  ultimately show thesis using that [of "take i obs" "obs ! i" "drop (Suc i) obs"] i by simp
qed

lemma find_observer_None:
  assumes "find_observer c obs = None" "ob \<in> set obs" "validId (kc_id (oq_contact ob))"
  shows "\<not> clash (oq_contact ob) c"
  using assms
  by (auto simp: find_observer_def find_at_None sameContact_def sameContactEndpoint_def clash_def validId_def HASH_LENGTH_def)

lemma clash_ident: "ident a = ident b \<Longrightarrow> clash a b"
  by (simp add: ident_def clash_def)

lemma clash_cong: "ident a = ident b \<Longrightarrow> clash a c = clash b c" "ident a = ident b \<Longrightarrow> clash c a = clash c b"
  by (auto simp: ident_def clash_def)

lemma clash_sym: "clash a b = clash b a"
  by (auto simp: clash_def)

lemma observers_ok_mem: "observers_ok t obs \<Longrightarrow> ob \<in> set obs \<Longrightarrow> flags_ok ob"
  by (simp add: observers_ok_def list_all_iff)

lemma observers_ok_update:
  assumes "observers_ok t (as @ x # bs)" "ident (oq_contact y) = ident (oq_contact x)" "flags_ok y"
  shows "observers_ok t (as @ y # bs)"
proof -
  have "kc_id (oq_contact y) = kc_id (oq_contact x)" using assms(2) by (simp add: ident_def)
  then show ?thesis
    using assms by (auto simp: observers_ok_def sorted_wrt_append nearer_def clash_cong [OF assms(2)])
qed

lemma observers_unique:
  assumes "observers_ok t (as @ x # bs)" "y \<in> set as \<union> set bs"
  shows "\<not> clash (oq_contact y) (oq_contact x)"
  using assms clash_sym by (auto simp: observers_ok_def sorted_wrt_append nearer_def)

lemma idents_others:
  assumes "observers_ok t (as @ x # bs)" "ident c = ident (oq_contact x)"
  shows "ident c \<notin># idents P (as @ bs)"
  using observers_unique [OF assms(1)] assms(2) clash_ident by force

text \<open>An observer that has the identity of a contact is the one that is found for it.\<close>

lemma found_is_ident:
  assumes "observers_ok t (as @ x # bs)" "clash (oq_contact x) c" "ident c \<in># idents P (as @ x # bs)"
  shows "ident c = ident (oq_contact x) \<and> P x"
proof -
  obtain y where y: "y \<in> set (as @ x # bs)" "P y" "ident c = ident (oq_contact y)" using assms(3) by (auto split: if_splits)
  have "y = x"
  proof (rule ccontr)
    assume "y \<noteq> x"
    then have "\<not> clash (oq_contact y) (oq_contact x)" using observers_unique [OF assms(1)] y(1) by auto
    then show False using assms(2) clash_cong [OF y(3)] clash_sym by metis
  qed
  then show ?thesis using y by simp
qed

lemma mset_without: "X \<subseteq># A \<Longrightarrow> x \<notin># X \<Longrightarrow> X \<subseteq># A - {#x#}"
  by (auto simp: subseteq_mset_def not_in_iff)

lemma drop_asked:
  assumes "base_ok asked searching tv" "\<not> tv_done tv \<longrightarrow> ident c \<notin># idents outstanding (tv_observers tv)"
  shows "base_ok (remove1 (ident c) asked) searching tv"
proof -
  have "\<not> tv_done tv \<Longrightarrow> idents outstanding (tv_observers tv) \<subseteq># mset asked - {#ident c#}"
    using assms mset_without [of "idents outstanding (tv_observers tv)"] unfolding base_ok_def by blast
  then show ?thesis using assms(1) by (simp add: base_ok_def)
qed

lemma asked_in_append [simp]: "asked_in (a @ b) = asked_in a @ asked_in b"
  by (induction a rule: asked_in.induct) auto

lemma searched_in_append [simp]: "searched_in (a @ b) = searched_in a @ searched_in b"
  by (induction a rule: searched_in.induct) auto

section \<open>Searching\<close>

text \<open>What a search leaves as it is.\<close>

definition same_walk :: "traversal \<Rightarrow> traversal \<Rightarrow> bool" where
  "same_walk tv tv' \<longleftrightarrow>
     tv_done tv' = tv_done tv \<and> tv_converged tv' = tv_converged tv \<and> tv_targetNodes tv' = tv_targetNodes tv \<and>
     tv_searchInFlight tv' \<ge> tv_searchInFlight tv \<and>
     map (\<lambda>ob. ob\<lparr>oq_searched := False\<rparr>) (tv_observers tv') = map (\<lambda>ob. ob\<lparr>oq_searched := False\<rparr>) (tv_observers tv)"

lemma same_walk_refl: "same_walk tv tv"
  by (simp add: same_walk_def)

lemma same_walk_trans: "same_walk a b \<Longrightarrow> same_walk b c \<Longrightarrow> same_walk a c"
  by (simp add: same_walk_def)

lemma same_walk_nth:
  assumes "same_walk tv tv'" "i < length (tv_observers tv)"
  shows "i < length (tv_observers tv') \<and> oq_alive (tv_observers tv' ! i) = oq_alive (tv_observers tv ! i)"
proof -
  have l: "length (tv_observers tv') = length (tv_observers tv)"
    using assms(1) map_eq_imp_length_eq unfolding same_walk_def by blast
  have "map (\<lambda>ob. ob\<lparr>oq_searched := False\<rparr>) (tv_observers tv') ! i = map (\<lambda>ob. ob\<lparr>oq_searched := False\<rparr>) (tv_observers tv) ! i"
    using assms(1) by (simp add: same_walk_def)
  then have "(tv_observers tv' ! i)\<lparr>oq_searched := False\<rparr> = (tv_observers tv ! i)\<lparr>oq_searched := False\<rparr>"
    using l assms(2) by simp
  then have "oq_alive ((tv_observers tv' ! i)\<lparr>oq_searched := False\<rparr>) = oq_alive ((tv_observers tv ! i)\<lparr>oq_searched := False\<rparr>)"
    by simp
  then show ?thesis using l assms(2) by simp
qed

lemma split_nth:
  assumes "i < length xs"
  obtains as bs where "xs = as @ xs ! i # bs" "i = length as"
  using assms id_take_nth_drop that [of "take i xs" "drop (Suc i) xs"] by force

lemma search_observer_ok:
  assumes "base_ok asked searching tv" "i < length (tv_observers tv)" "oq_alive (tv_observers tv ! i)"
    and s: "search_observer i anyAnswered tv = (acts, tv')"
  shows "base_ok asked (searching @ searched_in acts) tv' \<and> asked_in acts = [] \<and> same_walk tv tv'"
proof -
  define ob where "ob = tv_observers tv ! i"
  obtain as bs where obs: "tv_observers tv = as @ ob # bs" and i: "i = length as"
    using split_nth [OF assms(2)] ob_def by metis
  show ?thesis
  proof (cases "acts = []")
    case True
    then have "tv' = tv" using s by (auto simp: search_observer_def Let_def split: if_splits)
    then show ?thesis using True assms(1) same_walk_refl by simp
  next
    case False
    have new: "\<not> oq_searched ob" "tv_searches tv < tv_maxSearches tv" "acts = [SEARCH (oq_contact ob)]"
      and tv': "tv' = tv\<lparr>tv_observers := as @ ob\<lparr>oq_searched := True\<rparr> # bs, tv_searches := tv_searches tv + 1,
        tv_searchInFlight := tv_searchInFlight tv + 1\<rparr>"
      using s False by (auto simp: search_observer_def Let_def ob_def [symmetric] obs i split: if_splits)
    have alive: "oq_alive ob" using assms(3) ob_def by simp
    have "flags_ok (ob\<lparr>oq_searched := True\<rparr>)"
      using assms(1) alive observers_ok_mem [of _ _ ob] by (auto simp: base_ok_def obs flags_ok_def)
    then have o: "observers_ok (tv_targetId tv) (as @ ob\<lparr>oq_searched := True\<rparr> # bs)"
      using assms(1) observers_ok_update [of _ as ob bs] by (simp add: base_ok_def obs)
    show ?thesis
      using assms(1) new alive o
      by (simp add: base_ok_def tv' counters_ok_def obs outstanding_def same_walk_def)
  qed
qed

lemma search_closest_ok:
  assumes "base_ok asked searching tv" "\<forall>i \<in> set is. i < length (tv_observers tv)"
    "search_closest considered is tv = (acts, tv')"
  shows "base_ok asked (searching @ searched_in acts) tv' \<and> asked_in acts = [] \<and> same_walk tv tv'"
  using assms
proof (induction considered "is" tv arbitrary: searching acts tv' rule: search_closest.induct)
  case (1 considered tv)
  then show ?case using same_walk_refl by simp
next
  case (2 considered i "is" tv)
  show ?case
  proof (cases "oq_alive (tv_observers tv ! i) \<and> considered + 1 \<le> tv_targetNodes tv")
    case False
    then show ?thesis using 2 by (auto split: if_splits)
  next
    case True
    obtain a tv1 where a: "search_observer i True tv = (a, tv1)" by fastforce
    obtain b tv2 where b: "search_closest (considered + 1) is tv1 = (b, tv2)" by fastforce
    have r: "acts = a @ b" "tv' = tv2" using 2 True a b by auto
    have 1: "base_ok asked (searching @ searched_in a) tv1 \<and> asked_in a = [] \<and> same_walk tv tv1"
      using search_observer_ok [OF 2(4) _ _ a] 2(5) True by simp
    then have "\<forall>i \<in> set is. i < length (tv_observers tv1)" using 2(5) same_walk_nth by force
    then have "base_ok asked ((searching @ searched_in a) @ searched_in b) tv2 \<and> asked_in b = [] \<and> same_walk tv1 tv2"
      using 2(1) True a 1 b by (metis (no_types, lifting))
    then show ?thesis using 1 r same_walk_trans by auto
  qed
qed

section \<open>New contacts\<close>

lemma merge_contact_ident [simp]: "ident (merge_contact c k) = ident k" "kc_id (merge_contact c k) = kc_id k"
  by (simp_all add: merge_contact_def ident_def Let_def)

declare drop_far.simps [simp del]

lemma drop_far_prefix: "\<exists>ds. obs = drop_far obs @ ds \<and> list_all (\<lambda>ob. \<not> oq_queried ob) ds"
proof (induction obs rule: drop_far.induct)
  case (1 obs)
  show ?case
  proof (cases "length obs > 128 \<and> \<not> oq_queried (last obs)")
    case True
    then obtain ds where "butlast obs = drop_far (butlast obs) @ ds" "list_all (\<lambda>ob. \<not> oq_queried ob) ds"
      using 1 by blast
    moreover have "obs \<noteq> []" using True by auto
    ultimately have "obs = drop_far (butlast obs) @ ds @ [last obs]" "list_all (\<lambda>ob. \<not> oq_queried ob) (ds @ [last obs])"
      using True append_butlast_last_id [of obs] by (auto simp flip: append_assoc)
    then show ?thesis using True drop_far.simps [of obs] by metis
  next
    case False
    then have "drop_far obs = obs" using drop_far.simps [of obs] by (simp only: if_False)
    then show ?thesis by simp
  qed
qed

lemma insert_observer_split:
  assumes "observers_ok t obs"
  obtains as bs where "obs = as @ bs" "insert_observer t c obs = as @ new_observer c # bs"
    "\<And>ob. ob \<in> set as \<Longrightarrow> kad_distance (kc_id (oq_contact ob)) t \<le> kad_distance (kc_id c) t"
    "\<And>ob. ob \<in> set bs \<Longrightarrow> kad_distance (kc_id c) t \<le> kad_distance (kc_id (oq_contact ob)) t"
proof -
  define near where "near = (\<lambda>ob :: observer. distanceCompare (kc_id (oq_contact ob)) (kc_id c) t < 0)"
  have near: "near ob \<longleftrightarrow> kad_distance (kc_id (oq_contact ob)) t < kad_distance (kc_id c) t" for ob
    by (simp add: near_def distanceCompare_less)
  have d: "drop (length (takeWhile near obs)) obs = dropWhile near obs" by (simp add: dropWhile_eq_drop)
  have s: "sorted_wrt (nearer t) (takeWhile near obs @ dropWhile near obs)" using assms by (simp add: observers_ok_def)
  have "kad_distance (kc_id c) t \<le> kad_distance (kc_id (oq_contact ob)) t" if "ob \<in> set (dropWhile near obs)" for ob
  proof (cases "dropWhile near obs")
    case Nil
    then show ?thesis using that by (metis empty_iff list.set(1))
  next
    case (Cons x xs)
    have "\<not> near x" using Cons by (metis hd_dropWhile list.discI list.sel(1))
    then show ?thesis using that s Cons near by (fastforce simp: sorted_wrt_append nearer_def not_less)
  qed
  moreover have "kad_distance (kc_id (oq_contact ob)) t \<le> kad_distance (kc_id c) t" if "ob \<in> set (takeWhile near obs)" for ob
    using set_takeWhileD [OF that] near by simp
  ultimately show thesis
    using that [of "takeWhile near obs" "dropWhile near obs"] d
    by (simp add: insert_observer_def near_def [symmetric] Let_def)
qed

lemma base_ok_same_flags:
  assumes "base_ok asked searching tv" "observers_ok (tv_targetId tv) obs"
    "\<And>P. (\<forall>ob. P ob \<longrightarrow> oq_queried ob) \<Longrightarrow> (\<forall>ob k. P (ob\<lparr>oq_contact := k\<rparr>) = P ob) \<Longrightarrow>
      idents P obs = idents P (tv_observers tv)"
  shows "base_ok asked searching (tv\<lparr>tv_observers := obs\<rparr>)"
proof -
  have n: "number_of P obs = number_of P (tv_observers tv)" if "idents P obs = idents P (tv_observers tv)" for P
    using arg_cong [OF that, of size] by (simp flip: mset_filter)
  have w: "idents (\<lambda>ob. oq_queried ob \<and> Q ob) obs = idents (\<lambda>ob. oq_queried ob \<and> Q ob) (tv_observers tv)"
    if "\<forall>ob k. Q (ob\<lparr>oq_contact := k\<rparr>) = Q ob" for Q
    using assms(3) that by simp
  have f: "filter oq_alive xs = filter (\<lambda>ob. oq_queried ob \<and> oq_alive ob) xs"
    "filter oq_searched xs = filter (\<lambda>ob. oq_queried ob \<and> oq_searched ob) xs"
    if "observers_ok (tv_targetId tv) xs" for xs
    by (rule filter_cong, simp, use that observers_ok_mem in \<open>force simp: flags_ok_def\<close>)+
  have tv: "observers_ok (tv_targetId tv) (tv_observers tv)" using assms(1) by (simp add: base_ok_def)
  have 1: "idents oq_queried obs = idents oq_queried (tv_observers tv)" using w [of "\<lambda>_. True"] by simp
  have 2: "idents outstanding obs = idents outstanding (tv_observers tv)"
    using w [of "\<lambda>ob. \<not> oq_alive ob \<and> \<not> oq_failed ob"] unfolding outstanding_def by simp
  have 3: "idents oq_alive obs = idents oq_alive (tv_observers tv)"
    "idents oq_searched obs = idents oq_searched (tv_observers tv)"
    unfolding f [OF tv] f [OF assms(2)] by (rule w, simp)+
  show ?thesis using assms(1,2) n [OF 1] n [OF 2] n [OF 3(1)] n [OF 3(2)] 2 3
    by (simp add: base_ok_def counters_ok_def)
qed

lemma observers_ok_insert:
  assumes "observers_ok t (as @ bs)" "validId (kc_id c)" "\<And>ob. ob \<in> set as \<union> set bs \<Longrightarrow> \<not> clash (oq_contact ob) c"
    and "\<And>ob. ob \<in> set as \<Longrightarrow> kad_distance (kc_id (oq_contact ob)) t \<le> kad_distance (kc_id c) t"
      "\<And>ob. ob \<in> set bs \<Longrightarrow> kad_distance (kc_id c) t \<le> kad_distance (kc_id (oq_contact ob)) t"
  shows "observers_ok t (as @ new_observer c # bs)"
proof -
  have "nearer t ob (new_observer c)" if "ob \<in> set as" for ob
    using assms(3,4) that by (simp add: nearer_def new_observer_def)
  moreover have "nearer t (new_observer c) ob" if "ob \<in> set bs" for ob
    using assms(3) [of ob] assms(5) that clash_sym [of c "oq_contact ob"] by (simp add: nearer_def new_observer_def)
  moreover have "flags_ok (new_observer c)" using assms(2) by (simp add: flags_ok_def new_observer_def)
  ultimately show ?thesis using assms(1) by (simp add: observers_ok_def sorted_wrt_append)
qed

lemma addContact_known:
  assumes "base_ok asked searching tv" "find_observer c (tv_observers tv) = Some i"
  shows "base_ok asked searching (tv\<lparr>tv_observers := (tv_observers tv)[i :=
    (tv_observers tv ! i)\<lparr>oq_contact := merge_contact c (oq_contact (tv_observers tv ! i))\<rparr>]\<rparr>)"
proof -
  have o: "observers_ok (tv_targetId tv) (tv_observers tv)" using assms(1) by (simp add: base_ok_def)
  obtain as ob bs where s: "tv_observers tv = as @ ob # bs" "i = length as"
    using find_observer_split [OF assms(2)] by metis
  define ob' where "ob' = ob\<lparr>oq_contact := merge_contact c (oq_contact ob)\<rparr>"
  have "flags_ok ob'" using observers_ok_mem [OF o, of ob] s by (simp add: flags_ok_def ob'_def)
  then have u: "observers_ok (tv_targetId tv) (as @ ob' # bs)"
    using observers_ok_update [of _ as ob bs ob'] o s by (simp add: ob'_def)
  have "idents P (as @ ob' # bs) = idents P (tv_observers tv)" if "\<forall>ob k. P (ob\<lparr>oq_contact := k\<rparr>) = P ob" for P
  proof -
    have "P ob' = P ob" "ident (oq_contact ob') = ident (oq_contact ob)" using that by (simp_all add: ob'_def)
    then show ?thesis by (simp add: s(1))
  qed
  then have "base_ok asked searching (tv\<lparr>tv_observers := as @ ob' # bs\<rparr>)"
    by (intro base_ok_same_flags [OF assms(1) u])
  then show ?thesis by (simp add: s ob'_def)
qed

lemma addContact_new:
  assumes "base_ok asked searching tv" "find_observer c (tv_observers tv) = None" "validId (kc_id c)"
  shows "base_ok asked searching (tv\<lparr>tv_observers := drop_far (insert_observer (tv_targetId tv) c (tv_observers tv))\<rparr>)"
proof -
  have o: "observers_ok (tv_targetId tv) (tv_observers tv)" using assms(1) by (simp add: base_ok_def)
  obtain as bs where s: "tv_observers tv = as @ bs"
    "insert_observer (tv_targetId tv) c (tv_observers tv) = as @ new_observer c # bs"
    and d: "\<And>ob. ob \<in> set as \<Longrightarrow> kad_distance (kc_id (oq_contact ob)) (tv_targetId tv) \<le> kad_distance (kc_id c) (tv_targetId tv)"
    "\<And>ob. ob \<in> set bs \<Longrightarrow> kad_distance (kc_id c) (tv_targetId tv) \<le> kad_distance (kc_id (oq_contact ob)) (tv_targetId tv)"
    using insert_observer_split [OF o, of c] by blast
  have n: "\<not> clash (oq_contact ob) c" if "ob \<in> set as \<union> set bs" for ob
    using find_observer_None [OF assms(2)] observers_ok_mem [OF o, of ob] that s(1) by (simp add: flags_ok_def)
  have full: "observers_ok (tv_targetId tv) (as @ new_observer c # bs)"
    by (rule observers_ok_insert [OF _ assms(3) n d]) (use o s(1) in simp_all)
  define obs where "obs = drop_far (as @ new_observer c # bs)"
  obtain ds where ds: "as @ new_observer c # bs = obs @ ds" "list_all (\<lambda>ob. \<not> oq_queried ob) ds"
    unfolding obs_def using drop_far_prefix by blast
  have kept: "observers_ok (tv_targetId tv) obs"
    using full unfolding ds(1) by (simp add: observers_ok_def sorted_wrt_append)
  have "filter P obs = filter P (tv_observers tv)" if "\<forall>ob. P ob \<longrightarrow> oq_queried ob" for P
  proof -
    have "filter P ds = []" using ds(2) that by (auto simp: filter_empty_conv list_all_iff)
    moreover have "\<not> P (new_observer c)" using that by (auto simp: new_observer_def)
    ultimately show ?thesis using arg_cong [OF ds(1), of "filter P"] s(1) by simp
  qed
  then have "base_ok asked searching (tv\<lparr>tv_observers := obs\<rparr>)"
    by (intro base_ok_same_flags [OF assms(1) kept]) (simp only:)
  then show ?thesis by (simp only: s(2) obs_def)
qed

lemma addContact_ok: "base_ok asked searching tv \<Longrightarrow> base_ok asked searching (addContact c tv)"
  by (simp add: addContact_def Let_def addContact_known addContact_new split: option.split)

lemma addContact_frame [simp]:
  "tv_done (addContact c tv) = tv_done tv" "tv_converged (addContact c tv) = tv_converged tv"
  "tv_searchInFlight (addContact c tv) = tv_searchInFlight tv" "tv_targetNodes (addContact c tv) = tv_targetNodes tv"
  by (simp_all add: addContact_def Let_def split: option.splits)

lemma addContacts_ok: "base_ok asked searching tv \<Longrightarrow> base_ok asked searching (fold addContact cs tv)"
  by (induction cs arbitrary: tv) (simp_all add: addContact_ok)

lemma addContacts_frame [simp]:
  "tv_done (fold addContact cs tv) = tv_done tv" "tv_converged (fold addContact cs tv) = tv_converged tv"
  "tv_searchInFlight (fold addContact cs tv) = tv_searchInFlight tv"
  by (induction cs arbitrary: tv) simp_all

section \<open>Answers and failures\<close>

lemma same_walk_outstanding:
  assumes "same_walk tv tv'"
  shows "idents outstanding (tv_observers tv') = idents outstanding (tv_observers tv)"
proof -
  let ?f = "\<lambda>ob :: observer. ob\<lparr>oq_searched := False\<rparr>"
  have f: "idents outstanding (map ?f obs) = idents outstanding obs" for obs
    by (induction obs) (simp_all add: outstanding_def)
  show ?thesis using f [of "tv_observers tv'"] f [of "tv_observers tv"] assms by (simp only: same_walk_def)
qed

lemma not_found_ident:
  assumes "base_ok asked searching tv" "find_observer c (tv_observers tv) = None"
  shows "ident c \<notin># idents P (tv_observers tv)"
proof
  assume "ident c \<in># idents P (tv_observers tv)"
  then obtain ob where ob: "ob \<in> set (tv_observers tv)" "ident (oq_contact ob) = ident c" by auto
  moreover have "validId (kc_id (oq_contact ob))"
    using assms(1) ob(1) observers_ok_mem by (auto simp: base_ok_def flags_ok_def)
  ultimately show False using find_observer_None [OF assms(2)] clash_ident by blast
qed

lemma mset_without_middle: "X + {#x#} + Y \<subseteq># A \<Longrightarrow> X + Y \<subseteq># A"
  by (metis mset_subset_eq_add_left subset_mset.order_trans union_assoc union_commute)

text \<open>An observer with a request under way settles: it answers, or it fails.\<close>

lemma settle_ok:
  assumes "base_ok asked searching tv" "tv_observers tv = as @ ob # bs" "ident (oq_contact ob') = ident (oq_contact ob)"
    "flags_ok ob'" "\<not> outstanding ob'" "oq_queried ob' = oq_queried ob" "oq_searched ob' = oq_searched ob"
    "answered = number_of oq_alive (as @ ob' # bs)"
  shows "base_ok asked searching
    (tv\<lparr>tv_observers := as @ ob' # bs, tv_answered := answered,
       tv_inFlight := (if tv_inFlight tv > 0 then tv_inFlight tv - 1 else tv_inFlight tv)\<rparr>)"
proof -
  have "observers_ok (tv_targetId tv) (as @ ob # bs)" using assms(1) by (simp add: base_ok_def flip: assms(2))
  then have "observers_ok (tv_targetId tv) (as @ ob' # bs)" using observers_ok_update assms(3,4) by blast
  moreover have "idents outstanding (as @ ob' # bs) \<subseteq># mset asked" if "\<not> tv_done tv"
    using that assms(1,2,5) mset_without_middle [of "idents outstanding as" "ident (oq_contact ob)" "idents outstanding bs"]
    by (auto simp: base_ok_def split: if_splits)
  moreover have "(if tv_inFlight tv > 0 then tv_inFlight tv - 1 else tv_inFlight tv) \<le> number_of outstanding (as @ ob' # bs)"
    if "\<not> tv_done tv"
    using that assms(1,2,5) by (cases "outstanding ob") (auto simp: base_ok_def)
  moreover have "(if tv_inFlight tv > 0 then tv_inFlight tv - 1 else tv_inFlight tv) \<le> tv_branchFactor tv + tv_extra tv"
    using assms(1) by (auto simp: base_ok_def counters_ok_def)
  moreover have "number_of oq_queried (as @ ob' # bs) = number_of oq_queried (as @ ob # bs)"
    "number_of oq_searched (as @ ob' # bs) = number_of oq_searched (as @ ob # bs)"
    "idents oq_searched (as @ ob' # bs) = idents oq_searched (as @ ob # bs)"
    using assms(3,6,7) by simp_all
  ultimately show ?thesis using assms(1,2,8) by (simp add: base_ok_def counters_ok_def)
qed

lemma note_answer_ok:
  assumes "base_ok asked searching tv" and r: "note_answer c tv = (acts, tv')"
  shows "base_ok asked (searching @ searched_in acts) tv' \<and> asked_in acts = [] \<and>
    ident c \<notin># idents outstanding (tv_observers tv') \<and> tv_done tv' = tv_done tv \<and>
    tv_converged tv' = tv_converged tv \<and> tv_searchInFlight tv \<le> tv_searchInFlight tv'"
proof (cases "find_observer c (tv_observers tv)")
  case None
  then have "acts = []" "tv' = tv" using r by (simp_all add: note_answer_def)
  then show ?thesis using assms(1) not_found_ident [OF assms(1) None] by simp
next
  case (Some i)
  obtain as ob bs where s: "tv_observers tv = as @ ob # bs" "i = length as" and c: "clash (oq_contact ob) c"
    using find_observer_split [OF Some] by metis
  have f: "find_observer c (as @ ob # bs) = Some (length as)" using Some s by simp
  have o: "observers_ok (tv_targetId tv) (as @ ob # bs)" using assms(1) s(1) by (simp add: base_ok_def)
  show ?thesis
  proof (cases "oq_queried ob \<and> \<not> oq_alive ob")
    case False
    then have "acts = []" "tv' = tv" using r by (auto simp: note_answer_def f s)
    moreover have "\<not> outstanding ob" using False by (auto simp: outstanding_def)
    then have "ident c \<notin># idents outstanding (tv_observers tv)"
      using found_is_ident [OF o c, of outstanding] unfolding s(1) by blast
    ultimately show ?thesis using assms(1) by simp
  next
    case True
    define ob' where "ob' = ob\<lparr>oq_alive := True, oq_failed := False\<rparr>"
    define tv1 where "tv1 = tv\<lparr>tv_observers := as @ ob' # bs, tv_answered := tv_answered tv + 1,
      tv_inFlight := (if tv_inFlight tv > 0 then tv_inFlight tv - 1 else tv_inFlight tv)\<rparr>"
    have r1: "search_observer i False tv1 = (acts, tv')"
      using r True by (simp add: note_answer_def f s tv1_def ob'_def)
    have nout: "\<not> outstanding ob'" and same: "oq_contact ob' = oq_contact ob" by (simp_all add: ob'_def outstanding_def)
    have "flags_ok ob'" using observers_ok_mem [OF o, of ob] True by (simp add: flags_ok_def ob'_def)
    then have 1: "base_ok asked searching tv1" unfolding tv1_def
      by (intro settle_ok [OF assms(1) s(1)])
        (use assms(1) True in \<open>simp_all add: ob'_def outstanding_def base_ok_def counters_ok_def s(1)\<close>)
    then have 2: "base_ok asked (searching @ searched_in acts) tv' \<and> asked_in acts = [] \<and> same_walk tv1 tv'"
      using search_observer_ok [OF 1 _ _ r1] s(2) by (simp add: tv1_def ob'_def)
    have o_tv1: "tv_observers tv1 = as @ ob' # bs" by (simp add: tv1_def)
    have o1: "observers_ok (tv_targetId tv) (as @ ob' # bs)" using 1 by (simp add: base_ok_def tv1_def)
    have "ident c \<notin># idents outstanding (tv_observers tv1)"
      using found_is_ident [OF o1, of c outstanding] c nout same o_tv1 by metis
    moreover have "tv_done tv1 = tv_done tv" "tv_converged tv1 = tv_converged tv" "tv_searchInFlight tv1 = tv_searchInFlight tv"
      by (simp_all add: tv1_def)
    ultimately show ?thesis using 2 same_walk_outstanding [of tv1 tv'] by (simp add: same_walk_def)
  qed
qed

lemma note_failure_ok:
  assumes "base_ok asked searching tv"
  shows "base_ok asked searching (note_failure c tv) \<and> ident c \<notin># idents outstanding (tv_observers (note_failure c tv))"
proof (cases "find_observer c (tv_observers tv)")
  case None
  then show ?thesis using assms not_found_ident [OF assms None] by (simp add: note_failure_def)
next
  case (Some i)
  obtain as ob bs where s: "tv_observers tv = as @ ob # bs" "i = length as" and c: "clash (oq_contact ob) c"
    using find_observer_split [OF Some] by metis
  have f: "find_observer c (as @ ob # bs) = Some (length as)" using Some s by simp
  have o: "observers_ok (tv_targetId tv) (as @ ob # bs)" using assms s(1) by (simp add: base_ok_def)
  show ?thesis
  proof (cases "\<not> oq_failed ob \<and> \<not> oq_alive ob")
    case False
    then have "note_failure c tv = tv" by (auto simp: note_failure_def f s)
    moreover have "\<not> outstanding ob" using False by (auto simp: outstanding_def)
    then have "ident c \<notin># idents outstanding (tv_observers tv)"
      using found_is_ident [OF o c, of outstanding] unfolding s(1) by blast
    ultimately show ?thesis using assms by simp
  next
    case True
    define ob' where "ob' = ob\<lparr>oq_failed := True\<rparr>"
    have e: "note_failure c tv = tv\<lparr>tv_observers := as @ ob' # bs, tv_answered := tv_answered tv,
        tv_inFlight := (if tv_inFlight tv > 0 then tv_inFlight tv - 1 else tv_inFlight tv)\<rparr>"
      using True by (simp add: note_failure_def f s ob'_def)
    have nout: "\<not> outstanding ob'" and same: "oq_contact ob' = oq_contact ob" by (simp_all add: ob'_def outstanding_def)
    have "flags_ok ob'" using observers_ok_mem [OF o, of ob] by (simp add: flags_ok_def ob'_def)
    then have 1: "base_ok asked searching (note_failure c tv)" unfolding e
      by (intro settle_ok [OF assms s(1)])
        (use assms True in \<open>simp_all add: ob'_def outstanding_def base_ok_def counters_ok_def s(1)\<close>)
    have o1: "observers_ok (tv_targetId tv) (as @ ob' # bs)" using 1 by (simp add: base_ok_def e)
    have "ident c \<notin># idents outstanding (as @ ob' # bs)"
      using found_is_ident [OF o1, of c outstanding] c nout same by metis
    then show ?thesis using 1 by (simp add: e)
  qed
qed

lemma note_failure_frame [simp]:
  "tv_done (note_failure c tv) = tv_done tv" "tv_converged (note_failure c tv) = tv_converged tv"
  "tv_searchInFlight (note_failure c tv) = tv_searchInFlight tv"
  by (simp_all add: note_failure_def Let_def split: option.splits)

section \<open>The next requests\<close>

lemma ask_counts:
  assumes "ask_observers limit tn considered (f, q) obs = (conv, acts, (f', q'), obs')"
  shows "f' = f + length (asked_in acts) \<and> q' = q + length (asked_in acts) \<and> searched_in acts = [] \<and>
    (f \<le> limit \<longrightarrow> f' \<le> limit)"
  using assms
  by (induction limit tn considered "(f, q)" obs arbitrary: f q conv acts f' q' obs' rule: ask_observers.induct)
    (force split: prod.splits if_splits)+

lemma ask_observed:
  assumes "ask_observers limit tn considered (f, q) obs = (conv, acts, (f', q'), obs')"
  shows "number_of oq_queried obs' = number_of oq_queried obs + length (asked_in acts) \<and>
    idents outstanding obs' = idents outstanding obs + mset (asked_in acts) \<and>
    idents oq_searched obs' = idents oq_searched obs \<and> number_of oq_alive obs' = number_of oq_alive obs"
  using assms
  by (induction limit tn considered "(f, q)" obs arbitrary: f q conv acts f' q' obs' rule: ask_observers.induct)
    (force simp: outstanding_def split: prod.splits if_splits)+

lemma ask_contacts:
  assumes "ask_observers limit tn considered (f, q) obs = (conv, acts, (f', q'), obs')"
  shows "map oq_contact obs' = map oq_contact obs \<and> (list_all flags_ok obs \<longrightarrow> list_all flags_ok obs')"
  using assms
  by (induction limit tn considered "(f, q)" obs arbitrary: f q conv acts f' q' obs' rule: ask_observers.induct)
    (force simp: flags_ok_def split: prod.splits if_splits)+

text \<open>The walk has converged when the nearest contacts that did not fail have all answered; otherwise
  a request is under way or as many as allowed are.\<close>

lemma ask_converged:
  assumes "ask_observers limit tn considered (f, q) obs = (conv, acts, (f', q'), obs')"
  shows "(conv \<longleftrightarrow> list_all oq_alive (take (tn - considered) (filter (\<lambda>ob. \<not> oq_failed ob) obs))) \<and>
    (conv \<longrightarrow> obs' = obs \<and> acts = []) \<and> (\<not> conv \<longrightarrow> limit \<le> f' \<or> (\<exists>ob \<in> set obs'. outstanding ob))"
  using assms
proof (induction limit tn considered "(f, q)" obs arbitrary: f q conv acts f' q' obs' rule: ask_observers.induct)
  case (2 limit tn considered f q ob obs)
  have t: "tn - considered = Suc (tn - Suc considered)" if "\<not> considered + 1 > tn" using that by simp
  consider (failed) "oq_failed ob" | (enough) "\<not> oq_failed ob" "considered + 1 > tn" |
    (alive) "\<not> oq_failed ob" "\<not> considered + 1 > tn" "oq_alive ob" |
    (asked) "\<not> oq_failed ob" "\<not> considered + 1 > tn" "\<not> oq_alive ob"
    by blast
  then show ?case
  proof cases
    case failed
    obtain conv1 acts1 f1 q1 obs1 where r: "ask_observers limit tn considered (f, q) obs = (conv1, acts1, (f1, q1), obs1)"
      by (metis surj_pair)
    then show ?thesis using 2(1) [OF failed r] 2(5) failed by auto
  next
    case enough
    then show ?thesis using 2(5) by simp
  next
    case alive
    obtain conv1 acts1 f1 q1 obs1 where r: "ask_observers limit tn (considered + 1) (f, q) obs = (conv1, acts1, (f1, q1), obs1)"
      by (metis surj_pair)
    then show ?thesis using 2(2) [OF alive r] 2(5) alive t by auto
  next
    case asked
    define w where "w = (\<not> oq_queried ob \<and> f < limit)"
    obtain conv1 acts1 f1 q1 obs1 where
      r: "ask_observers limit tn (considered + 1) (if w then (f + 1, q + 1) else (f, q)) obs = (conv1, acts1, (f1, q1), obs1)"
      by (metis surj_pair)
    have "ask_observers limit tn considered (f, q) (ob # obs) = (False, (if w then [FIND_NODE (oq_contact ob)] else []) @ acts1,
        (f1, q1), (if w then ob\<lparr>oq_queried := True\<rparr> else ob) # obs1)"
    proof (cases w)
      case True
      then show ?thesis using r asked by (simp add: w_def)
    next
      case False
      then show ?thesis using r asked unfolding w_def by auto
    qed
    then have e: "\<not> conv" "f' = f1" "obs' = (if w then ob\<lparr>oq_queried := True\<rparr> else ob) # obs1" using 2(5) by simp_all
    have "f \<le> f1" using ask_counts [of limit tn "considered + 1"] r by (cases w) fastforce+
    then have l: "limit \<le> f' \<or> outstanding (hd obs')" using e asked by (auto simp: w_def outstanding_def)
    have "\<not> list_all oq_alive (take (tn - considered) (filter (\<lambda>ob. \<not> oq_failed ob) (ob # obs)))"
      using asked t by simp
    then show ?thesis using e l by auto
  qed
qed simp

lemma nearer_contacts: "sorted_wrt (nearer t) obs \<longleftrightarrow> sorted_wrt (\<lambda>a b. kad_distance (kc_id a) t \<le> kad_distance (kc_id b) t \<and> \<not> clash a b) (map oq_contact obs)"
  unfolding nearer_def by (simp add: sorted_wrt_map)

lemma ask_base_ok:
  assumes b: "base_ok asked searching tv"
    and r: "ask_observers (tv_branchFactor tv + tv_extra tv) (tv_targetNodes tv) 0 (tv_inFlight tv, tv_queried tv)
      (tv_observers tv) = (conv, acts, (f', q'), obs')"
  shows "base_ok (asked @ asked_in acts) searching (tv\<lparr>tv_inFlight := f', tv_queried := q', tv_observers := obs'\<rparr>)"
proof -
  have o: "observers_ok (tv_targetId tv) obs'"
    using b ask_contacts [OF r] unfolding base_ok_def observers_ok_def nearer_contacts by auto
  have n: "number_of P obs = size (idents P obs)" for P obs by (simp flip: mset_filter)
  have "number_of outstanding obs' = number_of outstanding (tv_observers tv) + length (asked_in acts)"
    "number_of oq_searched obs' = number_of oq_searched (tv_observers tv)"
    unfolding n using ask_observed [OF r] by (simp_all only: size_union size_mset)
  moreover have "idents outstanding obs' \<subseteq># mset (asked @ asked_in acts)" if "\<not> tv_done tv"
    using b that conjunct1 [OF conjunct2 [OF ask_observed [OF r]]] by (simp add: base_ok_def subset_mset.add_right_mono)
  ultimately show ?thesis
    using b o ask_counts [OF r] ask_observed [OF r] by (simp add: base_ok_def counters_ok_def)
qed

definition nearest_answered :: "traversal \<Rightarrow> bool" where
  "nearest_answered tv \<longleftrightarrow> list_all oq_alive (take (tv_targetNodes tv) (filter (\<lambda>ob. \<not> oq_failed ob) (tv_observers tv)))"

lemma same_walk_nearest:
  assumes "same_walk tv tv'"
  shows "nearest_answered tv' = nearest_answered tv"
proof -
  let ?f = "\<lambda>ob :: observer. ob\<lparr>oq_searched := False\<rparr>"
  have f: "list_all oq_alive (take n (filter (\<lambda>ob. \<not> oq_failed ob) (map ?f obs))) =
      list_all oq_alive (take n (filter (\<lambda>ob. \<not> oq_failed ob) obs))" for n obs
    by (simp add: filter_map o_def take_map list_all_iff)
  show ?thesis
    using f [of "tv_targetNodes tv" "tv_observers tv'"] f [of "tv_targetNodes tv" "tv_observers tv"] assms
    by (simp only: same_walk_def nearest_answered_def)
qed

lemma nextActions_ok:
  assumes b: "base_ok asked searching tv" and w: "tv_converged tv \<and> \<not> tv_done tv \<longrightarrow> tv_searchInFlight tv > 0"
    and n: "nextActions tv = (acts, tv')"
  shows "base_ok (asked @ asked_in acts) (searching @ searched_in acts) tv' \<and> waiting tv' \<and>
    (\<not> tv_converged tv \<and> tv_converged tv' \<longrightarrow> nearest_answered tv')"
proof (cases "tv_done tv \<or> tv_converged tv")
  case True
  then show ?thesis using b w n by (auto simp: nextActions_def waiting_def)
next
  case False
  obtain conv a f' q' obs' where r: "ask_observers (tv_branchFactor tv + tv_extra tv) (tv_targetNodes tv) 0
      (tv_inFlight tv, tv_queried tv) (tv_observers tv) = (conv, a, (f', q'), obs')"
    by (metis surj_pair)
  define tv1 where "tv1 = tv\<lparr>tv_inFlight := f', tv_queried := q', tv_observers := obs'\<rparr>"
  have b1: "base_ok (asked @ asked_in a) searching tv1" unfolding tv1_def by (rule ask_base_ok [OF b r])
  have s1: "searched_in a = []" using ask_counts [OF r] by simp
  show ?thesis
  proof (cases conv)
    case False
    then have e: "acts = a" "tv' = tv1" using n r \<open>\<not> (tv_done tv \<or> tv_converged tv)\<close> by (simp_all add: nextActions_def tv1_def)
    have "\<exists>ob \<in> set obs'. outstanding ob"
    proof (rule ccontr)
      assume c: "\<not> ?thesis"
      then have "tv_branchFactor tv + tv_extra tv \<le> f'" using ask_converged [OF r] False by blast
      moreover have "0 < tv_branchFactor tv" "f' \<le> number_of outstanding obs'"
        using b1 \<open>\<not> (tv_done tv \<or> tv_converged tv)\<close> by (simp_all add: base_ok_def counters_ok_def tv1_def)
      ultimately show False using c by (simp add: filter_empty_conv)
    qed
    then show ?thesis using b1 s1 e \<open>\<not> (tv_done tv \<or> tv_converged tv)\<close> by (simp add: waiting_def tv1_def)
  next
    case True
    define tv2 where "tv2 = tv1\<lparr>tv_converged := True\<rparr>"
    obtain m tv3 where m: "search_closest 0 [0..<length obs'] tv2 = (m, tv3)" by fastforce
    have e: "acts = a @ m" "tv' = (if tv_searchInFlight tv3 = 0 then tv3\<lparr>tv_done := True\<rparr> else tv3)"
      using n r True False m by (simp_all add: nextActions_def tv1_def tv2_def)
    have "base_ok (asked @ asked_in a) searching tv2" using b1 by (simp add: tv2_def base_ok_def counters_ok_def)
    then have c: "base_ok (asked @ asked_in a) (searching @ searched_in m) tv3 \<and> asked_in m = [] \<and> same_walk tv2 tv3"
      by (rule search_closest_ok [OF _ _ m]) (simp add: tv2_def tv1_def)
    have "nearest_answered tv2"
      using ask_converged [OF r] True by (simp add: nearest_answered_def tv2_def tv1_def)
    then have "nearest_answered tv3" using same_walk_nearest c by blast
    moreover have "tv_converged tv3" using c by (simp add: same_walk_def tv2_def)
    ultimately show ?thesis using e s1 c by (simp add: base_ok_def counters_ok_def waiting_def nearest_answered_def)
  qed
qed

lemma finishSearch_ok:
  assumes b: "base_ok asked searching tv" and w: "waiting tv" and c: "ident c \<in> set searching"
  shows "base_ok asked (remove1 (ident c) searching) (finishSearch c failed tv) \<and> waiting (finishSearch c failed tv)"
proof -
  have m: "ident c \<in># idents oq_searched (tv_observers tv)"
    using mset_subset_eqD [of "mset searching" "idents oq_searched (tv_observers tv)" "ident c"] b c
    by (simp only: base_ok_def set_mset_mset)
  then obtain i where i: "find_observer c (tv_observers tv) = Some i"
    using not_found_ident [OF b] by (cases "find_observer c (tv_observers tv)") auto
  obtain as ob bs where s: "tv_observers tv = as @ ob # bs" "i = length as" and cl: "clash (oq_contact ob) c"
    using find_observer_split [OF i] by metis
  have o: "observers_ok (tv_targetId tv) (as @ ob # bs)" using b s(1) by (simp add: base_ok_def)
  have f: "find_observer c (as @ ob # bs) = Some (length as)" using i s by simp
  have alive: "oq_searched ob" "oq_alive ob"
    using found_is_ident [OF o cl, of oq_searched] m s(1) observers_ok_mem [OF o, of ob] by (simp_all add: flags_ok_def)
  define obs where "obs = as @ (if failed then ob\<lparr>oq_failed := True\<rparr> else ob) # bs"
  have obs: "observers_ok (tv_targetId tv) obs"
    using o observers_ok_update [OF o, of "ob\<lparr>oq_failed := True\<rparr>"] observers_ok_mem [OF o, of ob]
    by (simp add: obs_def flags_ok_def)
  have same: "filter outstanding obs = filter outstanding (tv_observers tv)"
    "number_of oq_queried obs = number_of oq_queried (tv_observers tv)"
    "number_of oq_alive obs = number_of oq_alive (tv_observers tv)"
    "number_of oq_searched obs = number_of oq_searched (tv_observers tv)"
    "idents oq_searched obs = idents oq_searched (tv_observers tv)"
    using alive by (simp_all add: obs_def s(1) outstanding_def)
  have n: "tv_searchInFlight tv = length searching" "0 < length searching" using b c by (auto simp: base_ok_def)
  define tv1 where "tv1 = tv\<lparr>tv_observers := obs, tv_searchInFlight := tv_searchInFlight tv - 1\<rparr>"
  have e: "finishSearch c failed tv = (if tv_converged tv1 \<and> tv_searchInFlight tv1 = 0 then tv1\<lparr>tv_done := True\<rparr> else tv1)"
  proof (cases failed)
    case True
    then show ?thesis using f n by (simp add: finishSearch_def tv1_def obs_def Let_def s)
  next
    case False
    then have "tv\<lparr>tv_observers := obs\<rparr> = tv" using s(1) by (cases tv) (simp add: obs_def)
    then have "tv1 = tv\<lparr>tv_searchInFlight := tv_searchInFlight tv - 1\<rparr>" unfolding tv1_def by metis
    then show ?thesis using False i n by (simp add: finishSearch_def Let_def)
  qed
  have "mset searching \<subseteq># idents oq_searched (tv_observers tv)" using b unfolding base_ok_def by blast
  then have "mset searching - {#ident c#} \<subseteq># idents oq_searched obs"
    unfolding same(5) using diff_subset_eq_self subset_mset.order_trans by blast
  then have "base_ok asked (remove1 (ident c) searching) tv1"
    using b obs same(1,2,3,4) c n(1)
    by (simp add: base_ok_def counters_ok_def tv1_def length_remove1 del: mset_map mset_filter)
  moreover have "waiting tv1 \<or> tv_converged tv1 \<and> tv_searchInFlight tv1 = 0"
  proof -
    have "(\<exists>x \<in> set obs. outstanding x) = (\<exists>x \<in> set (tv_observers tv). outstanding x)"
      using same(1) by (metis filter_empty_conv)
    then show ?thesis using w by (auto simp: waiting_def tv1_def)
  qed
  ultimately show ?thesis using e by (auto simp: base_ok_def counters_ok_def waiting_def)
qed

section \<open>Every lookup\<close>

lemma perform_ok:
  assumes "base_ok (lr_asked r) (lr_searching r) tv" "tv_converged tv \<and> \<not> tv_done tv \<longrightarrow> tv_searchInFlight tv > 0"
  shows "run_ok (perform (nextActions tv) r) \<and>
    (\<not> tv_converged tv \<and> tv_converged (lr_tv (perform (nextActions tv) r)) \<longrightarrow>
       nearest_answered (lr_tv (perform (nextActions tv) r)))"
proof -
  obtain acts tv' where "nextActions tv = (acts, tv')" by fastforce
  then show ?thesis using nextActions_ok [OF assms] by (simp add: run_ok_def perform_def)
qed

lemma waiting_converged: "waiting tv \<Longrightarrow> tv_converged tv \<and> \<not> tv_done tv \<longrightarrow> tv_searchInFlight tv > 0"
  by (auto simp: waiting_def)

definition good_step :: "traversal \<Rightarrow> lookup_run \<Rightarrow> bool" where
  "good_step tv r' \<longleftrightarrow> run_ok r' \<and> (\<not> tv_converged tv \<and> tv_converged (lr_tv r') \<longrightarrow> nearest_answered (lr_tv r'))"

lemma onResponse_ok:
  assumes b: "base_ok (lr_asked r0) (lr_searching r) tv" "waiting tv"
    and r: "lr_asked r = lr_asked r0 \<or> lr_asked r = remove1 (ident c) (lr_asked r0)"
  shows "good_step tv (perform (onResponse c closer tv) r)"
proof (cases "tv_done tv")
  case True
  then show ?thesis using b r by (auto simp: onResponse_def perform_def good_step_def run_ok_def base_ok_def)
next
  case False
  obtain acts tv1 where n: "note_answer c tv = (acts, tv1)" by fastforce
  define r1 where "r1 = perform (acts, tv1) r"
  have 1: "base_ok (lr_asked r0) (lr_searching r @ searched_in acts) tv1" "asked_in acts = []"
    "ident c \<notin># idents outstanding (tv_observers tv1)" "tv_done tv1 = tv_done tv" "tv_converged tv1 = tv_converged tv"
    "tv_searchInFlight tv \<le> tv_searchInFlight tv1"
    using note_answer_ok [OF b(1) n] by blast+
  have "base_ok (lr_asked r1) (lr_searching r1) tv1"
    using 1(1,2) r drop_asked [OF 1(1)] 1(3) by (auto simp: r1_def perform_def simp del: mset_map mset_filter)
  then have "base_ok (lr_asked r1) (lr_searching r1) (fold addContact closer tv1)" by (rule addContacts_ok)
  moreover have "tv_converged tv1 \<and> \<not> tv_done tv1 \<longrightarrow> tv_searchInFlight tv1 > 0"
    using waiting_converged [OF b(2)] 1(4,5,6) by auto
  ultimately have "good_step tv (perform (nextActions (fold addContact closer tv1)) r1)"
    using perform_ok [of r1 "fold addContact closer tv1"] 1(5) by (simp add: good_step_def)
  moreover have "perform (onResponse c closer tv) r = perform (nextActions (fold addContact closer tv1)) r1"
    using False n by (simp add: onResponse_def r1_def perform_def split: prod.splits)
  ultimately show ?thesis by simp
qed

lemma onFailure_ok:
  assumes b: "base_ok (lr_asked r0) (lr_searching r) tv" "waiting tv"
    and r: "lr_asked r = lr_asked r0 \<or> lr_asked r = remove1 (ident c) (lr_asked r0)"
  shows "good_step tv (perform (onFailure c tv) r)"
proof -
  have "base_ok (lr_asked r0) (lr_searching r) (note_failure c tv)"
    "ident c \<notin># idents outstanding (tv_observers (note_failure c tv))"
    using note_failure_ok [OF b(1)] by blast+
  then have "base_ok (lr_asked r) (lr_searching r) (note_failure c tv)" using r drop_asked by metis
  then show ?thesis
    using perform_ok waiting_converged [OF b(2)] by (simp add: onFailure_def good_step_def)
qed

lemma finishSearch_converged: "tv_converged (finishSearch c failed tv) = tv_converged tv"
  by (simp add: finishSearch_def Let_def split: option.splits)

lemma lookup_step_good:
  assumes "lookup_step r r'" "run_ok r"
  shows "good_step (lr_tv r) r'"
  using assms
proof (cases rule: lookup_step.cases)
  case (answered c closer)
  then show ?thesis using assms(2) onResponse_ok [of r] by (simp add: run_ok_def)
next
  case (timed_out c)
  then show ?thesis using assms(2) onFailure_ok [of r] by (simp add: run_ok_def)
next
  case (answered_other c closer)
  then show ?thesis using assms(2) onResponse_ok [of r] by (simp add: run_ok_def)
next
  case (timed_out_other c)
  then show ?thesis using assms(2) onFailure_ok [of r] by (simp add: run_ok_def)
next
  case stall
  let ?tv = "if tv_extra (lr_tv r) < 2 * tv_branchFactor (lr_tv r) then (lr_tv r)\<lparr>tv_extra := tv_extra (lr_tv r) + 1\<rparr> else lr_tv r"
  have "base_ok (lr_asked r) (lr_searching r) ?tv" using assms(2) by (simp add: run_ok_def base_ok_def counters_ok_def)
  moreover have "tv_converged ?tv \<and> \<not> tv_done ?tv \<longrightarrow> tv_searchInFlight ?tv > 0"
    using assms(2) waiting_converged by (simp add: run_ok_def)
  ultimately have "good_step (lr_tv r) (perform (nextActions ?tv) r)"
    using perform_ok [of r ?tv] by (simp add: good_step_def)
  then show ?thesis using stall by (simp add: stalled_def)
next
  case (search_answered c)
  then show ?thesis using finishSearch_ok [of "lr_asked r" "lr_searching r" "lr_tv r" c False] assms(2)
    by (simp add: good_step_def run_ok_def onSearchResponse_def finishSearch_converged)
next
  case (search_timed_out c)
  then show ?thesis using finishSearch_ok [of "lr_asked r" "lr_searching r" "lr_tv r" c True] assms(2)
    by (simp add: good_step_def run_ok_def onSearchFailure_def finishSearch_converged)
qed

lemma lookup_begun_ok:
  assumes "lookup_begun r"
  shows "run_ok r"
  using assms
proof (cases rule: lookup_begun.cases)
  case (1 kind targetId fileSize searchable maxSearches branchFactor targetNodes tv seeds)
  have tv: "validId (tv_targetId tv)" "tv_observers tv = []" "counters_ok tv" "tv_inFlight tv = 0"
    "tv_searchInFlight tv = 0" "\<not> tv_converged tv"
    using 1(2) by (auto simp: new_traversal_def counters_ok_def split: if_splits)
  have "base_ok [] [] tv" unfolding base_ok_def using tv by (simp add: observers_ok_def)
  then have "base_ok [] [] (fold addContact seeds tv)" by (rule addContacts_ok)
  then have "run_ok (perform (nextActions (fold addContact seeds tv)) \<lparr>lr_tv = tv, lr_asked = [], lr_searching = []\<rparr>)"
    using perform_ok [of "\<lparr>lr_tv = tv, lr_asked = [], lr_searching = []\<rparr>" "fold addContact seeds tv"] tv(6)
    by simp
  then show ?thesis unfolding 1(1) begin_lookup_def start_def .
qed

interpretation lookups: transition_system lookup_begun lookup_step run_ok
proof
  show "run_ok r" if "lookup_begun r" for r using that by (rule lookup_begun_ok)
  show "run_ok r'" if "run_ok r" "lookup_step r r'" for r r'
    using lookup_step_good [OF that(2,1)] unfolding good_step_def by (rule conjunct1)
qed

text \<open>A lookup with one contact to start from, asked and then answered.\<close>

definition demo_traversal :: traversal where
  "demo_traversal = \<lparr>tv_kind = SOURCE_TRAVERSAL, tv_targetId = replicate 16 0, tv_size = 0, tv_searchable = None,
     tv_maxSearches = 3, tv_branchFactor = 3, tv_targetNodes = 8, tv_inFlight = 1, tv_extra = 0, tv_queried = 1,
     tv_answered = 0, tv_searches = 0, tv_searchInFlight = 0, tv_converged = False, tv_done = False,
     tv_observers = [\<lparr>oq_contact = demo_contact, oq_queried = True, oq_alive = False, oq_failed = False, oq_searched = False\<rparr>]\<rparr>"

definition demo_lookup :: lookup_run where
  "demo_lookup = \<lparr>lr_tv = demo_traversal, lr_asked = [ident demo_contact], lr_searching = []\<rparr>"

lemma demo_lookup_begun: "lookup_begun demo_lookup"
proof -
  let ?tv = "demo_traversal\<lparr>tv_inFlight := 0, tv_queried := 0, tv_observers := []\<rparr>"
  have "new_traversal SOURCE_TRAVERSAL (replicate 16 0) 0 None 3 0 0 = Some ?tv"
    by (simp add: new_traversal_def validId_def HASH_LENGTH_def demo_traversal_def)
  then have "lookup_begun (begin_lookup [demo_contact] ?tv)" by (rule lookup_begun.intros)
  moreover have "begin_lookup [demo_contact] ?tv = demo_lookup"
    by (simp add: begin_lookup_def start_def addContact_def demo_contact_def demo_traversal_def demo_lookup_def
        validId_def HASH_LENGTH_def find_observer_def insert_observer_def new_observer_def drop_far.simps
        nextActions_def perform_def)
  ultimately show ?thesis by simp
qed

lemma demo_lookup_answered:
  "\<exists>r'. lookup_step demo_lookup r' \<and> tv_converged (lr_tv r') \<and> tv_targetNodes (lr_tv r') = 8 \<and>
     filter (\<lambda>ob. \<not> oq_failed ob) (tv_observers (lr_tv r')) \<noteq> []"
  by (rule exI, rule conjI, rule lookup_step.answered [of demo_contact _ "[]"])
    (simp_all add: demo_lookup_def demo_traversal_def perform_def onResponse_def note_answer_def find_observer_def
        sameContact_def search_observer_def nextActions_def)


lemma distinct_by_key: "sorted_wrt (\<lambda>a b. f a \<noteq> f b) xs \<Longrightarrow> distinct (map f xs)"
  by (induction xs) auto




text \<open>
  C40. A walk ends only at the target: when a step makes a lookup converge, the nearest contacts that
  did not fail, as many as it looks for, have all answered.
\<close>

theorem lookup_converged:
  assumes "lookup_begun r0" "lookup_step\<^sup>*\<^sup>* r0 r" "lookup_step r r'" "\<not> tv_converged (lr_tv r)" "tv_converged (lr_tv r')"
  shows "list_all oq_alive (take (tv_targetNodes (lr_tv r')) (filter (\<lambda>ob. \<not> oq_failed ob) (tv_observers (lr_tv r'))))"
  using lookup_step_good [OF assms(3) lookups.always_ok [OF assms(1,2)]] assms(4,5)
  by (simp add: good_step_def nearest_answered_def)

theorem lookup_converged_witness:
  "\<exists>r'. lookup_step demo_lookup r' \<and> tv_converged (lr_tv r') \<and>
     list_all oq_alive (take 8 (filter (\<lambda>ob. \<not> oq_failed ob) (tv_observers (lr_tv r'))))"
proof -
  obtain r' where r': "lookup_step demo_lookup r'" "tv_converged (lr_tv r')" "tv_targetNodes (lr_tv r') = 8"
    using demo_lookup_answered by blast
  have "\<not> tv_converged (lr_tv demo_lookup)" by (simp add: demo_lookup_def demo_traversal_def)
  then have "list_all oq_alive (take 8 (filter (\<lambda>ob. \<not> oq_failed ob) (tv_observers (lr_tv r'))))"
    using lookup_converged [OF demo_lookup_begun rtranclp.rtrancl_refl r'(1) _ r'(2)] r'(3) by simp
  then show ?thesis using r' by blast
qed

end
