(* ===== verification/Spec2Isabelle.thy ===== *)
theory Spec2Isabelle
  imports Segment_Planner Host_Pool Speed Text Engine_Claims Peer_Messages Parts Server_Messages Kad_Lookup
begin

text \<open>
  A verification library for the download manager under \<open>src/src/\<close>. The program downloads over HTTP,
  BitTorrent, eD2k and media playlists; \<open>core/Engine.cc\<close> keeps the tasks of all of them in queues, and
  the tasks of each protocol run on one event loop. The library models the parts that decide: the
  engine's queues, who fetches which bytes of a file, how connections and bandwidth are shared, and
  the eD2k and Kad protocols down to their bytes.

  \<^bold>\<open>Conventions.\<close> A class is a record of its members, a method a function from the old record to the
  new one and the result, in the order of the source. An ordered map is the list of its entries by
  key. A \<open>double\<close> is a rational number that \<open>fl64\<close> rounds to the nearest binary64 value after every
  operation. Integers are machine words where the source lets them wrap and \<open>int\<close> or \<open>nat\<close> where they
  are quantities; time is a number of nanoseconds or seconds as in the source. Bytes on the wire are
  lists of \<open>8 word\<close>; a reader takes the data and an offset and returns a value and the new offset,
  and \<open>None\<close> stands for a thrown \<open>ProtocolError\<close>. Out-parameters are passed in and returned, so that a
  failing parser shows what it leaves behind. Random numbers, MD5, SHA-1, the operations of a task
  that a protocol provides and the test whether a Kad contact is close enough are parameters.

  \<^bold>\<open>Shared ground.\<close>
  \<^item> \<open>Prelude\<close>: rounding, \<open>std::clamp\<close>, ordered maps, and the locale \<open>transition_system\<close>, which every state
    machine below interprets to get its invariant for all reachable states.
  \<^item> \<open>Packet\<close> (\<open>ed2k/Packet.cc\<close>, \<open>ed2k/Endpoint.cc\<close>): integers, tags and tag lists. The locale \<open>reader\<close> says
    that a reader moves its offset forward inside the data, \<open>codec\<close> that it reads back what a writer
    wrote; both carry over to counted lists and are interpreted for every record of the protocols.

  \<^bold>\<open>HTTP downloads.\<close>
  \<^item> \<open>Ranges\<close> (\<open>http/Ranges.cc\<close>): the set of byte ranges; its operations are those on the set of bytes
    (locale \<open>byte_ranges\<close>), and \<open>firstGap\<close> is the leftmost missing interval.
  \<^item> \<open>Segment_Planner\<close> (\<open>http/SegmentPlanner.cc\<close>): which connection fetches which bytes. Every history
    keeps the invariant; a connection gets bytes unless everything is received or being fetched;
    gaps are taken by size; splits, races and extensions stay within their limits.
  \<^item> \<open>Host_Pool\<close> (\<open>http/HostPool.cc\<close>): the connections of one server shared by all downloads from it:
    the cached allowances are fresh, seats are shared as D'Hondt seats, a limit never falls below the
    connections served and is lifted again.

  \<^bold>\<open>Core.\<close>
  \<^item> \<open>Speed\<close> (\<open>core/Speed.h\<close>): the speed meter and the token bucket, which never lets through more than
    it had and earned.
  \<^item> \<open>Text\<close> (\<open>base/Text.cc\<close>): text helpers; \<open>isUtf8\<close> accepts exactly the encodings of Unicode scalar values.
  \<^item> \<open>Gid\<close> (\<open>core/Gid.cc\<close>): task identifiers and their text.
  \<^item> \<open>Engine\<close> (\<open>core/Engine.cc\<close>, \<open>core/Task.cc\<close>): the queues and every operation on them, with the handlers
    posted to the event loop as a list. \<open>Engine_Queues\<close> holds the invariant, \<open>Engine_Safety\<close> shows that
    every operation keeps it, \<open>Engine_Run\<close> makes the engine a transition system in which calls,
    handlers and outcomes of tasks interleave freely, and \<open>Engine_Claims\<close> states what it promises:
    each task in exactly one place, no forgotten task, a shutdown that cannot get stuck, moves that
    nothing disturbs. Its last section shows that the conditions on the steps are needed.

  \<^bold>\<open>eD2k.\<close>
  \<^item> \<open>Peer_Protocol\<close> (\<open>ed2k/PeerProtocol.cc\<close>) and \<open>Server_Protocol\<close> (\<open>ed2k/ServerProtocol.cc\<close>): every writer and
    parser; \<open>Peer_Messages\<close> and \<open>Server_Messages\<close> prove that the parsers recover what the writers wrote
    and that the loops over packed messages end.
  \<^item> \<open>Parts\<close> (\<open>ed2k/Parts.cc\<close>): verified parts, received bytes and the blocks sources have claimed: a
    verified part is received, claimed blocks are disjoint and wanted, a source without a block finds
    everything claimed.
  \<^item> \<open>Cipher\<close> (\<open>ed2k/Cipher.cc\<close>, \<open>ed2k/Hash.cc\<close>, \<open>ed2k/Crypto.cc\<close>): RC4, MD4, AICH hashes and obfuscated UDP
    datagrams. The cipher's table stays a permutation, MD4 is that of RFC 1320, datagrams open.
  \<^item> \<open>Kad_Protocol\<close> (\<open>ed2k/KadProtocol.cc\<close>, \<open>ed2k/KadSearch.cc\<close>) with \<open>Kad_Messages\<close>: the messages of the Kad
    network, \<open>nodes.dat\<close> and the saved routing state.
  \<^item> \<open>Kad_Routing\<close> (\<open>ed2k/KadRouting.cc\<close>): buckets by XOR distance, refreshing, the nearest contacts, saving
    and restoring; requests under way and published sources.
  \<^item> \<open>Kad_Lookup\<close> (\<open>KadTraversal\<close> of \<open>ed2k/KadRouting.cc\<close>): the iterative lookup together with its requests:
    it never gets stuck, stays within its limits and ends only at the target.

  \<^bold>\<open>Termination.\<close> No definition uses fuel. Most loops are structural recursions, over a list, over the
  bytes of a string or over the seats left to give (\<open>HostPool::allocate\<close>). The others are functions with a
  termination proof: the gap scan of the planner, \<open>Parts::claimGaps\<close>, \<open>SpeedMeter::advance\<close>, the digests and
  the loops over packed messages, whose measure is what is left of the window, the time or the data.
  The one loop that may run forever, the search of \<open>newGid\<close> for a non-zero random number, runs over the
  list of the random numbers it draws.

  \<^bold>\<open>Not modelled.\<close> Memory limits: a \<open>reserve\<close> for a claimed count always succeeds in the model, which the
  findings of the manifest point out where the count is not checked. Log messages and the texts of
  exceptions. The number formats of C++ streams in \<open>base/Text.cc\<close> (\<open>toDouble\<close>, \<open>toSize\<close>, \<open>formatSize\<close>).
  The JSON status of tasks. The parts that are mostly calls into sockets, files, threads, databases or
  third-party libraries: the HTTP client and \<open>HttpTask.cc\<close>, the BitTorrent session (libtorrent), the
  media pipeline (FFmpeg), \<open>disk/\<close>, \<open>net/\<close>, \<open>rpc/\<close>, \<open>state/\<close>, \<open>options/\<close>, \<open>app/\<close>, and of eD2k the connections
  and the drivers above the protocols (\<open>Client.cc\<close>, \<open>Connection.cc\<close>, \<open>Network.cc\<close>, \<open>ServerSession.cc\<close>,
  \<open>Kad.cc\<close>, \<open>Ed2kTask.cc\<close>, \<open>Store.cc\<close>, \<open>UploadQueue.cc\<close>, \<open>SharedFile.cc\<close>, \<open>Aich.cc\<close>, \<open>Search.cc\<close>, \<open>Searches.cc\<close>,
  \<open>Link.cc\<close>, \<open>Compression.cc\<close>). What the models rely on of them is stated where they are used: the steps
  of \<open>Engine_Run\<close> for tasks, the steps of \<open>Kad_Lookup\<close> for requests.
\<close>

end
